(* ===== verification/Prelude.thy ===== *)
theory Prelude
  imports Main "HOL-Library.Word"
begin

text \<open>
  Shared vocabulary of the development: names for the machine integers of the C sources, the
  byte layout of the memory pages that the rings hand out, paths through arrays of links, and
  the generic lemmas the component theories use.
\<close>

unbundle bit_operations_syntax

section \<open>Machine integers\<close>

type_synonym u8 = "8 word"
type_synonym u16 = "16 word"
type_synonym u32 = "32 word"
type_synonym u64 = "64 word"

text \<open>Facts on offsets (next slot, index masks) used by both rings.\<close>

named_theorems ring_off

text \<open>Facts on the ownership bits of a descriptor.\<close>

named_theorems desc_bits

section \<open>Bytes in a page\<close>

text \<open>
  A page is read as a function from byte offsets to bytes. \<open>put_int k off v\<close> stores the \<open>k\<close>
  bytes of the integer \<open>v\<close> at offset \<open>off\<close> in little-endian order, as a store of a \<open>k\<close>-byte C
  integer does on x86; \<open>get_uint\<close> and \<open>get_sint\<close> read them back.
\<close>

type_synonym page = "nat \<Rightarrow> u8"

definition put_int :: "nat \<Rightarrow> nat \<Rightarrow> int \<Rightarrow> page \<Rightarrow> page" where
  "put_int k off v pg =
     (\<lambda>i. if off \<le> i \<and> i < off + k then word_of_int (v div 256 ^ (i - off)) else pg i)"

fun get_uint :: "nat \<Rightarrow> nat \<Rightarrow> page \<Rightarrow> int" where
  "get_uint 0 off pg = 0"
| "get_uint (Suc k) off pg = uint (pg off) + 256 * get_uint k (Suc off) pg"

definition get_sint :: "nat \<Rightarrow> nat \<Rightarrow> page \<Rightarrow> int" where
  "get_sint k off pg = signed_take_bit (8 * k - 1) (get_uint k off pg)"

definition put_bytes :: "nat \<Rightarrow> u8 list \<Rightarrow> page \<Rightarrow> page" where
  "put_bytes off bs pg =
     (\<lambda>i. if off \<le> i \<and> i < off + length bs then bs ! (i - off) else pg i)"

definition get_bytes :: "nat \<Rightarrow> nat \<Rightarrow> page \<Rightarrow> u8 list" where
  "get_bytes off n pg = map (\<lambda>i. pg (off + i)) [0..<n]"

lemma get_uint_cong:
  "(\<And>i. off \<le> i \<Longrightarrow> i < off + k \<Longrightarrow> pg i = pg' i) \<Longrightarrow> get_uint k off pg = get_uint k off pg'"
  by (induction k arbitrary: off) auto

lemma get_sint_cong:
  "(\<And>i. off \<le> i \<Longrightarrow> i < off + k \<Longrightarrow> pg i = pg' i) \<Longrightarrow> get_sint k off pg = get_sint k off pg'"
  unfolding get_sint_def by (subst get_uint_cong [of off k pg pg']) auto

lemma get_uint_put_int: "get_uint k off (put_int k off v pg) = v mod 256 ^ k"
proof (induction k arbitrary: off v pg)
  case 0
  show ?case by simp
next
  case (Suc k)
  have tail: "get_uint k (Suc off) (put_int (Suc k) off v pg)
      = get_uint k (Suc off) (put_int k (Suc off) (v div 256) pg)"
  proof (rule get_uint_cong)
    fix i assume i: "Suc off \<le> i" "i < Suc off + k"
    then have "i - off = Suc (i - Suc off)" by simp
    with i show "put_int (Suc k) off v pg i = put_int k (Suc off) (v div 256) pg i"
      by (simp add: put_int_def zdiv_zmult2_eq [symmetric] mult.commute)
  qed
  have "uint (put_int (Suc k) off v pg off) = v mod 256"
    by (simp add: put_int_def unsigned_of_int take_bit_eq_mod)
  then have "get_uint (Suc k) off (put_int (Suc k) off v pg)
      = v mod 256 + 256 * ((v div 256) mod 256 ^ k)"
    by (simp add: tail Suc.IH)
  also have "\<dots> = v mod 256 ^ Suc k"
    by (simp add: zmod_zmult2_eq)
  finally show ?case .
qed

lemma get_sint_put_int:
  assumes "0 < k" and "- (2 ^ (8 * k - 1)) \<le> v" and "v < 2 ^ (8 * k - 1)"
  shows "get_sint k off (put_int k off v pg) = v"
proof -
  have p: "(256::int) ^ k = 2 ^ (8 * k)"
    by (simp add: power_mult)
  have le: "(8 * k \<le> 8 * k - 1) = False" using assms(1) by arith
  have "get_sint k off (put_int k off v pg) = signed_take_bit (8 * k - 1) (take_bit (8 * k) v)"
    by (simp add: get_sint_def get_uint_put_int p take_bit_eq_mod)
  also have "\<dots> = signed_take_bit (8 * k - 1) v"
    using le by (simp only: signed_take_bit_take_bit if_False)
  also have "\<dots> = v"
    using assms(2,3) by (simp add: signed_take_bit_int_eq_self_iff)
  finally show ?thesis .
qed

lemma put_int_other [simp]:
  "i < off \<or> off + k \<le> i \<Longrightarrow> put_int k off v pg i = pg i"
  by (auto simp: put_int_def)

lemma put_bytes_other [simp]:
  "i < off \<or> off + length bs \<le> i \<Longrightarrow> put_bytes off bs pg i = pg i"
  by (auto simp: put_bytes_def)

lemma get_uint_put_int_other:
  "off + k \<le> off' \<or> off' + k' \<le> off \<Longrightarrow> get_uint k off (put_int k' off' v pg) = get_uint k off pg"
  by (rule get_uint_cong) auto

lemma get_sint_put_int_other:
  "off + k \<le> off' \<or> off' + k' \<le> off \<Longrightarrow> get_sint k off (put_int k' off' v pg) = get_sint k off pg"
  by (rule get_sint_cong) auto

lemma get_sint_put_bytes_other:
  "off + k \<le> off' \<or> off' + length bs \<le> off \<Longrightarrow>
   get_sint k off (put_bytes off' bs pg) = get_sint k off pg"
  by (rule get_sint_cong) auto

lemma get_uint_put_bytes_other:
  "off + k \<le> off' \<or> off' + length bs \<le> off \<Longrightarrow>
   get_uint k off (put_bytes off' bs pg) = get_uint k off pg"
  by (rule get_uint_cong) auto

lemma length_get_bytes [simp]: "length (get_bytes off n pg) = n"
  by (simp add: get_bytes_def)

lemma get_bytes_cong:
  "(\<And>i. off \<le> i \<Longrightarrow> i < off + n \<Longrightarrow> pg i = pg' i) \<Longrightarrow> get_bytes off n pg = get_bytes off n pg'"
  by (simp add: get_bytes_def)

lemma get_bytes_put_bytes:
  "n \<le> length bs \<Longrightarrow> get_bytes off n (put_bytes off bs pg) = take n bs"
  by (rule nth_equalityI) (auto simp: get_bytes_def put_bytes_def)

lemma get_bytes_put_bytes_other:
  "off + n \<le> off' \<or> off' + length bs \<le> off \<Longrightarrow>
   get_bytes off n (put_bytes off' bs pg) = get_bytes off n pg"
  by (rule get_bytes_cong) auto

lemma get_bytes_put_int_other:
  "off + n \<le> off' \<or> off' + k \<le> off \<Longrightarrow>
   get_bytes off n (put_int k off' v pg) = get_bytes off n pg"
  by (rule get_bytes_cong) auto

lemmas page_access = get_sint_put_int get_uint_put_int get_sint_put_int_other
  get_uint_put_int_other get_sint_put_bytes_other get_uint_put_bytes_other
  get_bytes_put_bytes get_bytes_put_bytes_other get_bytes_put_int_other

section \<open>Modular offsets and descriptor bits\<close>

lemma mod_add_cancel:
  assumes eq: "(a + i) mod m = (a + j) mod (m::nat)" and "i < m" "j < m"
  shows "i = j"
proof -
  have half: "i' = j'" if "i' \<le> j'" "(a + i') mod m = (a + j') mod m" "j' < m" for i' j'
  proof -
    from that have "m dvd (a + j') - (a + i')"
      by (metis add_le_cancel_left mod_eq_dvd_iff_nat)
    with that show ?thesis using nat_dvd_not_less [of "j' - i'" m] by (cases "i' = j'") auto
  qed
  show ?thesis
    using half [of i j] half [of j i] assms by (cases "i \<le> j") auto
qed

lemma mod_diff_step:
  assumes "w < m" "r < (m::nat)"
  shows "(Suc w mod m + (m - r)) mod m = Suc ((w + (m - r)) mod m) mod m"
  by (simp add: mod_simps)

lemma and_1: "(d::16 word) AND 1 = 0 \<longleftrightarrow> \<not> bit d 0"
  by (simp add: and_one_eq mod2_eq_if bit_0)

lemma and_2: "(d::16 word) AND 2 = 0 \<longleftrightarrow> \<not> bit d 1"
proof -
 have "d AND 2 = (if bit d 1 then 2 else 0)" 
  by (rule bit_word_eqI) (auto simp: bit_simps)
 then show ?thesis by simp
qed

lemma bit_252: "bit (252::16 word) n \<longleftrightarrow> 2 \<le> n \<and> n \<le> 7"
proof -
  have e: "(252::16 word) = push_bit 2 (mask 6)" by (simp add: mask_eq_exp_minus_1)
  show ?thesis by (subst e) (auto simp: bit_push_bit_iff bit_mask_iff)
qed

lemma and_eq_0_iff: "(a::16 word) AND b = 0 \<longleftrightarrow> (\<forall>n. bit b n \<longrightarrow> \<not> bit a n)"
proof
  assume "a AND b = 0"
  then have "\<not> bit (a AND b) n" for n by simp
  then show "\<forall>n. bit b n \<longrightarrow> \<not> bit a n" by (auto simp: bit_and_iff)
next
  assume "\<forall>n. bit b n \<longrightarrow> \<not> bit a n"
  then show "a AND b = 0" by (intro bit_word_eqI) (auto simp: bit_and_iff)
qed

lemma and_252: "(d::16 word) AND 252 = 0 \<longleftrightarrow> (\<forall>n. 2 \<le> n \<and> n \<le> 7 \<longrightarrow> \<not> bit d n)"
  unfolding and_eq_0_iff bit_252 by (rule refl)

lemmas [desc_bits] = and_1 and_2 bit_252 and_252

section \<open>Paths through an array of links\<close>

text \<open>\<open>path f a xs b\<close>: from \<open>a\<close>, following \<open>f\<close>, one visits \<open>xs\<close> and arrives at \<open>b\<close>.\<close>

fun path :: "('a \<Rightarrow> 'a) \<Rightarrow> 'a \<Rightarrow> 'a list \<Rightarrow> 'a \<Rightarrow> bool" where
  "path f a [] b = (a = b)"
| "path f a (x # xs) b = (a = x \<and> path f (f x) xs b)"

lemma path_append [simp]: "path f a (xs @ ys) b \<longleftrightarrow> (\<exists>m. path f a xs m \<and> path f m ys b)"
  by (induction xs arbitrary: a) auto

lemma path_upd [simp]: "x \<notin> set xs \<Longrightarrow> path (f(x := y)) a xs b = path f a xs b"
  by (induction xs arbitrary: a) auto

lemma path_upd_if [simp]: "x \<notin> set xs \<Longrightarrow> path (\<lambda>z. if z = x then y else f z) a xs b = path f a xs b"
  by (induction xs arbitrary: a) auto

lemma path_cong: "(\<And>x. x \<in> set xs \<Longrightarrow> f x = g x) \<Longrightarrow> path f a xs b = path g a xs b"
  by (induction xs arbitrary: a) auto

text \<open>Reversing the links of a path, starting from the predecessor \<open>p\<close>.\<close>

fun rev_links :: "('a \<Rightarrow> 'a) \<Rightarrow> 'a \<Rightarrow> 'a list \<Rightarrow> 'a \<Rightarrow> 'a" where
  "rev_links f p [] = f"
| "rev_links f p (x # xs) = rev_links (f(x := p)) x xs"

lemma rev_links_other: "y \<notin> set xs \<Longrightarrow> rev_links f p xs y = f y"
  by (induction xs arbitrary: f p) auto

lemma path_rev_links:
  "distinct xs \<Longrightarrow> path (rev_links f p xs) (last (p # xs)) (rev xs) p"
proof (induction xs arbitrary: f p)
  case Nil
  show ?case by simp
next
  case (Cons x xs)
  then have "path (rev_links (f(x := p)) x xs) (last (x # xs)) (rev xs) x" by simp
  moreover have "rev_links (f(x := p)) x xs x = p" using Cons.prems by (simp add: rev_links_other)
  ultimately show ?case by auto
qed

lemma path_last: "path f a xs b \<Longrightarrow> xs \<noteq> [] \<Longrightarrow> f (last xs) = b"
  by (induction xs arbitrary: a) (auto split: if_splits)

lemma path_upt:
  "a \<le> b \<Longrightarrow> (\<And>i. a \<le> i \<Longrightarrow> i < b \<Longrightarrow> f (g i) = g (Suc i)) \<Longrightarrow> path f (g a) (map g [a..<b]) (g b)"
proof (induction "b - a" arbitrary: a)
  case 0
  then show ?case by simp
next
  case (Suc n)
  then have "[a..<b] = a # [Suc a..<b]" by (simp add: upt_conv_Cons)
  moreover have "path f (g (Suc a)) (map g [Suc a..<b]) (g b)"
    using Suc.hyps(2) Suc.prems by (intro Suc.hyps(1)) auto
  ultimately show ?case using Suc by auto
qed

end
