(* ===== verification/Kring_Types.thy ===== *)
theory Kring_Types
  imports Prelude
begin

text \<open>
  The types shared by the kernel and the user side of the rings (\<open>src/kring/krdep.h\<close> and
  \<open>src/kring/kring.h\<close>). A \<open>kring_user\<close> holds the handle of one open ring. Its \<open>control\<close>,
  \<open>data\<close> and \<open>pd\<close> pointers all lead into the memory of the rings of one ring set, which the
  model keeps as a function from ring ids; \<open>ring_ix\<close> says which ring an entry of the
  \<open>control\<close> array points to (\<open>kdata_map_enter\<close> maps entry \<open>ctrl\<close> to ring \<open>ctrl\<close> when all rings
  are open, and entry 0 to the one ring otherwise).
\<close>

section \<open>Enumerations and constants\<close>

datatype KRING_PROTO = KRING_PACKETS | KRING_DECRYPTED | KRING_PLAIN

datatype KRING_TYPE = KRING_DATA | KRING_CTRL

text \<open>A mode arrives from user space in \<open>kring_addr\<close> unchecked: any other integer is possible.\<close>

datatype KRING_MODE = KRING_READ | KRING_WRITE | KRING_MODE_OTHER int

definition KRING_RING_ID_ALL :: int where
  [simp]: "KRING_RING_ID_ALL = -1"

definition KRING_PAGE_SIZE :: nat where
  [simp]: "KRING_PAGE_SIZE = 4096"

definition KRING_NLEN :: nat where
  [simp]: "KRING_NLEN = 32"

definition KRING_ERR_SOCK :: int where [simp]: "KRING_ERR_SOCK = -1"

definition KRING_ERR_MMAP :: int where [simp]: "KRING_ERR_MMAP = -2"

definition KRING_ERR_BIND :: int where [simp]: "KRING_ERR_BIND = -3"

definition KRING_ERR_READER_ID :: int where [simp]: "KRING_ERR_READER_ID = -4"

definition KRING_ERR_WRITER_ID :: int where [simp]: "KRING_ERR_WRITER_ID = -5"

definition KRING_ERR_RING_N :: int where [simp]: "KRING_ERR_RING_N = -6"

definition KRING_ERR_ENTER :: int where [simp]: "KRING_ERR_ENTER = -7"

section \<open>The handle of an open ring\<close>

record kring_user =
  u_socket :: int
  u_ring_id :: int
  u_nrings :: int
  u_writer_id :: int
  u_reader_id :: int
  u_mode :: KRING_MODE
  u_krerr :: int
  u_errno :: int

text \<open>
  The address a user process binds a socket to. The name is the raw buffer of 32 characters, which
  may lack a terminator.
\<close>

record kring_addr =
  addr_name :: string
  addr_ring_id :: int
  addr_mode :: KRING_MODE

definition ring_ix :: "kring_user \<Rightarrow> int \<Rightarrow> int" where
  "ring_ix u ctrl = (if u_ring_id u = KRING_RING_ID_ALL then ctrl else u_ring_id u)"

section \<open>Names\<close>

text \<open>The C string at the start of a buffer, and \<open>kring_copy_name\<close>: \<open>strncpy\<close> pads with zeros.\<close>

definition cstr :: "string \<Rightarrow> string" where
  "cstr buf = takeWhile (\<lambda>ch. ch \<noteq> CHR 0x00) buf"

definition kring_copy_name :: "string \<Rightarrow> string" where
  "kring_copy_name src =
     (let s = take KRING_NLEN (cstr src);
          padded = s @ replicate (KRING_NLEN - length s) (CHR 0x00) in
      padded[KRING_NLEN - 1 := CHR 0x00])"

end
