(* ===== verification/Kdata.thy ===== *)
theory Kdata
  imports Kring_Types
begin

text \<open>
  The data ring, \<open>src/kring/kdata.h\<close>: 2048 pages with one 16 bit descriptor each. A descriptor
  records who owns its page: bit 0 a writer, bits 2 to 7 the readers, bit 1 that a writer skipped
  the page because a reader held it. Writers look for the next page that nobody owns and publish
  it by moving \<open>whead\<close>; each reader follows with its own \<open>rhead\<close>.

  The functions here run one operation of one thread without interference, so a compare-and-swap
  finds the value just read; its failure branch is kept as in the source. A result \<open>None\<close> means
  that the call does not return or reads outside of an array. The interleaving of several threads
  is the subject of \<open>Kdata_Concurrent\<close>.
\<close>

section \<open>Constants and shared memory\<close>

type_synonym kdata_desc_t = u16
type_synonym kdata_off_t = u64

definition KDATA_NPAGES :: kdata_off_t where [simp]: "KDATA_NPAGES = 2048"

definition KDATA_MAX_RINGS_PER_SET :: int where [simp]: "KDATA_MAX_RINGS_PER_SET = 32"

definition KDATA_RING_ID_ALL :: int where [simp]: "KDATA_RING_ID_ALL = -1"

definition KDATA_DSC_READER_SHIFT :: int where [simp]: "KDATA_DSC_READER_SHIFT = 2"

definition KDATA_DSC_WRITER_OWNED :: kdata_desc_t where [simp]: "KDATA_DSC_WRITER_OWNED = 0x01"

definition KDATA_DSC_SKIPPED :: kdata_desc_t where [simp]: "KDATA_DSC_SKIPPED = 0x02"

definition KDATA_DSC_READER_OWNED :: kdata_desc_t where [simp]: "KDATA_DSC_READER_OWNED = 0xfc"

definition KDATA_DSC_READER_BIT :: "int \<Rightarrow> kdata_desc_t" where
  "KDATA_DSC_READER_BIT rid = push_bit (nat (KDATA_DSC_READER_SHIFT + rid)) 1"

definition KDATA_DIR_INSIDE :: int where [simp]: "KDATA_DIR_INSIDE = 1"

definition KDATA_DIR_OUTSIDE :: int where [simp]: "KDATA_DIR_OUTSIDE = 2"

definition KDATA_READERS :: int where [simp]: "KDATA_READERS = 6"

definition KDATA_WRITERS :: int where [simp]: "KDATA_WRITERS = 6"

record kdata_shared_head =
  head_whead :: kdata_off_t
  head_wresv :: kdata_off_t
  head_produced :: u64

record kdata_shared_writer =
  w_whead :: kdata_off_t
  w_wresv :: kdata_off_t
  w_wbar :: kdata_off_t

record kdata_shared_reader =
  r_rhead :: kdata_off_t
  r_skips :: u64
  r_entered :: u8
  r_consumed :: u64

text \<open>
  The control block. The arrays are functions; the invariant of \<open>Kdata_Ring\<close> says that the offsets that
  are used as indices stay inside of the descriptor array.
\<close>

record kdata_control =
  kd_head :: kdata_shared_head
  kd_writer :: "int \<Rightarrow> kdata_shared_writer"
  kd_reader :: "int \<Rightarrow> kdata_shared_reader"
  kd_desc :: "kdata_off_t \<Rightarrow> kdata_desc_t"

text \<open>A ring: its control block and its pages, which kernel and user space both map.\<close>

record kdata_ring =
  kr_control :: kdata_control
  kr_page :: "kdata_off_t \<Rightarrow> page"

type_synonym kdata_rings = "int \<Rightarrow> kdata_ring"

text \<open>\<open>upd_control\<close> writes through \<open>u->control[ctrl]\<close>.\<close>

definition upd_control :: "int \<Rightarrow> (kdata_control \<Rightarrow> kdata_control) \<Rightarrow> kdata_rings \<Rightarrow> kdata_rings" where
  "upd_control i f rs = rs(i := (rs i)\<lparr>kr_control := f (kr_control (rs i))\<rparr>)"

definition set_whead :: "kdata_off_t \<Rightarrow> kdata_control \<Rightarrow> kdata_control" where
  "set_whead off c = c\<lparr>kd_head := (kd_head c)\<lparr>head_whead := off\<rparr>\<rparr>"

definition set_wresv :: "kdata_off_t \<Rightarrow> kdata_control \<Rightarrow> kdata_control" where
  "set_wresv off c = c\<lparr>kd_head := (kd_head c)\<lparr>head_wresv := off\<rparr>\<rparr>"

definition upd_reader :: "int \<Rightarrow> (kdata_shared_reader \<Rightarrow> kdata_shared_reader) \<Rightarrow> kdata_control \<Rightarrow> kdata_control" where
  "upd_reader rid f c = c\<lparr>kd_reader := (kd_reader c)(rid := f (kd_reader c rid))\<rparr>"

section \<open>Page layouts\<close>

text \<open>The sizes of the headers at the start of a page, with the padding of the x86-64 ABI.\<close>

definition sizeof_kdata_packet_header :: nat where [simp]: "sizeof_kdata_packet_header = 8"

definition sizeof_kdata_decrypted_header :: nat where [simp]: "sizeof_kdata_decrypted_header = 80"

definition sizeof_kdata_plain_header :: nat where [simp]: "sizeof_kdata_plain_header = 4"

definition kdata_packet_max_data :: int where
  "kdata_packet_max_data = int KRING_PAGE_SIZE - int sizeof_kdata_packet_header"

definition kdata_decrypted_max_data :: int where
  "kdata_decrypted_max_data = int KRING_PAGE_SIZE - int sizeof_kdata_decrypted_header"

definition kdata_plain_max_data :: int where
  "kdata_plain_max_data = int KRING_PAGE_SIZE - int sizeof_kdata_plain_header"

section \<open>Offsets and descriptors\<close>

definition kdata_skips :: "kring_user \<Rightarrow> kdata_rings \<Rightarrow> u64" where
  "kdata_skips u rs =
     (if u_ring_id u \<noteq> KDATA_RING_ID_ALL
      then r_skips (kd_reader (kr_control (rs (ring_ix u 0))) (u_reader_id u))
      else fold (\<lambda>ring skips. skips + r_skips (kd_reader (kr_control (rs (ring_ix u ring))) (u_reader_id u)))
             [0..u_nrings u - 1] 0)"

definition kdata_avail_impl :: "kdata_control \<Rightarrow> int \<Rightarrow> bool" where
  "kdata_avail_impl c reader_id = (r_rhead (kd_reader c reader_id) \<noteq> head_whead (kd_head c))"

definition kdata_read_desc :: "kdata_control \<Rightarrow> kdata_off_t \<Rightarrow> kdata_desc_t" where
  "kdata_read_desc c off = kd_desc c off"

text \<open>The compare-and-swap on a descriptor: the value before, and the memory after.\<close>

definition kdata_write_back ::
    "kdata_control \<Rightarrow> kdata_off_t \<Rightarrow> kdata_desc_t \<Rightarrow> kdata_desc_t \<Rightarrow> kdata_desc_t \<times> kdata_control" where
  "kdata_write_back c off oldval newval =
     (kd_desc c off,
      if kd_desc c off = oldval then c\<lparr>kd_desc := (kd_desc c)(off := newval)\<rparr> else c)"

definition kdata_wresv_write_back ::
    "kdata_control \<Rightarrow> kdata_off_t \<Rightarrow> kdata_off_t \<Rightarrow> kdata_off_t \<times> kdata_control" where
  "kdata_wresv_write_back c oldval newval =
     (head_wresv (kd_head c), if head_wresv (kd_head c) = oldval then set_wresv newval c else c)"

definition kdata_whead_write_back ::
    "kdata_control \<Rightarrow> kdata_off_t \<Rightarrow> kdata_off_t \<Rightarrow> kdata_off_t \<times> kdata_control" where
  "kdata_whead_write_back c oldval newval =
     (head_whead (kd_head c), if head_whead (kd_head c) = oldval then set_whead newval c else c)"

text \<open>The location of a page: the ring and the offset in it.\<close>

definition kdata_page_data :: "kring_user \<Rightarrow> int \<Rightarrow> kdata_off_t \<Rightarrow> int \<times> kdata_off_t" where
  "kdata_page_data u ctrl off =
     (if u_socket u < 0 then (ring_ix u 0, off) else (ring_ix u ctrl, off))"

definition kdata_avail :: "kring_user \<Rightarrow> kdata_rings \<Rightarrow> bool" where
  "kdata_avail u rs =
     (if u_ring_id u \<noteq> KDATA_RING_ID_ALL
      then kdata_avail_impl (kr_control (rs (ring_ix u 0))) (u_reader_id u)
      else list_ex (\<lambda>ctrl. kdata_avail_impl (kr_control (rs (ring_ix u ctrl))) (u_reader_id u))
             [0..u_nrings u - 1])"

definition kdata_next :: "kdata_off_t \<Rightarrow> kdata_off_t" where
  "kdata_next off = (let off = off + 1 in if off \<ge> KDATA_NPAGES then 0 else off)"

definition kdata_prev :: "kdata_off_t \<Rightarrow> kdata_off_t" where
  "kdata_prev off = (if off = 0 then KDATA_NPAGES - 1 else off - 1)"

section \<open>The reader\<close>

text \<open>
  The loop of \<open>kdata_advance_rhead\<close>: a page that a writer owns is passed over, and so is a page
  whose descriptor changed between the read and the write back.
\<close>

partial_function (option) kdata_advance_rhead ::
    "kdata_control \<Rightarrow> int \<Rightarrow> kdata_off_t \<Rightarrow> (kdata_off_t \<times> kdata_control) option" where
  "kdata_advance_rhead c reader_id rhead0 =
     (let rhead = kdata_next rhead0;
          desc = kdata_read_desc c rhead in
      if desc AND KDATA_DSC_WRITER_OWNED = 0 then
        let newval = desc OR KDATA_DSC_READER_BIT reader_id;
            (before, c') = kdata_write_back c rhead desc newval in
        if before = desc then Some (rhead, c')
        else kdata_advance_rhead c' reader_id rhead
      else kdata_advance_rhead c reader_id rhead)"

text \<open>
  The value \<open>kdata_reader_release\<close> writes back for a descriptor it read. The counter that it
  increments afterwards is the one of reader 0 (\<open>control->reader->consumed\<close>), whoever released.
\<close>

definition reader_release_val :: "int \<Rightarrow> kdata_desc_t \<Rightarrow> kdata_desc_t" where
  "reader_release_val reader_id desc =
     (let newval = desc AND NOT (KDATA_DSC_READER_BIT reader_id) in
      if desc AND KDATA_DSC_SKIPPED \<noteq> 0 then
        (if newval AND KDATA_DSC_READER_OWNED = 0 then newval AND NOT KDATA_DSC_SKIPPED else newval)
      else newval)"

partial_function (option) kdata_reader_release ::
    "int \<Rightarrow> kdata_control \<Rightarrow> kdata_off_t \<Rightarrow> kdata_control option" where
  "kdata_reader_release reader_id c prev =
     (let desc = kdata_read_desc c prev;
          newval = reader_release_val reader_id desc;
          (before, c') = kdata_write_back c prev desc newval in
      if before \<noteq> desc then kdata_reader_release reader_id c' prev
      else Some (upd_reader 0 (\<lambda>r. r\<lparr>r_consumed := r_consumed r + 1\<rparr>) c'))"

definition kdata_select_ctrl :: "kring_user \<Rightarrow> kdata_rings \<Rightarrow> int" where
  "kdata_select_ctrl u rs =
     (if u_ring_id u \<noteq> KDATA_RING_ID_ALL then 0
      else case find (\<lambda>ctrl. kdata_avail_impl (kr_control (rs (ring_ix u ctrl))) (u_reader_id u))
                  [0..u_nrings u - 1] of
             Some ctrl \<Rightarrow> ctrl | None \<Rightarrow> -1)"

text \<open>With no ring to read from, the source indexes the control array at -1: no result here.\<close>

definition kdata_next_generic ::
    "kring_user \<Rightarrow> kdata_rings \<Rightarrow> ((int \<times> kdata_off_t) \<times> kdata_rings) option" where
  "kdata_next_generic u rs =
     (let ctrl = kdata_select_ctrl u rs; i = ring_ix u ctrl; rid = u_reader_id u in
      if ctrl < 0 then None
      else
        let prev = r_rhead (kd_reader (kr_control (rs i)) rid) in
        case kdata_advance_rhead (kr_control (rs i)) rid prev of
          None \<Rightarrow> None
        | Some (rhead, c1) \<Rightarrow>
            let c2 = upd_reader rid (\<lambda>r. r\<lparr>r_rhead := rhead\<rparr>) c1 in
            case (if r_entered (kd_reader c2 rid) \<noteq> 0 then kdata_reader_release rid c2 prev else Some c2) of
              None \<Rightarrow> None
            | Some c3 \<Rightarrow>
                let c4 = upd_reader rid (\<lambda>r. r\<lparr>r_entered := 1\<rparr>) c3 in
                Some (kdata_page_data u ctrl rhead, upd_control i (\<lambda>_. c4) rs))"

record kdata_packet =
  pkt_dir :: int
  pkt_len :: int
  pkt_caplen :: int
  pkt_bytes :: "int \<times> kdata_off_t \<times> nat"

record kdata_decrypted =
  dcy_id :: int
  dcy_type :: int
  dcy_host :: "int \<times> kdata_off_t \<times> nat"
  dcy_bytes :: "int \<times> kdata_off_t \<times> nat"
  dcy_len :: int

record kdata_plain =
  pl_len :: int
  pl_bytes :: "int \<times> kdata_off_t \<times> nat"

text \<open>
  The three readers of a page. \<open>len\<close> is a 4 byte integer at offset 0; the packet header keeps
  \<open>dir\<close> at 4, the decrypted header keeps \<open>id\<close> at 8, \<open>type\<close> at 16 and the host name at 17.
\<close>

definition kdata_next_packet :: "kring_user \<Rightarrow> kdata_rings \<Rightarrow> (kdata_packet \<times> kdata_rings) option" where
  "kdata_next_packet u rs =
     (case kdata_next_generic u rs of
        None \<Rightarrow> None
      | Some ((i, off), rs') \<Rightarrow>
          let h = kr_page (rs' i) off; len = get_sint 4 0 h in
          Some (\<lparr>pkt_dir = get_sint 1 4 h, pkt_len = len,
                 pkt_caplen = (if len \<le> kdata_packet_max_data then len else kdata_packet_max_data),
                 pkt_bytes = (i, off, sizeof_kdata_packet_header)\<rparr>, rs'))"

definition kdata_next_decrypted :: "kring_user \<Rightarrow> kdata_rings \<Rightarrow> (kdata_decrypted \<times> kdata_rings) option" where
  "kdata_next_decrypted u rs =
     (case kdata_next_generic u rs of
        None \<Rightarrow> None
      | Some ((i, off), rs') \<Rightarrow>
          let h = kr_page (rs' i) off in
          Some (\<lparr>dcy_id = get_sint 8 8 h, dcy_type = get_uint 1 16 h, dcy_host = (i, off, 17),
                 dcy_bytes = (i, off, sizeof_kdata_decrypted_header), dcy_len = get_sint 4 0 h\<rparr>, rs'))"

definition kdata_next_plain :: "kring_user \<Rightarrow> kdata_rings \<Rightarrow> (kdata_plain \<times> kdata_rings) option" where
  "kdata_next_plain u rs =
     (case kdata_next_generic u rs of
        None \<Rightarrow> None
      | Some ((i, off), rs') \<Rightarrow>
          Some (\<lparr>pl_len = get_sint 4 0 (kr_page (rs' i) off),
                 pl_bytes = (i, off, sizeof_kdata_plain_header)\<rparr>, rs'))"

section \<open>The writer\<close>

text \<open>The loop that counts a skip for each reader whose bit is set.\<close>

definition register_skips :: "kdata_desc_t \<Rightarrow> kdata_control \<Rightarrow> kdata_control" where
  "register_skips desc c =
     fold (\<lambda>rid c. if desc AND KDATA_DSC_READER_BIT rid \<noteq> 0
                  then upd_reader rid (\<lambda>r. r\<lparr>r_skips := r_skips r + 1\<rparr>) c else c)
       [0..KDATA_READERS - 1] c"

text \<open>The body of the search from the label \<open>retry\<close> on.\<close>

partial_function (option) find_write_retry ::
    "kdata_control \<Rightarrow> kdata_off_t \<Rightarrow> (kdata_off_t \<times> kdata_control) option" where
  "find_write_retry c whead =
     (let desc = kdata_read_desc c whead in
      if desc AND KDATA_DSC_READER_OWNED \<noteq> 0 \<or> desc AND KDATA_DSC_SKIPPED \<noteq> 0 then
        let c1 = register_skips desc c;
            (before, c2) = kdata_write_back c1 whead desc (desc OR KDATA_DSC_SKIPPED) in
        if before \<noteq> desc then find_write_retry c2 whead
        else find_write_retry c2 (kdata_next whead)
      else if desc AND KDATA_DSC_WRITER_OWNED \<noteq> 0 then find_write_retry c (kdata_next whead)
      else
        let newval = desc OR KDATA_DSC_WRITER_OWNED;
            (before, c2) = kdata_write_back c whead desc newval in
        if before \<noteq> desc then find_write_retry c2 whead
        else Some (whead, c2))"

definition kdata_find_write_loc :: "kdata_control \<Rightarrow> (kdata_off_t \<times> kdata_control) option" where
  "kdata_find_write_loc c = find_write_retry c (kdata_next (head_whead (kd_head c)))"

definition kdata_write_FIRST ::
    "kring_user \<Rightarrow> kdata_rings \<Rightarrow> ((int \<times> kdata_off_t) \<times> kdata_rings) option" where
  "kdata_write_FIRST u rs =
     (case kdata_find_write_loc (kr_control (rs (ring_ix u 0))) of
        None \<Rightarrow> None
      | Some (whead, c) \<Rightarrow>
          Some (kdata_page_data u 0 whead, upd_control (ring_ix u 0) (\<lambda>_. set_wresv whead c) rs))"

definition kdata_writer_release :: "kdata_control \<Rightarrow> kdata_off_t \<Rightarrow> int \<times> kdata_control" where
  "kdata_writer_release c whead =
     (let desc = kdata_read_desc c whead;
          newval = desc AND NOT KDATA_DSC_WRITER_OWNED;
          (before, c') = kdata_write_back c whead desc newval in
      if before \<noteq> desc then (-1, c') else (0, c'))"

definition kdata_write_SECOND :: "kring_user \<Rightarrow> kdata_rings \<Rightarrow> kdata_rings" where
  "kdata_write_SECOND u rs =
     upd_control (ring_ix u 0)
       (\<lambda>c. let (_, c') = kdata_writer_release c (head_wresv (kd_head c)) in
            set_whead (head_wresv (kd_head c')) c') rs"

text \<open>
  Every write of a page has this shape: reserve a page, fill it in through \<open>f\<close>, publish it
  (\<open>kdata_write_single\<close> in the kernel, \<open>kdata_write_plain\<close> and \<open>kdata_write_decrypted\<close> in the
  library).
\<close>

definition kdata_write_with :: "kring_user \<Rightarrow> (page \<Rightarrow> page) \<Rightarrow> kdata_rings \<Rightarrow> kdata_rings option" where
  "kdata_write_with u f rs =
     (case kdata_write_FIRST u rs of
        None \<Rightarrow> None
      | Some ((i, off), rs1) \<Rightarrow>
          Some (kdata_write_SECOND u
            (rs1(i := (rs1 i)\<lparr>kr_page := (kr_page (rs1 i))(off := f (kr_page (rs1 i) off))\<rparr>))))"

text \<open>The two functions for several writers on one ring.\<close>

partial_function (option) kdata_update_wresv :: "kdata_control \<Rightarrow> kdata_control option" where
  "kdata_update_wresv c =
     (let wresv = head_wresv (kd_head c);
          highest = fold (\<lambda>w highest. if w_wresv (kd_writer c w) > highest
                                      then w_wresv (kd_writer c w) else highest)
                      [0..KDATA_WRITERS - 1] 0;
          (before, c') = kdata_wresv_write_back c wresv highest in
      if before \<noteq> wresv then kdata_update_wresv c' else Some c')"

text \<open>
  \<open>whead\<close> and \<open>wbar\<close> are initialised once, before the label \<open>retry\<close>: they are arguments of the
  loop.
\<close>

partial_function (option) update_whead_retry ::
    "kdata_control \<Rightarrow> kdata_off_t \<Rightarrow> kdata_off_t \<Rightarrow> kdata_control option" where
  "update_whead_retry c whead0 wbar0 =
     (let orig = head_whead (kd_head c);
          whead1 = fold (\<lambda>w whead. if w_whead (kd_writer c w) > whead
                                   then w_whead (kd_writer c w) else whead)
                     [0..KDATA_WRITERS - 1] whead0;
          wbar = fold (\<lambda>w wbar. if w_wbar (kd_writer c w) \<noteq> 0
                                then (if w_wbar (kd_writer c w) < wbar then w_wbar (kd_writer c w) else wbar)
                                else wbar)
                   [0..KDATA_WRITERS - 1] wbar0;
          whead = (if wbar < whead1 then wbar else whead1);
          (before, c') = kdata_whead_write_back c orig whead in
      if before \<noteq> orig then update_whead_retry c' whead wbar else Some c')"

definition kdata_update_whead :: "kdata_control \<Rightarrow> kdata_control option" where
  "kdata_update_whead c = update_whead_retry c 0 (NOT 0)"

section \<open>Entering a ring\<close>

text \<open>A ring as \<open>kring_ring_alloc\<close> finds it: control memory and pages are zeroed.\<close>

definition kdata_zeroed :: kdata_ring where
  "kdata_zeroed =
     \<lparr>kr_control =
        \<lparr>kd_head = \<lparr>head_whead = 0, head_wresv = 0, head_produced = 0\<rparr>,
         kd_writer = (\<lambda>_. \<lparr>w_whead = 0, w_wresv = 0, w_wbar = 0\<rparr>),
         kd_reader = (\<lambda>_. \<lparr>r_rhead = 0, r_skips = 0, r_entered = 0, r_consumed = 0\<rparr>),
         kd_desc = (\<lambda>_. 0)\<rparr>,
      kr_page = (\<lambda>_ _. 0)\<rparr>"

text \<open>\<open>kdata_init_control\<close> of \<open>src/kring/kdata.c\<close>.\<close>

definition kdata_init_control :: "kdata_control \<Rightarrow> kdata_control" where
  "kdata_init_control c = set_whead (kdata_prev 0) (set_wresv (kdata_prev 0) c)"

definition kdata_prep_enter :: "kdata_control \<Rightarrow> int \<Rightarrow> int \<times> kdata_control" where
  "kdata_prep_enter c reader_id =
     (0, upd_reader reader_id
           (\<lambda>r. r\<lparr>r_rhead := head_whead (kd_head c), r_skips := 0, r_entered := 0,
                  r_consumed := head_produced (kd_head c)\<rparr>) c)"

section \<open>Offsets\<close>


lemma kdata_next_less [simp]: "kdata_next off < 2048"
  by (auto simp: kdata_next_def Let_def not_le)

lemma unat_kdata_next: "off < 2048 \<Longrightarrow> unat (kdata_next off) = Suc (unat off) mod 2048"
proof -
  assume "off < 2048"
  then have lt: "unat off < 2048" by (simp add: word_less_nat_alt)
  then have plus: "unat (off + 1) = Suc (unat off)"
    by (subst unat_add_lem [THEN iffD1]) auto
  show ?thesis
  proof (cases "unat off = 2047")
    case True
    with plus show ?thesis by (simp add: kdata_next_def Let_def word_le_nat_alt)
  next
    case False
    with lt plus show ?thesis by (simp add: kdata_next_def Let_def word_le_nat_alt)
  qed
qed

lemma kdata_next_pow_less: "off < 2048 \<Longrightarrow> (kdata_next ^^ k) off < 2048"
  by (induction k) auto

lemma unat_kdata_next_pow:
  "off < 2048 \<Longrightarrow> unat ((kdata_next ^^ k) off) = (unat off + k) mod 2048"
proof (induction k)
  case 0
  then show ?case by (simp add: word_less_nat_alt)
next
  case (Suc k)
  then show ?case
    by (simp add: unat_kdata_next kdata_next_pow_less mod_Suc_eq)
qed

lemma kdata_prev_next: "off < 2048 \<Longrightarrow> kdata_prev (kdata_next off) = off"
proof (rule word_unat_eq_iff [THEN iffD2])
  assume off: "off < 2048"
  then have lt: "unat off < 2048" by (simp add: word_less_nat_alt)
  have nx: "unat (kdata_next off) = Suc (unat off) mod 2048" by (rule unat_kdata_next [OF off])
  show "unat (kdata_prev (kdata_next off)) = unat off"
  proof (cases "unat off = 2047")
    case True
    with nx have "kdata_next off = 0" by (simp add: unat_eq_zero)
    with True show ?thesis by (simp add: kdata_prev_def)
  next
    case False
    with lt nx have n: "unat (kdata_next off) = Suc (unat off)" by simp
    then have "kdata_next off \<noteq> 0" by auto
    with n show ?thesis by (simp add: kdata_prev_def unat_minus_one)
  qed
qed

lemma bit_reader_bit:
  "0 \<le> rid \<Longrightarrow> rid < 6 \<Longrightarrow> bit (KDATA_DSC_READER_BIT rid) n \<longleftrightarrow> n = nat (2 + rid)"
  by (simp add: KDATA_DSC_READER_BIT_def bit_simps) arith

lemma and_reader_bit:
  "0 \<le> rid \<Longrightarrow> rid < 6 \<Longrightarrow> d AND KDATA_DSC_READER_BIT rid = 0 \<longleftrightarrow> \<not> bit d (nat (2 + rid))"
  by (simp add: and_eq_0_iff bit_reader_bit)


definition page_free :: "kdata_desc_t \<Rightarrow> bool" where
  "page_free d = (d AND KDATA_DSC_READER_OWNED = 0 \<and> d AND KDATA_DSC_SKIPPED = 0
                  \<and> d AND KDATA_DSC_WRITER_OWNED = 0)"

definition page_held :: "kdata_desc_t \<Rightarrow> bool" where
  "page_held d = (d AND KDATA_DSC_READER_OWNED \<noteq> 0 \<or> d AND KDATA_DSC_SKIPPED \<noteq> 0)"

definition reader_has :: "int \<Rightarrow> kdata_desc_t \<Rightarrow> bool" where
  "reader_has rid d = (d AND KDATA_DSC_READER_BIT rid \<noteq> 0)"

definition set_desc :: "kdata_off_t \<Rightarrow> kdata_desc_t \<Rightarrow> kdata_control \<Rightarrow> kdata_control" where
  "set_desc off d c = c\<lparr>kd_desc := (kd_desc c)(off := d)\<rparr>"

definition passed :: "kdata_control \<Rightarrow> kdata_off_t \<Rightarrow> kdata_control" where
  "passed c off = (let d = kd_desc c off in
     if page_held d then set_desc off (d OR KDATA_DSC_SKIPPED) (register_skips d c) else c)"

definition scan :: "kdata_off_t \<Rightarrow> nat \<Rightarrow> kdata_off_t list" where
  "scan off k = map (\<lambda>j. (kdata_next ^^ j) off) [0..<k]"

lemma set_desc_simps [simp]:
  "kd_head (set_desc off d c) = kd_head c"
  "kd_writer (set_desc off d c) = kd_writer c"
  "kd_reader (set_desc off d c) = kd_reader c"
  "kd_desc (set_desc off d c) = (kd_desc c)(off := d)"
  by (simp_all add: set_desc_def)

lemma upd_reader_simps [simp]:
  "kd_head (upd_reader rid f c) = kd_head c"
  "kd_writer (upd_reader rid f c) = kd_writer c"
  "kd_reader (upd_reader rid f c) = (kd_reader c)(rid := f (kd_reader c rid))"
  "kd_desc (upd_reader rid f c) = kd_desc c"
  by (simp_all add: upd_reader_def)

lemma set_head_simps [simp]:
  "head_whead (kd_head (set_whead off c)) = off"
  "head_wresv (kd_head (set_whead off c)) = head_wresv (kd_head c)"
  "head_produced (kd_head (set_whead off c)) = head_produced (kd_head c)"
  "kd_writer (set_whead off c) = kd_writer c"
  "kd_reader (set_whead off c) = kd_reader c"
  "kd_desc (set_whead off c) = kd_desc c"
  "head_whead (kd_head (set_wresv off c)) = head_whead (kd_head c)"
  "head_wresv (kd_head (set_wresv off c)) = off"
  "head_produced (kd_head (set_wresv off c)) = head_produced (kd_head c)"
  "kd_writer (set_wresv off c) = kd_writer c"
  "kd_reader (set_wresv off c) = kd_reader c"
  "kd_desc (set_wresv off c) = kd_desc c"
  by (simp_all add: set_whead_def set_wresv_def)

lemma write_back_read [simp]:
  "kdata_write_back c off (kd_desc c off) v = (kd_desc c off, set_desc off v c)"
  by (simp add: kdata_write_back_def set_desc_def)

lemma fold_upd_reader:
  "distinct xs \<Longrightarrow>
   fold (\<lambda>rid c. if P rid then upd_reader rid f c else c) xs c =
   c\<lparr>kd_reader := \<lambda>rid. if rid \<in> set xs \<and> P rid then f (kd_reader c rid) else kd_reader c rid\<rparr>"
proof (induction xs arbitrary: c)
  case Nil
  show ?case by simp
next
  case (Cons x xs)
  then have "x \<notin> set xs" by simp
  with Cons show ?case
    by (auto simp: upd_reader_def fun_eq_iff intro!: kdata_control.equality)
qed

definition add_skip :: "nat \<Rightarrow> kdata_shared_reader \<Rightarrow> kdata_shared_reader" where
  "add_skip n r = r\<lparr>r_skips := r_skips r + of_nat n\<rparr>"

lemma add_skip_0 [simp]: "add_skip 0 r = r"
  by (simp add: add_skip_def)

lemma add_skip_add [simp]: "add_skip m (add_skip n r) = add_skip (m + n) r"
  by (simp add: add_skip_def ac_simps)

lemma add_skip_simps [simp]:
  "r_rhead (add_skip n r) = r_rhead r" "r_entered (add_skip n r) = r_entered r"
  "r_consumed (add_skip n r) = r_consumed r" "r_skips (add_skip n r) = r_skips r + of_nat n"
  by (simp_all add: add_skip_def)

lemma register_skips_eq:
  "register_skips d c =
   c\<lparr>kd_reader := \<lambda>rid. if rid \<in> {0..<6} \<and> reader_has rid d
        then add_skip 1 (kd_reader c rid) else kd_reader c rid\<rparr>"
proof -
  have s: "set [0..KDATA_READERS - 1] = {0..<6}" by auto
  show ?thesis
    unfolding register_skips_def
    by (subst fold_upd_reader)
       (simp_all only: s reader_has_def add_skip_def of_nat_1 distinct_upto)
qed

lemma advance_rhead_unfold:
  "kdata_advance_rhead c rid rhead =
     (if kd_desc c (kdata_next rhead) AND KDATA_DSC_WRITER_OWNED = 0
      then Some (kdata_next rhead,
                 set_desc (kdata_next rhead) (kd_desc c (kdata_next rhead) OR KDATA_DSC_READER_BIT rid) c)
      else kdata_advance_rhead c rid (kdata_next rhead))"
  by (subst kdata_advance_rhead.simps) (simp add: kdata_read_desc_def Let_def)

lemma reader_release_eq:
  "kdata_reader_release rid c prev =
     Some (upd_reader 0 (\<lambda>r. r\<lparr>r_consumed := r_consumed r + 1\<rparr>)
       (set_desc prev (reader_release_val rid (kd_desc c prev)) c))"
  by (subst kdata_reader_release.simps) (simp add: kdata_read_desc_def Let_def)

lemma find_write_body:
  "(let desc = kdata_read_desc c off in
      if desc AND KDATA_DSC_READER_OWNED \<noteq> 0 \<or> desc AND KDATA_DSC_SKIPPED \<noteq> 0 then
        let c1 = register_skips desc c;
            (before, c2) = kdata_write_back c1 off desc (desc OR KDATA_DSC_SKIPPED) in
        if before \<noteq> desc then f c2 off
        else f c2 (kdata_next off)
      else if desc AND KDATA_DSC_WRITER_OWNED \<noteq> 0 then f c (kdata_next off)
      else
        let newval = desc OR KDATA_DSC_WRITER_OWNED;
            (before, c2) = kdata_write_back c off desc newval in
        if before \<noteq> desc then f c2 off
        else Some (off, c2)) =
   (if page_free (kd_desc c off)
      then Some (off, set_desc off (kd_desc c off OR KDATA_DSC_WRITER_OWNED) c)
      else f (passed c off) (kdata_next off))"
proof -
  have [simp]: "kdata_write_back (register_skips (kd_desc c off) c) off (kd_desc c off) v =
      (kd_desc c off, set_desc off v (register_skips (kd_desc c off) c))" for v
    by (simp add: kdata_write_back_def set_desc_def register_skips_eq)
  show ?thesis
    by (auto simp: kdata_read_desc_def Let_def page_free_def page_held_def passed_def)
qed

lemma find_write_retry_unfold:
  "find_write_retry c off =
     (if page_free (kd_desc c off)
      then Some (off, set_desc off (kd_desc c off OR KDATA_DSC_WRITER_OWNED) c)
      else find_write_retry (passed c off) (kdata_next off))"
  by (subst find_write_retry.simps) (rule find_write_body)

lemma page_free_or_skip: "page_held d \<Longrightarrow> \<not> page_free (d OR KDATA_DSC_SKIPPED)"
  by (simp add: page_free_def and_2 bit_or_iff bit_simps)

lemma page_held_not_free: "page_held d \<Longrightarrow> \<not> page_free d"
  by (auto simp: page_free_def page_held_def)

lemma passed_simps [simp]:
  "kd_head (passed c off) = kd_head c" "kd_writer (passed c off) = kd_writer c"
  "kd_desc (passed c off) = (kd_desc c)(off := if page_held (kd_desc c off)
      then kd_desc c off OR KDATA_DSC_SKIPPED else kd_desc c off)"
  "kd_reader (passed c off) rid = (if rid \<in> {0..<6} \<and> reader_has rid (kd_desc c off)
      \<and> page_held (kd_desc c off)
      then add_skip 1 (kd_reader c rid) else kd_reader c rid)"
  by (simp_all add: passed_def Let_def register_skips_eq)

lemma page_free_passed [simp]: "page_free (kd_desc (passed c off) x) = page_free (kd_desc c x)"
  using page_free_or_skip page_held_not_free by auto

lemma reader_has_held: "rid \<in> {0..<6} \<Longrightarrow> reader_has rid d \<Longrightarrow> page_held d"
  by (auto simp: reader_has_def page_held_def and_reader_bit and_252)

lemma scan_Suc: "scan off (Suc k) = off # scan (kdata_next off) k"
  by (simp add: scan_def map_upt_Suc funpow_swap1 del: upt_Suc)

lemma scan_0 [simp]: "scan off 0 = []"
  by (simp add: scan_def)

lemma find_write_retry_run:
  "(\<forall>x \<in> set (scan off k). \<not> page_free (kd_desc c x)) \<Longrightarrow>
   find_write_retry c off = find_write_retry (foldl passed c (scan off k)) ((kdata_next ^^ k) off)"
proof (induction k arbitrary: c off)
  case 0
  show ?case by simp
next
  case (Suc k)
  then have nf: "\<not> page_free (kd_desc c off)" by (simp add: scan_Suc)
  have IH: "find_write_retry (passed c off) (kdata_next off)
      = find_write_retry (foldl passed (passed c off) (scan (kdata_next off) k)) ((kdata_next ^^ k) (kdata_next off))"
    using Suc.prems by (intro Suc.IH) (auto simp: scan_Suc simp del: passed_simps)
  show ?case
    by (subst find_write_retry_unfold) (simp add: nf IH scan_Suc funpow_swap1)
qed

lemma distinct_scan: "off < 2048 \<Longrightarrow> k \<le> 2048 \<Longrightarrow> distinct (scan off k)"
proof -
  assume off: "off < 2048" and k: "k \<le> 2048"
  have "inj_on (\<lambda>j. (kdata_next ^^ j) off) {0..<k}"
  proof (rule inj_onI)
    fix i j assume ij: "i \<in> {0..<k}" "j \<in> {0..<k}"
      and eq: "(kdata_next ^^ i) off = (kdata_next ^^ j) off"
    then have "(unat off + i) mod 2048 = (unat off + j) mod 2048"
      using unat_kdata_next_pow [OF off] by metis
    with ij k show "i = j" by (intro mod_add_cancel [of "unat off" i 2048 j]) auto
  qed
  then show ?thesis by (simp add: scan_def distinct_map)
qed

lemma foldl_passed_head [simp]:
  "kd_head (foldl passed c offs) = kd_head c" "kd_writer (foldl passed c offs) = kd_writer c"
  by (induction offs arbitrary: c) simp_all

lemma foldl_passed_desc:
  "distinct offs \<Longrightarrow> kd_desc (foldl passed c offs) x =
     (if x \<in> set offs \<and> page_held (kd_desc c x) then kd_desc c x OR KDATA_DSC_SKIPPED else kd_desc c x)"
  by (induction offs arbitrary: c) auto

lemma foldl_passed_reader:
  "distinct offs \<Longrightarrow> kd_reader (foldl passed c offs) rid = (if rid \<in> {0..<6}
      then add_skip (length (filter (\<lambda>x. reader_has rid (kd_desc c x)) offs)) (kd_reader c rid)
      else kd_reader c rid)"
proof (induction offs arbitrary: c)
  case Nil
  show ?case by simp
next
  case (Cons a offs)
  then have a: "a \<notin> set offs" by simp
  have "filter (\<lambda>x. reader_has rid (kd_desc (passed c a) x)) offs
      = filter (\<lambda>x. reader_has rid (kd_desc c x)) offs"
    using a by (intro filter_cong) auto
  moreover have "kd_reader (foldl passed (passed c a) offs) rid = (if rid \<in> {0..<6}
      then add_skip (length (filter (\<lambda>x. reader_has rid (kd_desc (passed c a) x)) offs))
        (kd_reader (passed c a) rid)
      else kd_reader (passed c a) rid)"
    using Cons by (intro Cons.IH) simp
  ultimately show ?case
    using reader_has_held [of rid "kd_desc c a"] by auto
qed

lemma in_set_scan: "x \<in> set (scan off k) \<longleftrightarrow> (\<exists>j<k. x = (kdata_next ^^ j) off)"
  by (auto simp: scan_def)

lemma scan_all: "off < 2048 \<Longrightarrow> x \<in> set (scan off 2048) \<longleftrightarrow> x < 2048"
proof
  assume off: "off < 2048" and x: "x < 2048"
  have lt: "unat off < 2048" "unat x < 2048" using off x by (simp_all add: word_less_nat_alt)
  define j where "j = (unat x + (2048 - unat off)) mod 2048"
  have "(unat off + j) mod 2048 = unat x"
    using lt unfolding j_def mod_add_right_eq by simp
  then have "x = (kdata_next ^^ j) off"
    using unat_kdata_next_pow [OF off, of j] by (simp add: word_unat_eq_iff)
  moreover have "j < 2048" by (simp add: j_def)
  ultimately show "x \<in> set (scan off 2048)" by (auto simp: in_set_scan)
next
  assume "off < 2048" "x \<in> set (scan off 2048)"
  then show "x < 2048" by (auto simp: in_set_scan kdata_next_pow_less)
qed

lemma first_free:
  assumes "off < 2048" and "x < 2048" and "P x"
  shows "\<exists>k<2048. P ((kdata_next ^^ k) off) \<and> (\<forall>y \<in> set (scan off k). \<not> P y)"
proof -
  from assms obtain j where j: "j < 2048" "x = (kdata_next ^^ j) off"
    using scan_all [of off x] by (auto simp: in_set_scan)
  with assms have ex: "P ((kdata_next ^^ j) off)" by simp
  define k where "k = (LEAST k. P ((kdata_next ^^ k) off))"
  have "P ((kdata_next ^^ k) off)" unfolding k_def using ex by (rule LeastI)
  moreover have "k \<le> j" unfolding k_def using ex by (rule Least_le)
  moreover have "\<not> P ((kdata_next ^^ i) off)" if "i < k" for i
    using that unfolding k_def by (rule not_less_Least)
  ultimately show ?thesis using j by (intro exI [of _ k]) (auto simp: in_set_scan)
qed

lemma find_write_retry_some:
  assumes "find_write_retry c off = Some p" and "off < 2048"
  shows "fst p < 2048 \<and> page_free (kd_desc c (fst p))"
proof -
  have "off < 2048 \<longrightarrow> fst p < 2048 \<and> page_free (kd_desc c (fst p))"
  proof (rule find_write_retry.raw_induct [OF _ assms(1)], goal_cases)
    case (1 f c off p)
    note body = 1(2) [unfolded find_write_body]
    show ?case
    proof (cases "page_free (kd_desc c off)")
      case True
      with body show ?thesis by auto
    next
      case False
      with body have "f (passed c off) (kdata_next off) = Some p" by simp
      from 1(1) [OF this] show ?thesis by (simp del: passed_simps)
    qed
  qed
  with assms(2) show ?thesis by simp
qed

lemma kdata_find_write_loc_none:
  assumes "\<forall>off < 2048. \<not> page_free (kd_desc c off)"
  shows "kdata_find_write_loc c = None"
  using find_write_retry_some [of c "kdata_next (head_whead (kd_head c))"] assms
  by (cases "kdata_find_write_loc c") (auto simp: kdata_find_write_loc_def)

definition write_pos :: "kdata_control \<Rightarrow> nat \<Rightarrow> kdata_off_t" where
  "write_pos c k = (kdata_next ^^ k) (kdata_next (head_whead (kd_head c)))"

definition write_skips :: "kdata_control \<Rightarrow> nat \<Rightarrow> kdata_off_t list" where
  "write_skips c k = scan (kdata_next (head_whead (kd_head c))) k"

definition first_free_after :: "kdata_control \<Rightarrow> nat \<Rightarrow> bool" where
  "first_free_after c k = (page_free (kd_desc c (write_pos c k)) \<and>
     (\<forall>y \<in> set (write_skips c k). \<not> page_free (kd_desc c y)))"

lemma write_pos_less [simp]: "write_pos c k < 2048"
  by (simp add: write_pos_def kdata_next_pow_less)

lemma distinct_write_skips: "k \<le> 2048 \<Longrightarrow> distinct (write_skips c k)"
  by (simp add: write_skips_def distinct_scan)

lemma write_pos_notin: "first_free_after c k \<Longrightarrow> write_pos c k \<notin> set (write_skips c k)"
  by (auto simp: first_free_after_def)

lemma find_write_loc_first:
  assumes k: "first_free_after c k" "k < 2048"
  shows "kdata_find_write_loc c = Some (write_pos c k,
     set_desc (write_pos c k) (kd_desc c (write_pos c k) OR KDATA_DSC_WRITER_OWNED)
       (foldl passed c (write_skips c k)))"
proof -
  have d: "kd_desc (foldl passed c (write_skips c k)) (write_pos c k) = kd_desc c (write_pos c k)"
    using k by (simp add: foldl_passed_desc distinct_write_skips write_pos_notin)
  have "kdata_find_write_loc c = find_write_retry (foldl passed c (write_skips c k)) (write_pos c k)"
    unfolding kdata_find_write_loc_def write_pos_def write_skips_def
    using k by (intro find_write_retry_run) (simp add: first_free_after_def write_skips_def)
  with k show ?thesis
    by (subst (asm) find_write_retry_unfold) (simp add: d first_free_after_def)
qed

lemma first_free_ex:
  assumes "x < 2048" "page_free (kd_desc c x)"
  shows "\<exists>k<2048. first_free_after c k"
  using first_free [of "kdata_next (head_whead (kd_head c))" x "\<lambda>x. page_free (kd_desc c x)"] assms
  by (simp add: first_free_after_def write_pos_def write_skips_def)

end
