(* ===== verification/Kdata_Ring.thy ===== *)
theory Kdata_Ring
  imports Kdata
begin

text \<open>
  What the data ring of \<open>Kdata\<close> promises between operations: the invariant of the ownership bits,
  the page a write goes to, and the view of each reader as a queue of pages. \<open>A\<close> is the set of the
  readers that have entered the ring (\<open>kdata_prep_enter\<close>) and have not been released.
\<close>

section \<open>The invariant\<close>

definition reader_ok :: "int set \<Rightarrow> kdata_control \<Rightarrow> int \<Rightarrow> bool" where
  "reader_ok A c rid = (r_rhead (kd_reader c rid) < 2048 \<and>
     (\<forall>off < 2048. reader_has rid (kd_desc c off) \<longleftrightarrow>
        rid \<in> A \<and> off = r_rhead (kd_reader c rid) \<and> r_entered (kd_reader c rid) \<noteq> 0))"

definition kdata_inv :: "int set \<Rightarrow> kdata_control \<Rightarrow> bool" where
  "kdata_inv A c = (head_whead (kd_head c) < 2048 \<and>
     (\<forall>off < 2048. kd_desc c off AND KDATA_DSC_WRITER_OWNED = 0) \<and>
     (\<forall>off < 2048. kd_desc c off AND KDATA_DSC_SKIPPED \<noteq> 0 \<longrightarrow> kd_desc c off AND KDATA_DSC_READER_OWNED \<noteq> 0) \<and>
     (\<forall>rid \<in> {0..<6}. reader_ok A c rid))"

lemma reader_has_bit: "rid \<in> {0..<6} \<Longrightarrow> reader_has rid d \<longleftrightarrow> bit d (nat (2 + rid))"
  by (simp add: reader_has_def and_reader_bit)

lemma reader_owned_ex: "d AND KDATA_DSC_READER_OWNED \<noteq> 0 \<longleftrightarrow> (\<exists>rid \<in> {0..<6}. reader_has rid d)"
proof
  assume "d AND KDATA_DSC_READER_OWNED \<noteq> 0"
  then obtain n where n: "2 \<le> n" "n \<le> 7" "bit d n" by (auto simp: and_252)
  then have "int n - 2 \<in> {0..<6}" "nat (2 + (int n - 2)) = n" by auto
  with n show "\<exists>rid \<in> {0..<6}. reader_has rid d"
    by (metis reader_has_bit)
next
  assume "\<exists>rid \<in> {0..<6}. reader_has rid d"
  then obtain rid where r: "rid \<in> {0..<6}" "reader_has rid d" by blast
  then have "bit d (nat (2 + rid))" "2 \<le> nat (2 + rid)" "nat (2 + rid) \<le> 7"
    by (auto simp: reader_has_bit)
  then show "d AND KDATA_DSC_READER_OWNED \<noteq> 0" by (auto simp: and_252)
qed

lemma inv_free:
  assumes "kdata_inv A c" "off < 2048"
  shows "page_free (kd_desc c off) \<longleftrightarrow>
     (\<forall>rid \<in> {0..<6}. \<not> (rid \<in> A \<and> off = r_rhead (kd_reader c rid) \<and> r_entered (kd_reader c rid) \<noteq> 0))"
proof -
  have "page_free (kd_desc c off) \<longleftrightarrow> kd_desc c off AND KDATA_DSC_READER_OWNED = 0"
    using assms by (auto simp: kdata_inv_def page_free_def)
  also have "\<dots> \<longleftrightarrow> (\<forall>rid \<in> {0..<6}. \<not> reader_has rid (kd_desc c off))"
    using reader_owned_ex by blast
  finally show ?thesis using assms by (simp add: kdata_inv_def reader_ok_def)
qed

lemma length_scan [simp]: "length (scan off k) = k"
  by (simp add: scan_def)

lemma inv_held_few:
  assumes inv: "kdata_inv A c" and off: "off < 2048" and k: "k \<le> 2048"
    and nf: "\<forall>y \<in> set (scan off k). \<not> page_free (kd_desc c y)"
  shows "k \<le> 6"
proof -
  have sub: "set (scan off k) \<subseteq> (\<lambda>rid. r_rhead (kd_reader c rid)) ` {0..<6}"
  proof
    fix y assume y: "y \<in> set (scan off k)"
    then have "y < 2048" using off by (auto simp: in_set_scan kdata_next_pow_less)
    with nf y show "y \<in> (\<lambda>rid. r_rhead (kd_reader c rid)) ` {0..<6}"
      using inv_free [OF inv] by fastforce
  qed
  have "k = card (set (scan off k))"
    using distinct_scan [OF off k] by (simp add: distinct_card)
  also have "\<dots> \<le> card ((\<lambda>rid. r_rhead (kd_reader c rid)) ` {0..<6::int})"
    by (rule card_mono [OF _ sub]) simp
  also have "\<dots> \<le> card {0..<6::int}" by (rule card_image_le) simp
  finally show ?thesis by simp
qed

lemma inv_some_free:
  assumes "kdata_inv A c"
  shows "\<exists>x < 2048. page_free (kd_desc c x)"
proof (rule ccontr)
  assume "\<not> ?thesis"
  then have "\<forall>y \<in> set (scan 0 2048). \<not> page_free (kd_desc c y)"
    by (simp add: scan_all)
  from inv_held_few [OF assms _ _ this] show False by simp
qed

lemma first_free_few:
  assumes inv: "kdata_inv A c"
  obtains k where "k \<le> 6" "first_free_after c k"
proof -
  obtain k where k: "k < 2048" "first_free_after c k"
    using inv_some_free [OF inv] first_free_ex by blast
  then have "k \<le> 6"
    by (intro inv_held_few [OF inv, of "kdata_next (head_whead (kd_head c))" k])
       (simp_all add: first_free_after_def write_skips_def)
  with k that show thesis by blast
qed

text \<open>The control block after a complete write at \<open>k\<close> pages past the next one.\<close>

definition written :: "kdata_control \<Rightarrow> nat \<Rightarrow> kdata_control" where
  "written c k = set_whead (write_pos c k) (set_wresv (write_pos c k) (foldl passed c (write_skips c k)))"

lemma free_release: "page_free d \<Longrightarrow> (d OR KDATA_DSC_WRITER_OWNED) AND NOT KDATA_DSC_WRITER_OWNED = d"
  unfolding page_free_def
  by (rule bit_word_eqI) (auto simp: and_1 bit_simps intro: gr0I)

lemma set_desc_same: "kd_desc c off = d \<Longrightarrow> set_desc off d c = c"
  by (auto simp: set_desc_def)

lemma set_desc_twice [simp]: "set_desc off d (set_desc off d' c) = set_desc off d c"
  by (simp add: set_desc_def)

lemma set_desc_heads:
  "set_desc off d (set_wresv w c) = set_wresv w (set_desc off d c)"
  "set_desc off d (set_whead w c) = set_whead w (set_desc off d c)"
  by (simp_all add: set_desc_def set_wresv_def set_whead_def)

lemma upd_control_simps [simp]:
  "kr_control (upd_control i f rs j) = (if j = i then f (kr_control (rs i)) else kr_control (rs j))"
  "kr_page (upd_control i f rs j) = kr_page (rs j)"
  by (auto simp: upd_control_def)

lemma write_with_first:
  assumes k: "first_free_after (kr_control (rs (ring_ix u 0))) k" "k < 2048"
  shows "kdata_write_with u f rs =
    (let i = ring_ix u 0; c = kr_control (rs i); loc = write_pos c k in
     Some (rs(i := (rs i)\<lparr>kr_control := written c k,
             kr_page := (kr_page (rs i))(loc := f (kr_page (rs i) loc))\<rparr>)))"
proof -
  define i where "i = ring_ix u 0"
  define c where "c = kr_control (rs i)"
  define loc where "loc = write_pos c k"
  define c1 where "c1 = foldl passed c (write_skips c k)"
  have k': "first_free_after c k" using k by (simp add: c_def i_def)
  then have free: "page_free (kd_desc c loc)"
    by (simp add: first_free_after_def loc_def)
  have find: "kdata_find_write_loc c = Some (loc, set_desc loc (kd_desc c loc OR KDATA_DSC_WRITER_OWNED) c1)"
    unfolding loc_def c1_def by (rule find_write_loc_first [OF k' k(2)])
  have d: "kd_desc c1 loc = kd_desc c loc"
    using k(2) by (simp add: c1_def loc_def foldl_passed_desc distinct_write_skips write_pos_notin [OF k'])
  have pd: "kdata_page_data u 0 loc = (i, loc)"
    by (simp add: kdata_page_data_def i_def)
  show ?thesis
    unfolding kdata_write_with_def kdata_write_FIRST_def i_def [symmetric] c_def [symmetric] find
    by (simp add: pd kdata_write_SECOND_def i_def [symmetric] upd_control_def kdata_writer_release_def
        kdata_read_desc_def Let_def fun_eq_iff free_release [OF free, simplified] set_desc_heads
        set_desc_same d c_def [symmetric] loc_def [symmetric] written_def c1_def [symmetric])
qed

lemma written_simps [simp]:
  "head_whead (kd_head (written c k)) = write_pos c k"
  "head_wresv (kd_head (written c k)) = write_pos c k"
  "head_produced (kd_head (written c k)) = head_produced (kd_head c)"
  "kd_writer (written c k) = kd_writer c"
  by (simp_all add: written_def)

lemma written_desc:
  "k \<le> 2048 \<Longrightarrow> kd_desc (written c k) x =
     (if x \<in> set (write_skips c k) \<and> page_held (kd_desc c x)
      then kd_desc c x OR KDATA_DSC_SKIPPED else kd_desc c x)"
  by (simp add: written_def foldl_passed_desc distinct_write_skips)

lemma written_reader:
  "k \<le> 2048 \<Longrightarrow> kd_reader (written c k) rid = (if rid \<in> {0..<6}
      then add_skip (length (filter (\<lambda>x. reader_has rid (kd_desc c x)) (write_skips c k))) (kd_reader c rid)
      else kd_reader c rid)"
  by (simp add: written_def foldl_passed_reader distinct_write_skips)

lemma reader_has_or_skip: "rid \<in> {0..<6} \<Longrightarrow> reader_has rid (d OR KDATA_DSC_SKIPPED) = reader_has rid d"
proof -
  assume r: "rid \<in> {0..<6}"
  then have "nat (2 + rid) \<noteq> 1" by auto
  then have "\<not> bit (2::16 word) (nat (2 + rid))" by (auto simp: bit_simps)
  with r show ?thesis by (simp only: reader_has_bit bit_or_iff KDATA_DSC_SKIPPED_def simp_thms)
qed

lemma writer_owned_or_skip: "(d OR KDATA_DSC_SKIPPED) AND KDATA_DSC_WRITER_OWNED = d AND KDATA_DSC_WRITER_OWNED"
  by (rule bit_word_eqI) (auto simp: bit_simps)

lemma written_inv:
  assumes inv: "kdata_inv A c" and k: "k \<le> 2048"
  shows "kdata_inv A (written c k)"
proof -
  have has: "reader_has rid (kd_desc (written c k) x) = reader_has rid (kd_desc c x)"
    if "rid \<in> {0..<6}" for rid x
    using that reader_has_or_skip [OF that] by (simp add: written_desc [OF k])
  have own: "kd_desc (written c k) x AND KDATA_DSC_READER_OWNED \<noteq> 0 \<longleftrightarrow>
      kd_desc c x AND KDATA_DSC_READER_OWNED \<noteq> 0" for x
    using has by (simp only: reader_owned_ex) blast
  have wr: "kd_desc (written c k) x AND KDATA_DSC_WRITER_OWNED = kd_desc c x AND KDATA_DSC_WRITER_OWNED" for x
    using writer_owned_or_skip by (simp add: written_desc [OF k])
  have held: "page_held d \<longleftrightarrow> d AND KDATA_DSC_READER_OWNED \<noteq> 0"
    if "d AND KDATA_DSC_SKIPPED \<noteq> 0 \<longrightarrow> d AND KDATA_DSC_READER_OWNED \<noteq> 0" for d
    using that by (auto simp: page_held_def)
  have "reader_ok A (written c k) rid" if "rid \<in> {0..<6}" for rid
    using inv that has [OF that] by (simp add: kdata_inv_def reader_ok_def written_reader [OF k])
  moreover have "kd_desc (written c k) x AND KDATA_DSC_READER_OWNED \<noteq> 0"
    if "x < 2048" "kd_desc (written c k) x AND KDATA_DSC_SKIPPED \<noteq> 0" for x
  proof -
    from that(2) have "page_held (kd_desc c x)"
      unfolding written_desc [OF k] by (auto simp: page_held_def split: if_splits)
    then show ?thesis using inv that(1) held [of "kd_desc c x"] unfolding own kdata_inv_def by blast
  qed
  ultimately show ?thesis
    using inv wr unfolding kdata_inv_def by simp
qed

definition pend_count :: "kdata_control \<Rightarrow> int \<Rightarrow> nat" where
  "pend_count c rid = (unat (head_whead (kd_head c)) + (2048 - unat (r_rhead (kd_reader c rid)))) mod 2048"

definition kdata_pending :: "kdata_control \<Rightarrow> int \<Rightarrow> kdata_off_t list" where
  "kdata_pending c rid = scan (kdata_next (r_rhead (kd_reader c rid))) (pend_count c rid)"

lemma pend_count_next:
  assumes "head_whead (kd_head c) < 2048" "r_rhead (kd_reader c rid) < 2048"
    and "kdata_next (head_whead (kd_head c)) \<noteq> r_rhead (kd_reader c rid)"
  shows "(unat (kdata_next (head_whead (kd_head c))) + (2048 - unat (r_rhead (kd_reader c rid)))) mod 2048
     = Suc (pend_count c rid)"
proof -
  define w where "w = unat (head_whead (kd_head c))"
  define r where "r = unat (r_rhead (kd_reader c rid))"
  have lt: "w < 2048" "r < 2048" using assms by (simp_all add: w_def r_def word_less_nat_alt)
  have nx: "unat (kdata_next (head_whead (kd_head c))) = Suc w mod 2048"
    using assms by (simp add: w_def unat_kdata_next)
  with assms(3) have ne: "Suc w mod 2048 \<noteq> r" by (simp add: r_def word_unat_eq_iff)
  have "(w + (2048 - r)) mod 2048 \<noteq> 2047"
  proof
    assume "(w + (2048 - r)) mod 2048 = 2047"
    then have "Suc (w + (2048 - r)) mod 2048 = 0" by (simp add: mod_Suc)
    then obtain q where q: "Suc (w + (2048 - r)) = 2048 * q" by (auto elim: dvdE)
    then have "q = 1 \<or> q = 2" using lt by arith
    with q lt have "Suc w = r \<or> Suc w = 2048 \<and> r = 0" by auto
    with lt ne show False by auto
  qed
  then have "Suc ((w + (2048 - r)) mod 2048) mod 2048 = Suc ((w + (2048 - r)) mod 2048)"
    by (simp add: mod_Suc)
  then show ?thesis
    using mod_diff_step [OF lt] by (simp add: nx pend_count_def w_def [symmetric] r_def [symmetric])
qed

lemma whead_from_rhead:
  assumes "head_whead (kd_head c) < 2048" "r_rhead (kd_reader c rid) < 2048"
  shows "head_whead (kd_head c) = (kdata_next ^^ pend_count c rid) (r_rhead (kd_reader c rid))"
proof -
  define w where "w = unat (head_whead (kd_head c))"
  define r where "r = unat (r_rhead (kd_reader c rid))"
  have lt: "w < 2048" "r < 2048" using assms by (simp_all add: w_def r_def word_less_nat_alt)
  have "(r + (w + (2048 - r)) mod 2048) mod 2048 = w" using lt by (simp add: mod_add_right_eq)
  then show ?thesis
    using unat_kdata_next_pow [OF assms(2), of "pend_count c rid"]
    by (simp add: word_unat_eq_iff w_def r_def pend_count_def)
qed

lemma scan_snoc: "scan off (Suc k) = scan off k @ [(kdata_next ^^ k) off]"
  by (simp add: scan_def)

lemma write_pos_0 [simp]: "write_pos c 0 = kdata_next (head_whead (kd_head c))"
  by (simp add: write_pos_def)

lemma write_skips_0 [simp]: "write_skips c 0 = []"
  by (simp add: write_skips_def)

lemma pending_written:
  assumes inv: "kdata_inv A c" and rid: "rid \<in> {0..<6}"
    and room: "kdata_next (head_whead (kd_head c)) \<noteq> r_rhead (kd_reader c rid)"
  shows "kdata_pending (written c 0) rid = kdata_pending c rid @ [write_pos c 0]"
    and "write_pos c 0 \<notin> set (kdata_pending c rid)"
proof -
  have lt: "head_whead (kd_head c) < 2048" "r_rhead (kd_reader c rid) < 2048"
    using inv rid by (auto simp: kdata_inv_def reader_ok_def)
  have rd: "kd_reader (written c 0) rid = kd_reader c rid"
    by (simp add: written_reader)
  have n: "pend_count (written c 0) rid = Suc (pend_count c rid)"
    using pend_count_next [OF lt room] by (simp add: pend_count_def rd)
  have pos: "write_pos c 0 = (kdata_next ^^ pend_count c rid) (kdata_next (r_rhead (kd_reader c rid)))"
    using whead_from_rhead [OF lt] by (simp add: funpow_swap1)
  show eq: "kdata_pending (written c 0) rid = kdata_pending c rid @ [write_pos c 0]"
    unfolding kdata_pending_def n rd scan_snoc pos by simp
  have "distinct (kdata_pending (written c 0) rid)"
    unfolding kdata_pending_def by (rule distinct_scan) (simp_all add: pend_count_def less_imp_le)
  then show "write_pos c 0 \<notin> set (kdata_pending c rid)" by (simp add: eq)
qed

text \<open>The control block after a read.\<close>

definition taken :: "kdata_control \<Rightarrow> int \<Rightarrow> kdata_control" where
  "taken c rid =
     (let r = kd_reader c rid; prev = r_rhead r; off = kdata_next prev;
          c1 = upd_reader rid (\<lambda>r. r\<lparr>r_rhead := off\<rparr>) (set_desc off (kd_desc c off OR KDATA_DSC_READER_BIT rid) c);
          c2 = (if r_entered r \<noteq> 0
                then upd_reader 0 (\<lambda>r. r\<lparr>r_consumed := r_consumed r + 1\<rparr>)
                       (set_desc prev (reader_release_val rid (kd_desc c1 prev)) c1)
                else c1) in
      upd_reader rid (\<lambda>r. r\<lparr>r_entered := 1\<rparr>) c2)"

lemma next_generic_taken:
  assumes "kdata_select_ctrl u rs = ctrl" "0 \<le> ctrl" "i = ring_ix u ctrl" "rid = u_reader_id u"
    and own: "kd_desc (kr_control (rs i)) (kdata_next (r_rhead (kd_reader (kr_control (rs i)) rid)))
         AND KDATA_DSC_WRITER_OWNED = 0"
  shows "kdata_next_generic u rs =
     Some (kdata_page_data u ctrl (kdata_next (r_rhead (kd_reader (kr_control (rs i)) rid))),
           upd_control i (\<lambda>c. taken c rid) rs)"
proof -
  define c where "c = kr_control (rs i)"
  define off where "off = kdata_next (r_rhead (kd_reader c rid))"
  have adv: "kdata_advance_rhead c rid (r_rhead (kd_reader c rid)) =
      Some (off, set_desc off (kd_desc c off OR KDATA_DSC_READER_BIT rid) c)"
    using own by (subst advance_rhead_unfold) (simp add: off_def c_def)
  have "kdata_next_generic u rs = Some (kdata_page_data u ctrl off, upd_control i (\<lambda>_. taken c rid) rs)"
    using assms(1,2)
    unfolding kdata_next_generic_def assms(1) Let_def assms(3,4) [symmetric] c_def [symmetric] adv
      reader_release_eq
    by (simp add: taken_def off_def [symmetric] Let_def)
  then show ?thesis by (simp add: off_def c_def upd_control_def)
qed

lemma taken_simps [simp]:
  "kd_head (taken c rid) = kd_head c" "kd_writer (taken c rid) = kd_writer c"
  "r_rhead (kd_reader (taken c rid) r) = (if r = rid then kdata_next (r_rhead (kd_reader c r)) else r_rhead (kd_reader c r))"
  "r_entered (kd_reader (taken c rid) r) = (if r = rid then 1 else r_entered (kd_reader c r))"
  "r_skips (kd_reader (taken c rid) r) = r_skips (kd_reader c r)"
  by (simp_all add: taken_def Let_def)

lemma taken_desc:
  "kd_desc (taken c rid) x =
     (let r = kd_reader c rid; off = kdata_next (r_rhead r);
          d = (if x = off then kd_desc c x OR KDATA_DSC_READER_BIT rid else kd_desc c x) in
      if x = r_rhead r \<and> r_entered r \<noteq> 0 then reader_release_val rid d else d)"
  by (simp add: taken_def Let_def)

lemma kdata_next_neq: "off < 2048 \<Longrightarrow> kdata_next off \<noteq> off"
proof
  assume off: "off < 2048" and eq: "kdata_next off = off"
  have "Suc (unat off) mod 2048 = unat off" using unat_kdata_next [OF off] eq by simp
  moreover have "unat off < 2048" using off by (simp add: word_less_nat_alt)
  ultimately show False by (cases "unat off = 2047") auto
qed

lemma bit_reader_release:
  assumes r: "rid \<in> {0..<6}"
  shows "bit (reader_release_val rid d) n \<longleftrightarrow> n < 16 \<and> bit d n \<and> n \<noteq> nat (2 + rid) \<and>
     \<not> (n = 1 \<and> (\<forall>r \<in> {0..<6} - {rid}. \<not> reader_has r d))"
proof -
  define nv where "nv = d AND NOT (KDATA_DSC_READER_BIT rid)"
  have nv: "bit nv n \<longleftrightarrow> n < 16 \<and> bit d n \<and> n \<noteq> nat (2 + rid)" for n
    using r by (auto simp: nv_def bit_simps bit_reader_bit)
  have own: "nv AND KDATA_DSC_READER_OWNED = 0 \<longleftrightarrow> (\<forall>r \<in> {0..<6} - {rid}. \<not> reader_has r d)"
  proof -
    have "reader_has r' nv \<longleftrightarrow> reader_has r' d \<and> r' \<noteq> rid" if "r' \<in> {0..<6}" for r'
      using that r by (auto simp: reader_has_bit nv)
    then show ?thesis using reader_owned_ex [of nv] by blast
  qed
  have v: "reader_release_val rid d =
     (if d AND KDATA_DSC_SKIPPED \<noteq> 0 \<and> nv AND KDATA_DSC_READER_OWNED = 0
      then nv AND NOT KDATA_DSC_SKIPPED else nv)"
    by (simp add: reader_release_val_def nv_def Let_def)
  have skip: "bit (nv AND NOT KDATA_DSC_SKIPPED) n \<longleftrightarrow> bit nv n \<and> n \<noteq> 1"
    by (auto simp: bit_simps nv)
  show ?thesis
    unfolding v own by (auto simp: nv and_2 skip simp del: KDATA_DSC_SKIPPED_def) (auto simp: and_2)
qed

lemma reader_release_has:
  "rid \<in> {0..<6} \<Longrightarrow> r \<in> {0..<6} \<Longrightarrow>
   reader_has r (reader_release_val rid d) \<longleftrightarrow> reader_has r d \<and> r \<noteq> rid"
  by (auto simp: reader_has_bit bit_reader_release)

lemma reader_release_writer:
  "rid \<in> {0..<6} \<Longrightarrow> reader_release_val rid d AND KDATA_DSC_WRITER_OWNED = 0 \<longleftrightarrow> d AND KDATA_DSC_WRITER_OWNED = 0"
  by (auto simp: and_1 bit_reader_release)

lemma reader_release_skip:
  "rid \<in> {0..<6} \<Longrightarrow> reader_release_val rid d AND KDATA_DSC_SKIPPED \<noteq> 0 \<longleftrightarrow>
     d AND KDATA_DSC_SKIPPED \<noteq> 0 \<and> (\<exists>r \<in> {0..<6} - {rid}. reader_has r d)"
  by (auto simp: and_2 bit_reader_release)

lemma reader_take_has:
  "rid \<in> {0..<6} \<Longrightarrow> r \<in> {0..<6} \<Longrightarrow> reader_has r (d OR KDATA_DSC_READER_BIT rid) \<longleftrightarrow> reader_has r d \<or> r = rid"
  by (auto simp: reader_has_bit bit_or_iff bit_reader_bit)

lemma reader_take_low:
  assumes "rid \<in> {0..<6}"
  shows "(d OR KDATA_DSC_READER_BIT rid) AND KDATA_DSC_WRITER_OWNED = 0 \<longleftrightarrow> d AND KDATA_DSC_WRITER_OWNED = 0"
    and "(d OR KDATA_DSC_READER_BIT rid) AND KDATA_DSC_SKIPPED = 0 \<longleftrightarrow> d AND KDATA_DSC_SKIPPED = 0"
  using assms by (auto simp: and_1 and_2 bit_or_iff bit_reader_bit)

lemma taken_has:
  assumes inv: "kdata_inv A c" and rid: "rid \<in> {0..<6}" and act: "rid \<in> A" and r: "r \<in> {0..<6}" and x: "x < 2048"
  shows "reader_has r (kd_desc (taken c rid) x) \<longleftrightarrow>
     (if r = rid then x = kdata_next (r_rhead (kd_reader c rid)) else reader_has r (kd_desc c x))"
proof -
  have ok: "reader_ok A c rid" using inv rid by (simp add: kdata_inv_def)
  then have "r_rhead (kd_reader c rid) < 2048" by (simp add: reader_ok_def)
  note ne = kdata_next_neq [OF this]
  from ok have hd: "reader_has rid (kd_desc c x) \<longleftrightarrow>
      x = r_rhead (kd_reader c rid) \<and> r_entered (kd_reader c rid) \<noteq> 0"
    using x act by (simp add: reader_ok_def)
  show ?thesis
    using ne hd unfolding taken_desc Let_def
    by (cases "r = rid") (auto simp: reader_release_has [OF rid r] reader_take_has [OF rid r]
        reader_release_has [OF rid rid] reader_take_has [OF rid rid])
qed

lemma taken_inv:
  assumes inv: "kdata_inv A c" and rid: "rid \<in> {0..<6}" and act: "rid \<in> A"
  shows "kdata_inv A (taken c rid)"
proof -
  note has = taken_has [OF inv rid act]
  have wr: "kd_desc (taken c rid) x AND KDATA_DSC_WRITER_OWNED = 0" if "x < 2048" for x
    using inv that unfolding taken_desc Let_def kdata_inv_def
    by (simp only: reader_release_writer [OF rid] reader_take_low [OF rid] split: if_splits) simp
  have sk: "kd_desc (taken c rid) x AND KDATA_DSC_READER_OWNED \<noteq> 0"
    if x: "x < 2048" and s: "kd_desc (taken c rid) x AND KDATA_DSC_SKIPPED \<noteq> 0" for x
  proof -
    have "\<exists>r \<in> {0..<6}. reader_has r (kd_desc (taken c rid) x)"
    proof (cases "x = kdata_next (r_rhead (kd_reader c rid))")
      case True
      then show ?thesis using rid has [OF rid x] by auto
    next
      case False
      have "\<exists>r \<in> {0..<6} - {rid}. reader_has r (kd_desc c x)"
      proof (cases "x = r_rhead (kd_reader c rid) \<and> r_entered (kd_reader c rid) \<noteq> 0")
        case True
        with False s show ?thesis by (simp add: taken_desc reader_release_skip [OF rid, simplified])
      next
        case nheld: False
        with False s have "\<exists>r \<in> {0..<6}. reader_has r (kd_desc c x)"
          using inv x unfolding reader_owned_ex [symmetric] kdata_inv_def by (simp add: taken_desc)
        moreover have "\<not> reader_has rid (kd_desc c x)"
          using nheld inv rid x by (auto simp: kdata_inv_def reader_ok_def)
        ultimately show ?thesis by blast
      qed
      then show ?thesis using has [OF _ x] by auto
    qed
    then show ?thesis by (simp only: reader_owned_ex)
  qed
  have "reader_ok A (taken c rid) r" if r: "r \<in> {0..<6}" for r
    using inv r act has [OF r] by (auto simp: kdata_inv_def reader_ok_def)
  with wr sk inv show ?thesis unfolding kdata_inv_def by simp
qed

lemma pend_count_taken:
  assumes "r_rhead (kd_reader c rid) < 2048" "0 < pend_count c rid"
  shows "Suc (pend_count (taken c rid) rid) = pend_count c rid"
proof -
  define w where "w = unat (head_whead (kd_head c))"
  define r where "r = unat (r_rhead (kd_reader c rid))"
  define n where "n = (w + (2048 - Suc r mod 2048)) mod 2048"
  have lt: "r < 2048" using assms by (simp add: r_def word_less_nat_alt)
  have "Suc n mod 2048 = (w + (2048 - r)) mod 2048"
  proof (cases "Suc r = 2048")
    case True
    then have r: "r = 2047" by simp
    show ?thesis unfolding n_def r by (simp add: mod_Suc_eq)
  next
    case False
    then have "Suc (w + (2048 - Suc r mod 2048)) = w + (2048 - r)" using lt by simp
    then show ?thesis unfolding n_def mod_Suc_eq by (simp only:)
  qed
  moreover have "0 < (w + (2048 - r)) mod 2048"
    using assms(2) by (simp add: pend_count_def w_def r_def)
  ultimately have "Suc n = (w + (2048 - r)) mod 2048"
    by (cases "n = 2047") (simp_all add: n_def mod_Suc)
  then show ?thesis
    using unat_kdata_next [OF assms(1)] by (simp add: pend_count_def w_def r_def n_def)
qed

lemma pending_taken:
  assumes inv: "kdata_inv A c" and rid: "rid \<in> {0..<6}" and p: "kdata_pending c rid \<noteq> []"
  shows "kdata_pending c rid = kdata_next (r_rhead (kd_reader c rid)) # kdata_pending (taken c rid) rid"
proof -
  have lt: "r_rhead (kd_reader c rid) < 2048" using inv rid by (auto simp: kdata_inv_def reader_ok_def)
  have pos: "0 < pend_count c rid" using p by (cases "pend_count c rid") (auto simp: kdata_pending_def)
  have n: "pend_count c rid = Suc (pend_count (taken c rid) rid)"
    using pend_count_taken [OF lt pos] by simp
  show ?thesis
    unfolding kdata_pending_def n scan_Suc by simp
qed

lemma pending_taken_other: "r \<noteq> rid \<Longrightarrow> kdata_pending (taken c rid) r = kdata_pending c r"
  by (simp add: kdata_pending_def pend_count_def)

lemma avail_pending:
  assumes "kdata_inv A c" and "rid \<in> {0..<6}"
  shows "kdata_avail_impl c rid \<longleftrightarrow> kdata_pending c rid \<noteq> []"
proof -
  have lt: "head_whead (kd_head c) < 2048" "r_rhead (kd_reader c rid) < 2048"
    using assms by (auto simp: kdata_inv_def reader_ok_def)
  have "pend_count c rid = 0 \<longleftrightarrow> head_whead (kd_head c) = r_rhead (kd_reader c rid)"
  proof
    assume "pend_count c rid = 0"
    then show "head_whead (kd_head c) = r_rhead (kd_reader c rid)" using whead_from_rhead [OF lt] by simp
  next
    assume "head_whead (kd_head c) = r_rhead (kd_reader c rid)"
    moreover have "unat (r_rhead (kd_reader c rid)) < 2048" using lt by (simp add: word_less_nat_alt)
    ultimately show "pend_count c rid = 0" by (simp add: pend_count_def)
  qed
  moreover have "kdata_pending c rid \<noteq> [] \<longleftrightarrow> pend_count c rid \<noteq> 0"
    using length_scan by (metis kdata_pending_def length_0_conv)
  ultimately show ?thesis by (auto simp: kdata_avail_impl_def)
qed

section \<open>Readers come and go\<close>

lemma prep_enter_inv:
  assumes inv: "kdata_inv A c" and rid: "rid \<notin> A"
  shows "kdata_inv (insert rid A) (snd (kdata_prep_enter c rid))"
    and "kdata_pending (snd (kdata_prep_enter c rid)) rid = []"
proof -
  have wl: "unat (head_whead (kd_head c)) < 2048"
    using inv by (simp add: kdata_inv_def word_less_nat_alt)
  have "reader_ok (insert rid A) (snd (kdata_prep_enter c rid)) r" if "r \<in> {0..<6}" for r
    using inv rid that by (auto simp: kdata_inv_def reader_ok_def kdata_prep_enter_def)
  then show "kdata_inv (insert rid A) (snd (kdata_prep_enter c rid))"
    using inv by (auto simp: kdata_inv_def kdata_prep_enter_def)
  show "kdata_pending (snd (kdata_prep_enter c rid)) rid = []"
    using wl by (simp add: kdata_pending_def pend_count_def kdata_prep_enter_def)
qed

lemma released_inv:
  assumes inv: "kdata_inv A c" and rid: "rid \<in> {0..<6}" and act: "rid \<in> A"
    and c': "c' = (if r_entered (kd_reader c rid) \<noteq> 0
       then the (kdata_reader_release rid c (r_rhead (kd_reader c rid))) else c)"
  shows "kdata_inv (A - {rid}) c'"
proof -
  define prev where "prev = r_rhead (kd_reader c rid)"
  have prev: "prev < 2048" using inv rid by (auto simp: prev_def kdata_inv_def reader_ok_def)
  have d: "kd_desc c' x = (if x = prev \<and> r_entered (kd_reader c rid) \<noteq> 0
      then reader_release_val rid (kd_desc c x) else kd_desc c x)" for x
    by (simp add: c' prev_def reader_release_eq)
  have hd: "kd_head c' = kd_head c"
    by (simp add: c' reader_release_eq)
  have rd: "r_rhead (kd_reader c' r) = r_rhead (kd_reader c r)" "r_entered (kd_reader c' r) = r_entered (kd_reader c r)" for r
    by (simp_all add: c' reader_release_eq)
  have has: "reader_has r (kd_desc c' x) \<longleftrightarrow> reader_has r (kd_desc c x) \<and> r \<noteq> rid" if "r \<in> {0..<6}" "x < 2048" for r x
    using inv that act rid
    by (auto simp: d reader_release_has [OF rid that(1)] kdata_inv_def reader_ok_def prev_def)
  have "reader_ok (A - {rid}) c' r" if "r \<in> {0..<6}" for r
    using inv that has [OF that] by (auto simp: kdata_inv_def reader_ok_def rd)
  moreover have "kd_desc c' x AND KDATA_DSC_WRITER_OWNED = 0" if "x < 2048" for x
    using inv that reader_release_writer [OF rid] unfolding d kdata_inv_def by auto
  moreover have "kd_desc c' x AND KDATA_DSC_READER_OWNED \<noteq> 0"
    if x: "x < 2048" and s: "kd_desc c' x AND KDATA_DSC_SKIPPED \<noteq> 0" for x
  proof -
    have "\<exists>r \<in> {0..<6} - {rid}. reader_has r (kd_desc c x)"
    proof (cases "x = prev \<and> r_entered (kd_reader c rid) \<noteq> 0")
      case True
      with s show ?thesis by (simp add: d reader_release_skip [OF rid, simplified])
    next
      case False
      with s have "\<exists>r \<in> {0..<6}. reader_has r (kd_desc c x)"
        using inv x unfolding reader_owned_ex [symmetric] kdata_inv_def by (auto simp: d)
      moreover have "\<not> reader_has rid (kd_desc c x)"
        using False inv rid x by (auto simp: kdata_inv_def reader_ok_def prev_def)
      ultimately show ?thesis by blast
    qed
    then have "\<exists>r \<in> {0..<6}. reader_has r (kd_desc c' x)" using has [OF _ x] by blast
    then show ?thesis by (simp only: reader_owned_ex)
  qed
  ultimately show ?thesis using inv hd unfolding kdata_inv_def by simp
qed

end
