(* ===== verification/Kctrl.thy ===== *)
theory Kctrl
  imports Kring_Types
begin

text \<open>
  The control ring, \<open>src/kring/kctrl.h\<close>: 2048 pages linked by one \<open>next\<close> offset each. Writers take
  a page from the free list, fill it in and push it on a stack; the one reader reverses the stack
  into its list before it reads, and gives the page it read before back to the free list. A control
  ring set has one ring, so the state is one ring here.

  As in \<open>Kdata\<close> the functions run one operation without interference and keep the failure branch
  of each compare-and-swap; \<open>None\<close> means that the call does not return.
\<close>

section \<open>Constants and shared memory\<close>

type_synonym kctrl_off_t = u64

definition KCTRL_NPAGES :: kctrl_off_t where [simp]: "KCTRL_NPAGES = 2048"

definition KCTRL_INDEX :: "kctrl_off_t \<Rightarrow> kctrl_off_t" where
  "KCTRL_INDEX off = off AND 0x7ff"

definition KCTRL_NULL :: kctrl_off_t where [simp]: "KCTRL_NULL = KCTRL_NPAGES"

definition KCTRL_RING_ID_ALL :: int where [simp]: "KCTRL_RING_ID_ALL = -1"

definition KCTRL_NLEN :: nat where [simp]: "KCTRL_NLEN = 32"

definition KCTRL_WRITERS :: int where [simp]: "KCTRL_WRITERS = 6"

definition KCTRL_READERS :: int where [simp]: "KCTRL_READERS = 1"

record kctrl_shared_head =
  ch_head :: kctrl_off_t
  ch_tail :: kctrl_off_t
  ch_free :: kctrl_off_t
  ch_stack :: kctrl_off_t

record kctrl_control =
  kc_head :: kctrl_shared_head
  kc_wloc :: "int \<Rightarrow> kctrl_off_t"
  kc_next :: "kctrl_off_t \<Rightarrow> kctrl_off_t"

record kctrl_ring =
  kc_control :: kctrl_control
  kc_page :: "kctrl_off_t \<Rightarrow> page"

definition set_next :: "kctrl_off_t \<Rightarrow> kctrl_off_t \<Rightarrow> kctrl_control \<Rightarrow> kctrl_control" where
  "set_next off v c = c\<lparr>kc_next := (kc_next c)(KCTRL_INDEX off := v)\<rparr>"

definition set_free :: "kctrl_off_t \<Rightarrow> kctrl_control \<Rightarrow> kctrl_control" where
  "set_free off c = c\<lparr>kc_head := (kc_head c)\<lparr>ch_free := off\<rparr>\<rparr>"

definition set_stack :: "kctrl_off_t \<Rightarrow> kctrl_control \<Rightarrow> kctrl_control" where
  "set_stack off c = c\<lparr>kc_head := (kc_head c)\<lparr>ch_stack := off\<rparr>\<rparr>"

definition set_chead :: "kctrl_off_t \<Rightarrow> kctrl_control \<Rightarrow> kctrl_control" where
  "set_chead off c = c\<lparr>kc_head := (kc_head c)\<lparr>ch_head := off\<rparr>\<rparr>"

text \<open>The headers at the start of a page have the layout of the data ring.\<close>

definition sizeof_kctrl_packet_header :: nat where [simp]: "sizeof_kctrl_packet_header = 8"

definition sizeof_kctrl_decrypted_header :: nat where [simp]: "sizeof_kctrl_decrypted_header = 80"

definition sizeof_kctrl_plain_header :: nat where [simp]: "sizeof_kctrl_plain_header = 4"

definition kctrl_packet_max_data :: int where
  "kctrl_packet_max_data = int KRING_PAGE_SIZE - int sizeof_kctrl_packet_header"

definition kctrl_decrypted_max_data :: int where
  "kctrl_decrypted_max_data = int KRING_PAGE_SIZE - int sizeof_kctrl_decrypted_header"

definition kctrl_plain_max_data :: int where
  "kctrl_plain_max_data = int KRING_PAGE_SIZE - int sizeof_kctrl_plain_header"

section \<open>Operations\<close>

text \<open>The page of an offset, in the kernel through \<open>pd\<close> and in user space through \<open>data\<close>.\<close>

definition kctrl_page_data :: "kctrl_off_t \<Rightarrow> kctrl_off_t" where
  "kctrl_page_data off = KCTRL_INDEX off"

definition kctrl_avail_impl :: "kctrl_control \<Rightarrow> bool" where
  "kctrl_avail_impl c =
     (kc_next c (KCTRL_INDEX (ch_head (kc_head c))) \<noteq> KCTRL_NULL
      \<or> kc_next c (KCTRL_INDEX (ch_stack (kc_head c))) \<noteq> KCTRL_NULL)"

definition kctrl_avail :: "kctrl_ring \<Rightarrow> bool" where
  "kctrl_avail r = kctrl_avail_impl (kc_control r)"

definition cas_free :: "kctrl_control \<Rightarrow> kctrl_off_t \<Rightarrow> kctrl_off_t \<Rightarrow> kctrl_off_t \<times> kctrl_control" where
  "cas_free c oldval newval =
     (ch_free (kc_head c), if ch_free (kc_head c) = oldval then set_free newval c else c)"

definition cas_stack :: "kctrl_control \<Rightarrow> kctrl_off_t \<Rightarrow> kctrl_off_t \<Rightarrow> kctrl_off_t \<times> kctrl_control" where
  "cas_stack c oldval newval =
     (ch_stack (kc_head c), if ch_stack (kc_head c) = oldval then set_stack newval c else c)"

partial_function (option) kctrl_push_to_free_list ::
    "kctrl_control \<Rightarrow> kctrl_off_t \<Rightarrow> kctrl_control option" where
  "kctrl_push_to_free_list c head =
     (let free = ch_free (kc_head c);
          c1 = set_next head free c;
          (before, c2) = cas_free c1 free head in
      if before \<noteq> free then kctrl_push_to_free_list c2 head else Some c2)"

text \<open>The loop of \<open>kctrl_reverse_stack\<close>.\<close>

partial_function (option) reverse_stack_loop ::
    "kctrl_control \<Rightarrow> kctrl_off_t \<Rightarrow> kctrl_off_t \<Rightarrow> kctrl_control option" where
  "reverse_stack_loop c prev stack =
     (if stack \<noteq> KCTRL_NULL
      then let nxt = kc_next c (KCTRL_INDEX stack) in
           reverse_stack_loop (set_next stack prev c) stack nxt
      else Some c)"

definition kctrl_reverse_stack :: "kctrl_control \<Rightarrow> kctrl_control option" where
  "kctrl_reverse_stack c = reverse_stack_loop c KCTRL_NULL (ch_stack (kc_head c))"

definition kctrl_next_generic :: "kctrl_ring \<Rightarrow> (kctrl_off_t \<times> kctrl_ring) option" where
  "kctrl_next_generic r =
     (case kctrl_reverse_stack (kc_control r) of
        None \<Rightarrow> None
      | Some c1 \<Rightarrow>
          let head = ch_head (kc_head c1);
              c2 = set_chead (kc_next c1 (KCTRL_INDEX (ch_head (kc_head c1)))) c1 in
          case kctrl_push_to_free_list c2 head of
            None \<Rightarrow> None
          | Some c3 \<Rightarrow> Some (kctrl_page_data (ch_head (kc_head c3)), r\<lparr>kc_control := c3\<rparr>))"

text \<open>\<open>descriptor[free]\<close> is read without the index mask.\<close>

partial_function (option) kctrl_allocate ::
    "kctrl_control \<Rightarrow> int \<Rightarrow> (kctrl_off_t \<times> kctrl_control) option" where
  "kctrl_allocate c writer_id =
     (let free = ch_free (kc_head c) in
      if free = KCTRL_NULL then Some (KCTRL_NULL, c)
      else
        let nxt = kc_next c free;
            (before, c1) = cas_free c free nxt in
        if before \<noteq> free then kctrl_allocate c1 writer_id
        else
          let c2 = c1\<lparr>kc_wloc := (kc_wloc c1)(writer_id := free)\<rparr> in
          Some (free, set_next free KCTRL_NULL c2))"

text \<open>The inner option is the null pointer: no free page.\<close>

definition kctrl_write_FIRST ::
    "kring_user \<Rightarrow> kctrl_ring \<Rightarrow> (kctrl_off_t option \<times> kctrl_ring) option" where
  "kctrl_write_FIRST u r =
     (case kctrl_allocate (kc_control r) (u_writer_id u) of
        None \<Rightarrow> None
      | Some (free, c) \<Rightarrow>
          Some (if free = KCTRL_NULL then None else Some (kctrl_page_data free), r\<lparr>kc_control := c\<rparr>))"

partial_function (option) kctrl_push_new :: "kctrl_control \<Rightarrow> int \<Rightarrow> kctrl_control option" where
  "kctrl_push_new c writer_id =
     (let stack = ch_stack (kc_head c);
          c1 = set_next (kc_wloc c writer_id) stack c;
          (before, c2) = cas_stack c1 stack (kc_wloc c1 writer_id) in
      if before \<noteq> stack then kctrl_push_new c2 writer_id else Some c2)"

definition kctrl_write_SECOND :: "kring_user \<Rightarrow> kctrl_ring \<Rightarrow> kctrl_ring option" where
  "kctrl_write_SECOND u r =
     (case kctrl_push_new (kc_control r) (u_writer_id u) of
        None \<Rightarrow> None | Some c \<Rightarrow> Some (r\<lparr>kc_control := c\<rparr>))"

section \<open>Reading and writing messages\<close>

record kctrl_packet =
  cpkt_dir :: int
  cpkt_len :: int
  cpkt_caplen :: int
  cpkt_bytes :: "kctrl_off_t \<times> nat"

record kctrl_decrypted =
  cdcy_id :: int
  cdcy_type :: int
  cdcy_host :: "kctrl_off_t \<times> nat"
  cdcy_bytes :: "kctrl_off_t \<times> nat"
  cdcy_len :: int

record kctrl_plain =
  cpl_len :: int
  cpl_bytes :: "kctrl_off_t \<times> nat"

text \<open>
  The readers of \<open>src/kring/libctrl.c\<close> and \<open>src/kring/kctrl.c\<close>; the wake up of waiting writers
  that follows the read changes nothing in the ring.
\<close>

definition kctrl_next_packet :: "kctrl_ring \<Rightarrow> (kctrl_packet \<times> kctrl_ring) option" where
  "kctrl_next_packet r =
     (case kctrl_next_generic r of
        None \<Rightarrow> None
      | Some (off, r') \<Rightarrow>
          let h = kc_page r' off; len = get_sint 4 0 h in
          Some (\<lparr>cpkt_dir = get_sint 1 4 h, cpkt_len = len,
                 cpkt_caplen = (if len \<le> kctrl_packet_max_data then len else kctrl_packet_max_data),
                 cpkt_bytes = (off, sizeof_kctrl_packet_header)\<rparr>, r'))"

definition kctrl_next_decrypted :: "kctrl_ring \<Rightarrow> (kctrl_decrypted \<times> kctrl_ring) option" where
  "kctrl_next_decrypted r =
     (case kctrl_next_generic r of
        None \<Rightarrow> None
      | Some (off, r') \<Rightarrow>
          let h = kc_page r' off in
          Some (\<lparr>cdcy_id = get_sint 8 8 h, cdcy_type = get_uint 1 16 h, cdcy_host = (off, 17),
                 cdcy_bytes = (off, sizeof_kctrl_decrypted_header), cdcy_len = get_sint 4 0 h\<rparr>, r'))"

definition kctrl_next_plain :: "kctrl_ring \<Rightarrow> (kctrl_plain \<times> kctrl_ring) option" where
  "kctrl_next_plain r =
     (case kctrl_next_generic r of
        None \<Rightarrow> None
      | Some (off, r') \<Rightarrow>
          Some (\<lparr>cpl_len = get_sint 4 0 (kc_page r' off),
                 cpl_bytes = (off, sizeof_kctrl_plain_header)\<rparr>, r'))"

definition kctrl_knext_plain :: "kctrl_ring \<Rightarrow> (kctrl_plain \<times> kctrl_ring) option" where
  "kctrl_knext_plain r =
     (case kctrl_next_generic r of
        None \<Rightarrow> None
      | Some (off, r') \<Rightarrow>
          Some (\<lparr>cpl_len = get_sint 4 0 (kc_page r' off),
                 cpl_bytes = (off, sizeof_kctrl_plain_header)\<rparr>, r'))"

text \<open>
  A write: \<open>kctrl_write_FIRST\<close> is tried again after each \<open>recv\<close> until a page is free. While the
  writer sleeps only the others can free one, so without interference the loop runs forever when
  the free list is empty.
\<close>

partial_function (option) write_plain_page ::
    "kring_user \<Rightarrow> kctrl_ring \<Rightarrow> (kctrl_off_t \<times> kctrl_ring) option" where
  "write_plain_page u r =
     (case kctrl_write_FIRST u r of
        None \<Rightarrow> None
      | Some (h, r') \<Rightarrow>
          (case h of None \<Rightarrow> write_plain_page u r' | Some off \<Rightarrow> Some (off, r')))"

definition kctrl_write_plain ::
    "kring_user \<Rightarrow> u8 list \<Rightarrow> int \<Rightarrow> kctrl_ring \<Rightarrow> (int \<times> kctrl_ring) option" where
  "kctrl_write_plain u data len r =
     (let len = (if len > kctrl_plain_max_data then kctrl_plain_max_data else len) in
      case write_plain_page u r of
        None \<Rightarrow> None
      | Some (off, r1) \<Rightarrow>
          let pg = put_bytes sizeof_kctrl_plain_header (take (nat len) data)
                     (put_int 4 0 len (kc_page r1 off));
              r2 = r1\<lparr>kc_page := (kc_page r1)(off := pg)\<rparr> in
          case kctrl_write_SECOND u r2 of None \<Rightarrow> None | Some r3 \<Rightarrow> Some (0, r3))"

text \<open>The body of \<open>kctrl_write_decrypted\<close> is compiled out.\<close>

definition kctrl_write_decrypted :: "kctrl_ring \<Rightarrow> int \<times> kctrl_ring" where
  "kctrl_write_decrypted r = (0, r)"

section \<open>Initialisation\<close>

text \<open>A ring as \<open>kring_ring_alloc\<close> finds it: control memory and pages are zeroed.\<close>

definition kctrl_zeroed :: kctrl_ring where
  "kctrl_zeroed =
     \<lparr>kc_control = \<lparr>kc_head = \<lparr>ch_head = 0, ch_tail = 0, ch_free = 0, ch_stack = 0\<rparr>,
                     kc_wloc = (\<lambda>_. 0), kc_next = (\<lambda>_. 0)\<rparr>,
      kc_page = (\<lambda>_ _. 0)\<rparr>"

text \<open>The loop links pages 1 to 2046; the other links are set before and after it.\<close>

definition kctrl_init_control :: "kctrl_control \<Rightarrow> kctrl_control" where
  "kctrl_init_control c =
     (let c1 = c\<lparr>kc_head := (kc_head c)\<lparr>ch_head := 0, ch_tail := 0, ch_stack := 0\<rparr>,
                 kc_next := (kc_next c)(0 := KCTRL_NULL)\<rparr>;
          c2 = set_free 1 c1;
          c3 = c2\<lparr>kc_next := fold (\<lambda>i f. f(word_of_int i := word_of_int (i + 1)))
                               [1..uint KCTRL_NPAGES - 2] (kc_next c2)\<rparr> in
      c3\<lparr>kc_next := (kc_next c3)(KCTRL_NPAGES - 1 := KCTRL_NULL)\<rparr>)"

text \<open>What \<open>kctrl_wait\<close> waits for: a free page.\<close>

definition kctrl_wait_cond :: "kctrl_control \<Rightarrow> bool" where
  "kctrl_wait_cond c = (ch_free (kc_head c) \<noteq> KCTRL_NULL)"

end
