(* ===== verification/Fifo.thy ===== *)
theory Fifo
  imports Prelude
begin

text \<open>
  What a client of a ring relies on, whichever ring it is: a bounded first-in first-out queue of
  messages. The state of the ring stands for a queue through the relation \<open>rep\<close>. \<open>Kctrl_Queue\<close> and
  \<open>Kdata_Messages\<close> interpret the locale on the control ring and on the data ring.
\<close>

datatype 'm fifo_event = Send 'm | Recv

text \<open>A schedule of sends and receives; a client receives only when a message is available.\<close>

fun fifo_run :: "('s \<Rightarrow> bool) \<Rightarrow> ('m \<Rightarrow> 's \<Rightarrow> 's option) \<Rightarrow> ('s \<Rightarrow> ('m \<times> 's) option) \<Rightarrow>
    's \<Rightarrow> 'm fifo_event list \<Rightarrow> ('m list \<times> 's) option" where
  "fifo_run avail send recv s [] = Some ([], s)"
| "fifo_run avail send recv s (Send m # es) =
     (case send m s of None \<Rightarrow> None | Some s' \<Rightarrow> fifo_run avail send recv s' es)"
| "fifo_run avail send recv s (Recv # es) =
     (if avail s
      then (case recv s of
              None \<Rightarrow> None
            | Some (m, s') \<Rightarrow>
                (case fifo_run avail send recv s' es of
                   None \<Rightarrow> None | Some (ms, t) \<Rightarrow> Some (m # ms, t)))
      else fifo_run avail send recv s es)"

text \<open>The messages that a schedule sends.\<close>

fun fifo_sends :: "'m fifo_event list \<Rightarrow> 'm list" where
  "fifo_sends [] = []"
| "fifo_sends (Send m # es) = m # fifo_sends es"
| "fifo_sends (Recv # es) = fifo_sends es"

text \<open>A schedule never has more than \<open>cap\<close> messages waiting, starting from \<open>n\<close>.\<close>

fun fifo_fits :: "nat \<Rightarrow> nat \<Rightarrow> 'm fifo_event list \<Rightarrow> bool" where
  "fifo_fits cap n [] = True"
| "fifo_fits cap n (Send m # es) = (n < cap \<and> fifo_fits cap (Suc n) es)"
| "fifo_fits cap n (Recv # es) = fifo_fits cap (n - 1) es"

locale bounded_fifo =
  fixes rep :: "'s \<Rightarrow> 'm list \<Rightarrow> bool"
    and ok :: "'m \<Rightarrow> bool"
    and cap :: nat
    and avail :: "'s \<Rightarrow> bool"
    and send :: "'m \<Rightarrow> 's \<Rightarrow> 's option"
    and recv :: "'s \<Rightarrow> ('m \<times> 's) option"
  assumes send_rep: "rep s q \<Longrightarrow> ok m \<Longrightarrow> length q < cap \<Longrightarrow> \<exists>s'. send m s = Some s' \<and> rep s' (q @ [m])"
    and recv_rep: "rep s (m # q) \<Longrightarrow> \<exists>s'. recv s = Some (m, s') \<and> rep s' q"
    and avail_rep: "rep s q \<Longrightarrow> avail s \<longleftrightarrow> q \<noteq> []"
begin

text \<open>Nothing is lost, duplicated or reordered: what was queued, followed by what is sent, is what
  is received followed by what is still queued; and the schedule runs to its end.\<close>

lemma run_in_order:
  "rep s q \<Longrightarrow> \<forall>m \<in> set (fifo_sends es). ok m \<Longrightarrow> fifo_fits cap (length q) es \<Longrightarrow>
   \<exists>out t q'. fifo_run avail send recv s es = Some (out, t) \<and> rep t q' \<and> q @ fifo_sends es = out @ q'"
proof (induction es arbitrary: s q rule: fifo_sends.induct)
  case 1
  then show ?case by auto
next
  case (2 m es)
  then obtain s' where s': "send m s = Some s'" "rep s' (q @ [m])"
    using send_rep [of s q m] by auto
  with 2 have "\<exists>out t q'. fifo_run avail send recv s' es = Some (out, t) \<and> rep t q'
      \<and> (q @ [m]) @ fifo_sends es = out @ q'"
    by (intro "2.IH") auto
  with s' show ?case by auto
next
  case (3 es)
  show ?case
  proof (cases q)
    case Nil
    with 3 have "\<exists>out t q'. fifo_run avail send recv s es = Some (out, t) \<and> rep t q'
        \<and> [] @ fifo_sends es = out @ q'"
      by (intro "3.IH") auto
    with 3 Nil show ?thesis using avail_rep [of s q] by auto
  next
    case (Cons m q0)
    with 3 obtain s' where s': "recv s = Some (m, s')" "rep s' q0"
      using recv_rep [of s m q0] by auto
    with 3 Cons have "\<exists>out t q'. fifo_run avail send recv s' es = Some (out, t) \<and> rep t q'
        \<and> q0 @ fifo_sends es = out @ q'"
      by (intro "3.IH") auto
    with s' 3 Cons show ?thesis using avail_rep [of s q] by fastforce
  qed
qed

text \<open>Draining the queue yields what is in it; in particular what was sent before.\<close>

lemma drain: "rep s q \<Longrightarrow> \<exists>t. fifo_run avail send recv s (replicate (length q) Recv) = Some (q, t) \<and> rep t []"
proof (induction q arbitrary: s)
  case Nil
  then show ?case by simp
next
  case (Cons m q)
  then obtain s' where s': "recv s = Some (m, s')" "rep s' q" using recv_rep by blast
  with Cons.IH [OF s'(2)] Cons.prems show ?case
    using avail_rep [of s "m # q"] by auto
qed

lemma send_many:
  "rep s q \<Longrightarrow> \<forall>m \<in> set ms. ok m \<Longrightarrow> length q + length ms \<le> cap \<Longrightarrow>
   \<exists>t. fifo_run avail send recv s (map Send ms @ es) = fifo_run avail send recv t es \<and> rep t (q @ ms)"
proof (induction ms arbitrary: s q)
  case Nil
  then show ?case by auto
next
  case (Cons m ms)
  then obtain s' where s': "send m s = Some s'" "rep s' (q @ [m])"
    using send_rep [of s q m] by auto
  with Cons.IH [OF s'(2)] Cons.prems show ?case by auto
qed

lemma send_then_drain:
  assumes "rep s []" and "\<forall>m \<in> set ms. ok m" and "length ms \<le> cap"
  shows "\<exists>t. fifo_run avail send recv s (map Send ms @ replicate (length ms) Recv) = Some (ms, t) \<and> rep t []"
  using send_many [of s "[]" ms "replicate (length ms) Recv"] drain [of _ ms] assms by fastforce

end

end
