(* ===== verification/Kctrl_Queue.thy ===== *)
theory Kctrl_Queue
  imports Kctrl Fifo
begin

text \<open>
  The control ring of \<open>Kctrl\<close> as a queue. Between operations the pages are split over four lists:
  \<open>hs\<close> from the head (its first page was read already), \<open>ss\<close> on the stack above the last page of
  \<open>hs\<close>, \<open>ws\<close> the pages that writers are filling in, and \<open>fs\<close> the free list. The messages waiting
  are \<open>tl hs @ rev ss\<close>.
\<close>

section \<open>The lists of pages\<close>

definition kctrl_lists ::
    "kctrl_control \<Rightarrow> kctrl_off_t list \<Rightarrow> kctrl_off_t list \<Rightarrow> kctrl_off_t list \<Rightarrow> kctrl_off_t list \<Rightarrow> bool" where
  "kctrl_lists c hs ss ws fs =
     (hs \<noteq> [] \<and> path (kc_next c) (ch_head (kc_head c)) hs KCTRL_NULL
      \<and> path (kc_next c) (ch_stack (kc_head c)) ss (last hs)
      \<and> path (kc_next c) (ch_free (kc_head c)) fs KCTRL_NULL
      \<and> distinct (hs @ ss @ ws @ fs) \<and> set (hs @ ss @ ws @ fs) = {..<2048})"

lemma KCTRL_INDEX_less [simp]: "off < 2048 \<Longrightarrow> KCTRL_INDEX off = off"
proof -
  assume "off < 2048"
  then have "take_bit 11 off = off" 
    by (intro word_unat_eq_iff [THEN iffD2]) (simp add: take_bit_eq_mod unat_mod word_less_nat_alt)
  moreover have "off AND 0x7ff = take_bit 11 off" by (simp add: take_bit_eq_mask mask_eq_exp_minus_1)
  ultimately show ?thesis by (simp add: KCTRL_INDEX_def)
qed

lemma lists_less: "kctrl_lists c hs ss ws fs \<Longrightarrow> x \<in> set hs \<union> set ss \<union> set ws \<union> set fs \<Longrightarrow> x < 2048"
  by (auto simp: kctrl_lists_def)

lemma kc_set_simps [simp]:
  "kc_head (set_next off v c) = kc_head c" "kc_wloc (set_next off v c) = kc_wloc c"
  "kc_next (set_next off v c) = (kc_next c)(KCTRL_INDEX off := v)"
  "kc_next (set_free off c) = kc_next c" "kc_wloc (set_free off c) = kc_wloc c"
  "ch_free (kc_head (set_free off c)) = off" "ch_head (kc_head (set_free off c)) = ch_head (kc_head c)"
  "ch_stack (kc_head (set_free off c)) = ch_stack (kc_head c)"
  "kc_next (set_stack off c) = kc_next c" "kc_wloc (set_stack off c) = kc_wloc c"
  "ch_free (kc_head (set_stack off c)) = ch_free (kc_head c)"
  "ch_head (kc_head (set_stack off c)) = ch_head (kc_head c)" "ch_stack (kc_head (set_stack off c)) = off"
  "kc_next (set_chead off c) = kc_next c" "kc_wloc (set_chead off c) = kc_wloc c"
  "ch_free (kc_head (set_chead off c)) = ch_free (kc_head c)"
  "ch_head (kc_head (set_chead off c)) = off" "ch_stack (kc_head (set_chead off c)) = ch_stack (kc_head c)"
  by (simp_all add: set_next_def set_free_def set_stack_def set_chead_def)

lemma push_to_free_list_eq:
  "kctrl_push_to_free_list c head = Some (set_free head (set_next head (ch_free (kc_head c)) c))"
  by (subst kctrl_push_to_free_list.simps) (simp add: cas_free_def Let_def)

lemma allocate_eq:
  "kctrl_allocate c w =
     (let free = ch_free (kc_head c) in
      if free = KCTRL_NULL then Some (KCTRL_NULL, c)
      else Some (free, set_next free KCTRL_NULL
             ((set_free (kc_next c free) c)\<lparr>kc_wloc := (kc_wloc c)(w := free)\<rparr>)))"
  by (subst kctrl_allocate.simps) (simp add: cas_free_def Let_def)

lemma push_new_eq:
  "kctrl_push_new c w =
     Some (set_stack (kc_wloc c w) (set_next (kc_wloc c w) (ch_stack (kc_head c)) c))"
  by (subst kctrl_push_new.simps) (simp add: cas_stack_def Let_def)

lemma reverse_stack_loop_eq:
  "path (kc_next c) s xs KCTRL_NULL \<Longrightarrow> distinct xs \<Longrightarrow> \<forall>x \<in> set xs. x < 2048 \<Longrightarrow>
   reverse_stack_loop c p s = Some (c\<lparr>kc_next := rev_links (kc_next c) p xs\<rparr>)"
proof (induction xs arbitrary: c p s)
  case Nil
  then show ?case by (subst reverse_stack_loop.simps) simp
next
  case (Cons x xs)
  then have x: "s = x" "x < 2048" "x \<noteq> KCTRL_NULL" by auto
  have "reverse_stack_loop (set_next x p c) x (kc_next c x)
      = Some ((set_next x p c)\<lparr>kc_next := rev_links (kc_next (set_next x p c)) x xs\<rparr>)"
    using Cons.prems x by (intro Cons.IH) simp_all
  then show ?case
    using x by (subst reverse_stack_loop.simps) (simp add: Let_def set_next_def)
qed

lemma reverse_stack_lists:
  assumes inv: "kctrl_lists c hs ss ws fs"
  obtains c' where "kctrl_reverse_stack c = Some c'" "kctrl_lists c' (hs @ rev ss) [] ws fs"
    "kc_head c' = kc_head c" "kc_wloc c' = kc_wloc c"
proof -
  from inv have ne: "hs \<noteq> []" by (simp add: kctrl_lists_def)
  define l where "l = last hs"
  define hs0 where "hs0 = butlast hs"
  have hs: "hs = hs0 @ [l]" using ne by (simp add: l_def hs0_def)
  define f where "f = kc_next c"
  define g where "g = rev_links f KCTRL_NULL (ss @ [l])"
  define c' where "c' = c\<lparr>kc_next := g\<rparr>"
  from inv have pth: "path f (ch_head (kc_head c)) hs0 l" "f l = KCTRL_NULL"
      "path f (ch_stack (kc_head c)) ss l" "path f (ch_free (kc_head c)) fs KCTRL_NULL"
    by (auto simp: kctrl_lists_def hs f_def)
  from inv have d: "distinct (hs0 @ [l] @ ss @ ws @ fs)" by (simp add: kctrl_lists_def hs)
  have "kctrl_reverse_stack c = Some c'"
    unfolding kctrl_reverse_stack_def c'_def g_def f_def
    by (rule reverse_stack_loop_eq) (use pth d lists_less [OF inv] in \<open>auto simp: f_def hs\<close>)
  moreover have "kctrl_lists c' (hs @ rev ss) [] ws fs"
  proof -
    have g: "g y = f y" if "y \<notin> set ss" "y \<noteq> l" for y
      using that by (simp add: g_def rev_links_other)
    have "path g (ch_head (kc_head c)) hs0 l"
      using pth(1) d g by (subst path_cong [where g = f]) auto
    moreover have "path g l (l # rev ss) KCTRL_NULL"
      using path_rev_links [of "ss @ [l]" f KCTRL_NULL] d by (simp add: g_def)
    moreover have "path g (ch_free (kc_head c)) fs KCTRL_NULL"
      using pth(4) d g by (subst path_cong [where g = f]) auto
    moreover have "ch_stack (kc_head c) = last (hs @ rev ss)"
      using pth(3) by (cases ss) (auto simp: hs last_append)
    ultimately show ?thesis
      using inv by (auto simp: kctrl_lists_def c'_def hs)
  qed
  ultimately show thesis by (rule that) (simp_all add: c'_def)
qed

lemma offsets_eq: "{..<2048::u64} = word_of_nat ` {..<2048}"
proof (safe, goal_cases)
  case (1 x)
  then show ?case by (intro image_eqI [of _ _ "unat x"]) (simp_all add: word_less_nat_alt)
next
  case (2 _ n)
  then show ?case by (simp add: word_less_nat_alt unat_of_nat)
qed

lemma inj_offsets: "inj_on (word_of_nat :: nat \<Rightarrow> u64) {..<2048}"
  by (rule inj_on_inverseI [where g = unat]) (simp add: unat_of_nat)

lemma lists_count: "kctrl_lists c hs ss ws fs \<Longrightarrow> length hs + length ss + length ws + length fs = 2048"
proof -
  assume "kctrl_lists c hs ss ws fs"
  then have "distinct (hs @ ss @ ws @ fs)" "set (hs @ ss @ ws @ fs) = {..<2048}"
    by (simp_all add: kctrl_lists_def)
  then have "length (hs @ ss @ ws @ fs) = card {..<2048::u64}"
    by (metis distinct_card)
  also have "\<dots> = 2048" using inj_offsets by (simp add: offsets_eq card_image)
  finally show ?thesis by simp
qed

lemma allocate_lists:
  assumes inv: "kctrl_lists c hs ss ws fs"
  shows "fs = [] \<Longrightarrow> kctrl_allocate c w = Some (KCTRL_NULL, c)"
    and "fs = f # fs' \<Longrightarrow> \<exists>c'. kctrl_allocate c w = Some (f, c') \<and> kctrl_lists c' hs ss (f # ws) fs'
           \<and> kc_wloc c' = (kc_wloc c)(w := f) \<and> f < 2048"
proof -
  show "kctrl_allocate c w = Some (KCTRL_NULL, c)" if "fs = []"
    using inv that by (simp add: kctrl_lists_def allocate_eq Let_def)
  show "\<exists>c'. kctrl_allocate c w = Some (f, c') \<and> kctrl_lists c' hs ss (f # ws) fs'
           \<and> kc_wloc c' = (kc_wloc c)(w := f) \<and> f < 2048" if fs: "fs = f # fs'"
  proof -
    have f: "f < 2048" using lists_less [OF inv] fs by simp
    with inv fs have "ch_free (kc_head c) = f" "f \<noteq> KCTRL_NULL" by (auto simp: kctrl_lists_def)
    with inv fs f show ?thesis
      by (auto simp: kctrl_lists_def allocate_eq Let_def)
  qed
qed

lemma push_new_lists:
  assumes inv: "kctrl_lists c hs ss ws fs" and w: "kc_wloc c w \<in> set ws"
  obtains c' where "kctrl_push_new c w = Some c'"
    "kctrl_lists c' hs (kc_wloc c w # ss) (remove1 (kc_wloc c w) ws) fs"
    "kc_wloc c' = kc_wloc c"
proof -
  have "kc_wloc c w < 2048" using lists_less [OF inv] w by simp
  moreover have "kc_wloc c w \<notin> set hs" "kc_wloc c w \<notin> set ss" "kc_wloc c w \<notin> set fs"
    using inv w by (auto simp: kctrl_lists_def)
  ultimately show thesis
    using inv w by (intro that) (rule push_new_eq, auto simp: kctrl_lists_def)
qed

section \<open>Reading and initialisation\<close>

lemma next_generic_lists:
  assumes inv: "kctrl_lists (kc_control r) hs ss ws fs" and q: "tl hs @ rev ss = off # q"
  obtains r' where "kctrl_next_generic r = Some (off, r')"
    "kctrl_lists (kc_control r') (off # q) [] ws (hd hs # fs)" "kc_page r' = kc_page r"
    "kc_wloc (kc_control r') = kc_wloc (kc_control r)"
proof -
  obtain c1 where c1: "kctrl_reverse_stack (kc_control r) = Some c1"
      "kctrl_lists c1 (hs @ rev ss) [] ws fs" "kc_head c1 = kc_head (kc_control r)"
      "kc_wloc c1 = kc_wloc (kc_control r)"
    using reverse_stack_lists [OF inv] .
  define h where "h = hd hs"
  have hs: "hs @ rev ss = h # off # q"
    using q inv by (cases hs) (auto simp: kctrl_lists_def h_def)
  have less: "h < 2048" "off < 2048" using lists_less [OF c1(2)] by (auto simp: hs)
  define c3 where "c3 = set_free h (set_next h (ch_free (kc_head c1)) (set_chead off c1))"
  have head: "ch_head (kc_head c1) = h" "kc_next c1 h = off"
    using c1(2) by (auto simp: kctrl_lists_def hs)
  have "kctrl_next_generic r = Some (off, r\<lparr>kc_control := c3\<rparr>)"
    unfolding kctrl_next_generic_def c1(1)
    by (simp add: Let_def push_to_free_list_eq head less kctrl_page_data_def c3_def)
  moreover have "kctrl_lists c3 (off # q) [] ws (h # fs)"
    using c1(2) less unfolding kctrl_lists_def hs c3_def by auto
  ultimately show thesis
    by (rule that [of "r\<lparr>kc_control := c3\<rparr>", folded h_def, simplified]) (simp_all add: c3_def c1(4))
qed

lemma avail_lists:
  assumes inv: "kctrl_lists c hs ss ws fs"
  shows "kctrl_avail_impl c \<longleftrightarrow> tl hs @ rev ss \<noteq> []"
proof -
  from inv obtain h hs' where hs: "hs = h # hs'" by (cases hs) (auto simp: kctrl_lists_def)
  have less: "x < 2048" if "x \<in> set hs \<union> set ss" for x using lists_less [OF inv] that by blast
  have head: "ch_head (kc_head c) = h" "path (kc_next c) (kc_next c h) hs' KCTRL_NULL"
    using inv by (auto simp: kctrl_lists_def hs)
  have "kc_next c h \<noteq> KCTRL_NULL \<longleftrightarrow> hs' \<noteq> []"
    using head less [of "kc_next c h"] by (cases hs') (auto simp: hs)
  moreover have "kc_next c (KCTRL_INDEX (ch_stack (kc_head c))) \<noteq> KCTRL_NULL \<longleftrightarrow> ss \<noteq> []"
  proof (cases ss)
    case Nil
    then have "ch_stack (kc_head c) = last hs" using inv by (auto simp: kctrl_lists_def)
    moreover have "kc_next c (last hs) = KCTRL_NULL" "last hs < 2048"
      using inv path_last [of _ _ hs] less [of "last hs"] by (auto simp: kctrl_lists_def hs)
    ultimately show ?thesis using Nil by simp
  next
    case (Cons s ss')
    then have s: "ch_stack (kc_head c) = s" "path (kc_next c) (kc_next c s) ss' (last hs)"
      using inv by (auto simp: kctrl_lists_def)
    then have "kc_next c s < 2048"
      using less [of "kc_next c s"] less [of "last hs"] by (cases ss') (auto simp: Cons hs)
    with s less [of s] Cons show ?thesis by auto
  qed
  ultimately show ?thesis
    using less [of h] by (simp add: kctrl_avail_impl_def head hs)
qed

lemma fold_links:
  "fold (\<lambda>i f. f(word_of_int i := word_of_int (i + 1))) is f x =
     (if x \<in> word_of_int ` set is then x + (1 :: 'a::len word) else f x)"
  by (induction "is" arbitrary: f) (auto simp: image_iff)

lemma chain_offsets:
  assumes "0 < n" "n \<le> 2048" and "\<And>i. 1 \<le> i \<Longrightarrow> i < n \<Longrightarrow> f (word_of_nat i) = (word_of_nat (Suc i) :: u64)"
  obtains fs where "path f 1 fs (word_of_nat n)" "distinct (0 # fs)" "set (0 # fs) = word_of_nat ` {..<n}"
proof -
  define fs :: "u64 list" where "fs = map word_of_nat [1..<n]"
  have "path f (word_of_nat 1) (map word_of_nat [1..<n]) (word_of_nat n)"
    using assms by (intro path_upt) auto
  then have "path f 1 fs (word_of_nat n)" by (simp add: fs_def)
  moreover have fs: "0 # fs = map word_of_nat [0..<n]"
    using assms(1) by (simp add: fs_def upt_conv_Cons)
  moreover have "distinct (map (word_of_nat :: nat \<Rightarrow> u64) [0..<n])"
    using inj_on_subset [OF inj_offsets, of "{0..<n}"] assms(2)
    by (simp add: distinct_map lessThan_atLeast0)
  moreover have "set (map (word_of_nat :: nat \<Rightarrow> u64) [0..<n]) = word_of_nat ` {..<n}"
    by (simp add: lessThan_atLeast0)
  ultimately show thesis by (intro that [of fs]) simp_all
qed

lemma init_control_lists: "\<exists>fs. kctrl_lists (kctrl_init_control c) [0] [] [] fs"
proof -
  define f where "f = kc_next (kctrl_init_control c)"
  have f: "f x = (if x = 2047 then KCTRL_NULL else if x \<in> word_of_int ` {1..2046} then x + 1
      else if x = 0 then KCTRL_NULL else kc_next c x)" for x
    by (auto simp: f_def kctrl_init_control_def Let_def fold_links [simplified])
  have "f (word_of_nat i) = word_of_nat (Suc i)" if "1 \<le> i" "i < 2048" for i
  proof (cases "i = 2047")
    case True
    then show ?thesis by (simp add: f)
  next
    case False
    with that have "(word_of_nat i :: u64) \<in> word_of_int ` {1..2046}"
      by (intro image_eqI [of _ _ "int i"]) auto
    moreover have "(word_of_nat i :: u64) \<noteq> 2047"
      using False that by (simp add: word_unat_eq_iff unat_of_nat)
    ultimately show ?thesis by (simp add: f add.commute)
  qed
  then obtain fs where fs: "path f 1 fs (word_of_nat 2048)" "distinct (0 # fs)"
      "set (0 # fs) = word_of_nat ` {..<2048}"
    using chain_offsets [of 2048 f] by auto
  have "f 0 = KCTRL_NULL"
  proof -
    have "(0 :: u64) \<notin> word_of_int ` {1..2046}"
    proof
      assume "(0 :: u64) \<in> word_of_int ` {1..2046}"
      then obtain i :: int where i: "1 \<le> i" "i \<le> 2046" "word_of_int i = (0 :: u64)" by auto
      from i(1,2) have "uint (word_of_int i :: u64) = i" by (simp add: unsigned_of_int take_bit_int_eq_self)
      then show False unfolding i(3) using i(1) by simp
    qed
    then show ?thesis by (simp add: f)
  qed
  with fs have "kctrl_lists (kctrl_init_control c) [0] [] [] fs"
    by (auto simp: kctrl_lists_def f_def [symmetric] offsets_eq) (auto simp: kctrl_init_control_def Let_def)
  then show ?thesis ..
qed

section \<open>Messages\<close>

text \<open>The message in a page, and the reader and the writer as operations on messages.\<close>

definition plain_msg :: "page \<Rightarrow> u8 list" where
  "plain_msg pg = get_bytes 4 (nat (get_sint 4 0 pg)) pg"

definition kctrl_send :: "kring_user \<Rightarrow> u8 list \<Rightarrow> kctrl_ring \<Rightarrow> kctrl_ring option" where
  "kctrl_send u m r = map_option snd (kctrl_write_plain u m (int (length m)) r)"

definition kctrl_recv :: "kctrl_ring \<Rightarrow> (u8 list \<times> kctrl_ring) option" where
  "kctrl_recv r = map_option
     (\<lambda>(p, r'). (get_bytes (snd (cpl_bytes p)) (nat (cpl_len p)) (kc_page r' (fst (cpl_bytes p))), r'))
     (kctrl_next_plain r)"

definition kctrl_msg_ok :: "u8 list \<Rightarrow> bool" where
  "kctrl_msg_ok m = (length m \<le> 4092)"

definition kctrl_rep :: "kctrl_ring \<Rightarrow> u8 list list \<Rightarrow> bool" where
  "kctrl_rep r q = (\<exists>hs ss fs. kctrl_lists (kc_control r) hs ss [] fs
     \<and> q = map (\<lambda>off. plain_msg (kc_page r off)) (tl hs @ rev ss))"

lemma plain_msg_put:
  "length m \<le> 4092 \<Longrightarrow> plain_msg (put_bytes 4 m (put_int 4 0 (int (length m)) pg)) = m"
  by (simp add: plain_msg_def page_access)

lemma write_FIRST_lists:
  assumes "kctrl_lists (kc_control r) hs ss ws (f # fs)"
  shows "\<exists>c'. kctrl_write_FIRST u r = Some (Some f, r\<lparr>kc_control := c'\<rparr>)
           \<and> kctrl_lists c' hs ss (f # ws) fs \<and> kc_wloc c' = (kc_wloc (kc_control r))(u_writer_id u := f)"
  using allocate_lists(2) [OF assms refl, of "u_writer_id u"]
  by (auto simp: kctrl_write_FIRST_def kctrl_page_data_def)

lemma write_plain_page_lists:
  assumes inv: "kctrl_lists (kc_control r) hs ss ws fs" and fs: "fs = f # fs'"
  obtains c' where "write_plain_page u r = Some (f, r\<lparr>kc_control := c'\<rparr>)"
    "kctrl_lists c' hs ss (f # ws) fs'" "kc_wloc c' = (kc_wloc (kc_control r))(u_writer_id u := f)"
proof -
  obtain c' where c': "kctrl_write_FIRST u r = Some (Some f, r\<lparr>kc_control := c'\<rparr>)"
      "kctrl_lists c' hs ss (f # ws) fs'" "kc_wloc c' = (kc_wloc (kc_control r))(u_writer_id u := f)"
    using write_FIRST_lists [of r hs ss ws f fs' u] inv fs by blast
  then have "write_plain_page u r = Some (f, r\<lparr>kc_control := c'\<rparr>)"
    by (subst write_plain_page.simps) simp
  with c' that show thesis by blast
qed

lemma write_plain_lists:
  assumes inv: "kctrl_lists (kc_control r) hs ss ws (f # fs)" and len: "0 \<le> len"
  obtains r' where "kctrl_write_plain u data len r = Some (0, r')"
    "kctrl_lists (kc_control r') hs (f # ss) ws fs"
    "kc_page r' = (kc_page r)(f := put_bytes 4 (take (nat (min len kctrl_plain_max_data)) data)
        (put_int 4 0 (min len kctrl_plain_max_data) (kc_page r f)))"
proof -
  obtain c1 where c1: "write_plain_page u r = Some (f, r\<lparr>kc_control := c1\<rparr>)"
      "kctrl_lists c1 hs ss (f # ws) fs" "kc_wloc c1 = (kc_wloc (kc_control r))(u_writer_id u := f)"
    using write_plain_page_lists [OF inv refl] .
  then have w: "kc_wloc c1 (u_writer_id u) = f" by simp
  obtain c2 where c2: "kctrl_push_new c1 (u_writer_id u) = Some c2" "kctrl_lists c2 hs (f # ss) ws fs"
    using push_new_lists [OF c1(2), of "u_writer_id u"] by (auto simp: w)
  define pg where "pg = put_bytes 4 (take (nat (min len kctrl_plain_max_data)) data)
        (put_int 4 0 (min len kctrl_plain_max_data) (kc_page r f))"
  have m: "(if len > kctrl_plain_max_data then kctrl_plain_max_data else len) = min len kctrl_plain_max_data"
    by (simp add: min_def)
  have "kctrl_write_plain u data len r = Some (0, r\<lparr>kc_control := c2, kc_page := (kc_page r)(f := pg)\<rparr>)"
    unfolding kctrl_write_plain_def m by (simp add: c1(1) Let_def kctrl_write_SECOND_def c2(1) pg_def)
  then show thesis by (rule that) (simp_all add: c2(2) pg_def)
qed

lemma kctrl_send_rep:
  assumes rep: "kctrl_rep r q" and ok: "kctrl_msg_ok m" and room: "length q < 2047"
  shows "\<exists>r'. kctrl_send u m r = Some r' \<and> kctrl_rep r' (q @ [m])"
proof -
  obtain hs ss fs where l: "kctrl_lists (kc_control r) hs ss [] fs"
    and q: "q = map (\<lambda>off. plain_msg (kc_page r off)) (tl hs @ rev ss)"
    using rep by (auto simp: kctrl_rep_def)
  have "hs \<noteq> []" using l by (simp add: kctrl_lists_def)
  then have "0 < length fs"
    using lists_count [OF l] room by (cases hs) (auto simp: q)
  then obtain f fs' where fs: "fs = f # fs'" by (cases fs) auto
  have min: "min (int (length m)) kctrl_plain_max_data = int (length m)"
    using ok by (simp add: kctrl_msg_ok_def kctrl_plain_max_data_def)
  obtain r' where r': "kctrl_write_plain u m (int (length m)) r = Some (0, r')"
      "kctrl_lists (kc_control r') hs (f # ss) [] fs'"
      "kc_page r' = (kc_page r)(f := put_bytes 4 m (put_int 4 0 (int (length m)) (kc_page r f)))"
    using write_plain_lists [OF l [unfolded fs], of "int (length m)" u m] by (auto simp: min)
  have "f \<notin> set (tl hs @ rev ss)"
    using l by (cases hs) (auto simp: kctrl_lists_def fs)
  then have "q @ [m] = map (\<lambda>off. plain_msg (kc_page r' off)) (tl hs @ rev (f # ss))"
    using ok by (auto simp: q r'(3) plain_msg_put kctrl_msg_ok_def)
  with r'(2) have "kctrl_rep r' (q @ [m])" unfolding kctrl_rep_def by blast
  with r'(1) show ?thesis by (simp add: kctrl_send_def)
qed

lemma kctrl_recv_rep:
  assumes rep: "kctrl_rep r (m # q)"
  shows "\<exists>r'. kctrl_recv r = Some (m, r') \<and> kctrl_rep r' q"
proof -
  obtain hs ss fs where l: "kctrl_lists (kc_control r) hs ss [] fs"
    and q: "m # q = map (\<lambda>off. plain_msg (kc_page r off)) (tl hs @ rev ss)"
    using rep by (auto simp: kctrl_rep_def)
  then obtain off qs where offs: "tl hs @ rev ss = off # qs"
    by (cases "tl hs @ rev ss") auto
  obtain r' where r': "kctrl_next_generic r = Some (off, r')"
      "kctrl_lists (kc_control r') (off # qs) [] [] (hd hs # fs)" "kc_page r' = kc_page r"
    using next_generic_lists [OF l offs] .
  have "kctrl_recv r = Some (m, r')"
    using q offs by (simp add: kctrl_recv_def kctrl_next_plain_def r' plain_msg_def)
  moreover have "kctrl_rep r' q"
    unfolding kctrl_rep_def using q offs r'
    by (intro exI [of _ "off # qs"] exI [of _ "[]"] exI [of _ "hd hs # fs"]) simp
  ultimately show ?thesis by blast
qed

interpretation cq: bounded_fifo kctrl_rep kctrl_msg_ok 2047 kctrl_avail "kctrl_send u" kctrl_recv for u
proof (unfold_locales, goal_cases)
  case (1 s q m)
  then show ?case by (rule kctrl_send_rep)
next
  case (2 s m q)
  then show ?case by (rule kctrl_recv_rep)
next
  case (3 s q)
  then show ?case using avail_lists by (fastforce simp: kctrl_rep_def kctrl_avail_def)
qed

lemma kctrl_rep_init: "kctrl_rep (r\<lparr>kc_control := kctrl_init_control c\<rparr>) []"
  using init_control_lists [of c] unfolding kctrl_rep_def by fastforce

lemma write_plain_page_none:
  assumes "kctrl_lists (kc_control r) hs ss ws []"
  shows "write_plain_page u r = None"
proof (rule ccontr)
  assume "write_plain_page u r \<noteq> None"
  then obtain p where p: "write_plain_page u r = Some p" by blast
  have "ch_free (kc_head (kc_control r)) \<noteq> KCTRL_NULL"
  proof (rule write_plain_page.raw_induct [OF _ p], goal_cases)
    case (1 f u r p)
    show ?case
    proof
      assume free: "ch_free (kc_head (kc_control r)) = KCTRL_NULL"
      then have "kctrl_write_FIRST u r = Some (None, r)"
        by (simp add: kctrl_write_FIRST_def allocate_eq)
      with 1(2) have "f u r = Some p" by simp
      from 1(1) [OF this] free show False by simp
    qed
  qed
  with assms show False by (simp add: kctrl_lists_def)
qed

section \<open>Properties\<close>

text \<open>
  (C1) The control ring is a bounded FIFO queue. Whatever is queued, and for every schedule of
  \<open>kctrl_write_plain\<close> and \<open>kctrl_next_plain\<close> calls whose messages fit a page and that never has more
  than 2047 messages waiting, every call returns, and the messages read, followed by the ones still
  queued, are the ones queued before followed by the ones written: none is lost, duplicated,
  reordered or changed.
\<close>

theorem kctrl_in_order:
  assumes "kctrl_rep r q" and "\<forall>m \<in> set (fifo_sends es). kctrl_msg_ok m"
    and "fifo_fits 2047 (length q) es"
  shows "\<exists>out t q'. fifo_run kctrl_avail (kctrl_send u) kctrl_recv r es = Some (out, t)
           \<and> kctrl_rep t q' \<and> q @ fifo_sends es = out @ q'"
  using assms by (rule cq.run_in_order)

definition kctrl_fresh :: kctrl_ring where
  "kctrl_fresh = kctrl_zeroed\<lparr>kc_control := kctrl_init_control (kc_control kctrl_zeroed)\<rparr>"

lemma kctrl_rep_fresh: "kctrl_rep kctrl_fresh []"
  unfolding kctrl_fresh_def by (rule kctrl_rep_init)

lemma kctrl_in_order_witness:
  "\<exists>out t q'. fifo_run kctrl_avail (kctrl_send \<lparr>u_socket = 3, u_ring_id = 0, u_nrings = 1, u_writer_id = 2,
        u_reader_id = -1, u_mode = KRING_WRITE, u_krerr = 0, u_errno = 0\<rparr>) kctrl_recv
      kctrl_fresh [Send [1, 2], Send [3], Recv] = Some (out, t)
     \<and> kctrl_rep t q' \<and> [[1, 2], [3]] = out @ q'"
  using kctrl_in_order [OF kctrl_rep_fresh, of "[Send [1, 2], Send [3], Recv]"]
  by (simp add: kctrl_msg_ok_def)


lemma kctrl_fresh_lists: "\<exists>fs. kctrl_lists (kc_control kctrl_fresh) [0] [] [] (1 # fs)"
proof -
  obtain fs where fs: "kctrl_lists (kc_control kctrl_fresh) [0] [] [] fs"
    using init_control_lists by (auto simp: kctrl_fresh_def)
  have "ch_free (kc_head (kc_control kctrl_fresh)) = 1"
    by (simp add: kctrl_fresh_def kctrl_init_control_def Let_def)
  with fs have "\<exists>fs'. fs = 1 # fs'" by (cases fs) (auto simp: kctrl_lists_def)
  with fs show ?thesis by blast
qed


text \<open>
  A full control ring makes the writer wait: with no free page \<open>kctrl_write_FIRST\<close> returns the
  null pointer and changes nothing, and \<open>kctrl_write_plain\<close> does not return as long as nobody frees
  a page; with a free page it returns 0.
\<close>

lemma kctrl_write_waits:
  assumes "kctrl_lists (kc_control r) hs ss ws fs" and "0 \<le> len"
  shows "(fs = [] \<longleftrightarrow> kctrl_write_FIRST u r = Some (None, r))
     \<and> (fs = [] \<longleftrightarrow> kctrl_write_plain u data len r = None)
     \<and> (fs \<noteq> [] \<longleftrightarrow> (\<exists>r'. kctrl_write_plain u data len r = Some (0, r')))"
proof (cases fs)
  case Nil
  then show ?thesis
    using assms allocate_lists(1) [OF assms(1)] write_plain_page_none [of r hs ss ws u]
    by (simp add: kctrl_write_FIRST_def kctrl_write_plain_def Let_def)
next
  case (Cons f fs')
  then obtain r' where "kctrl_write_plain u data len r = Some (0, r')"
    using write_plain_lists [of r hs ss ws f fs' len u data] assms by blast
  moreover obtain c' where "kctrl_write_FIRST u r = Some (Some f, r\<lparr>kc_control := c'\<rparr>)"
    using write_FIRST_lists [of r hs ss ws f fs'] assms Cons by blast
  ultimately show ?thesis using Cons by simp
qed

lemma kctrl_write_waits_witness:
  "\<exists>r'. kctrl_write_plain \<lparr>u_socket = 3, u_ring_id = 0, u_nrings = 1, u_writer_id = 2,
        u_reader_id = -1, u_mode = KRING_WRITE, u_krerr = 0, u_errno = 0\<rparr> [7, 8] 2 kctrl_fresh = Some (0, r')"
proof -
  obtain fs where "kctrl_lists (kc_control kctrl_fresh) [0] [] [] (1 # fs)"
    using kctrl_fresh_lists by blast
  from kctrl_write_waits [OF this, of 2] show ?thesis by simp
qed

text \<open>
  \<open>kctrl_reverse_stack\<close> returns and turns the stack of new messages over onto the end of the
  reader's list, oldest first; the pages in flight and the free list are untouched.
\<close>

lemma kctrl_reverse_stack_ok:
  assumes "kctrl_lists c hs ss ws fs"
  shows "\<exists>c'. kctrl_reverse_stack c = Some c' \<and> kctrl_lists c' (hs @ rev ss) [] ws fs
           \<and> kc_head c' = kc_head c \<and> kc_wloc c' = kc_wloc c"
  using reverse_stack_lists [OF assms] by metis

lemma kctrl_reverse_stack_ok_witness: "\<exists>c'. kctrl_reverse_stack (kc_control kctrl_fresh) = Some c'"
  using kctrl_fresh_lists kctrl_reverse_stack_ok by blast

end
