(* ===== verification/Kring_Sets.thy ===== *)
theory Kring_Sets
  imports Kdata_Ring Kctrl_Queue
begin

text \<open>
  The ring sets of the kernel module and the sockets that user processes open on them:
  \<open>src/kring/attribute.c\<close>, \<open>src/kring/socket.c\<close> and the destructors of \<open>src/kring/kdata.c\<close> and
  \<open>src/kring/kctrl.c\<close>. The ring sets form a list that only grows at its end, so a pointer to a set
  is its position. A result \<open>None\<close> is a fault: a null pointer or an index outside of an array is
  used.
\<close>

section \<open>Ring sets\<close>

text \<open>The memory of a ring is laid out by the parameters of its set.\<close>

datatype ring_mem = Data_Mem kdata_ring | Ctrl_Mem kctrl_ring

record kring_ring =
  num_readers :: int
  num_writers :: int
  rg_reader :: "int \<Rightarrow> bool"
  rg_writer :: "int \<Rightarrow> bool"
  rg_mem :: ring_mem

text \<open>
  The parameters: sizes, and the four function pointers, which are those of the data ring or those
  of the control ring together.
\<close>

record kring_params =
  p_npages :: int
  p_readers :: int
  p_writers :: int
  p_funcs :: KRING_TYPE

definition kdata_params :: kring_params where
  "kdata_params = \<lparr>p_npages = uint KDATA_NPAGES, p_readers = KDATA_READERS, p_writers = KDATA_WRITERS,
                   p_funcs = KRING_DATA\<rparr>"

definition kctrl_params :: kring_params where
  "kctrl_params = \<lparr>p_npages = uint KCTRL_NPAGES, p_readers = KCTRL_READERS, p_writers = KCTRL_WRITERS,
                   p_funcs = KRING_CTRL\<rparr>"

record kring_ringset =
  rs_name :: string
  rs_ring :: "int \<Rightarrow> kring_ring"
  rs_nrings :: int
  rs_params :: kring_params

definition upd_ring :: "int \<Rightarrow> (kring_ring \<Rightarrow> kring_ring) \<Rightarrow> kring_ringset \<Rightarrow> kring_ringset" where
  "upd_ring i f r = r\<lparr>rs_ring := (rs_ring r)(i := f (rs_ring r i))\<rparr>"

definition EINVAL :: int where [simp]: "EINVAL = 22"

definition EPERM :: int where [simp]: "EPERM = 1"

definition ENOMEM :: int where [simp]: "ENOMEM = 12"

definition EFAULT :: int where [simp]: "EFAULT = 14"

definition ENOPROTOOPT :: int where [simp]: "ENOPROTOOPT = 92"

definition EPROTONOSUPPORT :: int where [simp]: "EPROTONOSUPPORT = 93"

definition ESOCKTNOSUPPORT :: int where [simp]: "ESOCKTNOSUPPORT = 94"

definition EINTR :: int where [simp]: "EINTR = 4"

definition ERESTARTSYS :: int where [simp]: "ERESTARTSYS = 512"

fun find_ring_from :: "nat \<Rightarrow> string \<Rightarrow> kring_ringset list \<Rightarrow> nat option" where
  "find_ring_from n name [] = None"
| "find_ring_from n name (r # rs) =
     (if cstr (rs_name r) = cstr name then Some n else find_ring_from (Suc n) name rs)"

definition kring_find_ring :: "string \<Rightarrow> kring_ringset list \<Rightarrow> nat option" where
  "kring_find_ring name head = find_ring_from 0 name head"

text \<open>A new ring: the counters, the zeroed memory, then \<open>init_control\<close> through the parameters.\<close>

definition kring_ring_alloc :: "kring_params \<Rightarrow> kring_ring" where
  "kring_ring_alloc params =
     \<lparr>num_readers = 0, num_writers = 0, rg_reader = (\<lambda>_. False), rg_writer = (\<lambda>_. False),
      rg_mem = (case p_funcs params of
          KRING_DATA \<Rightarrow> Data_Mem (kdata_zeroed\<lparr>kr_control := kdata_init_control (kr_control kdata_zeroed)\<rparr>)
        | KRING_CTRL \<Rightarrow> Ctrl_Mem (kctrl_zeroed\<lparr>kc_control := kctrl_init_control (kc_control kctrl_zeroed)\<rparr>))\<rparr>"

definition kring_ringset_alloc :: "kring_params \<Rightarrow> string \<Rightarrow> int \<Rightarrow> kring_ringset" where
  "kring_ringset_alloc params name nrings =
     \<lparr>rs_name = kring_copy_name name, rs_ring = (\<lambda>_. kring_ring_alloc params), rs_nrings = nrings,
      rs_params = params\<rparr>"

fun kring_add_ringset :: "kring_ringset list \<Rightarrow> kring_ringset \<Rightarrow> kring_ringset list" where
  "kring_add_ringset [] rset = [rset]"
| "kring_add_ringset (r # rs) rset = r # kring_add_ringset rs rset"

definition kring_add_data_store :: "string \<Rightarrow> int \<Rightarrow> kring_ringset list \<Rightarrow> int \<times> kring_ringset list" where
  "kring_add_data_store name rings_per_set head =
     (if rings_per_set < 1 \<or> rings_per_set > KDATA_MAX_RINGS_PER_SET then (- EINVAL, head)
      else (0, kring_add_ringset head (kring_ringset_alloc kdata_params name rings_per_set)))"

definition kring_add_cmd_store :: "string \<Rightarrow> kring_ringset list \<Rightarrow> int \<times> kring_ringset list" where
  "kring_add_cmd_store name head =
     (0, kring_add_ringset head (kring_ringset_alloc kctrl_params name 1))"

definition kring_del_store :: "string \<Rightarrow> kring_ringset list \<Rightarrow> int \<times> kring_ringset list" where
  "kring_del_store name head = (0, head)"

section \<open>Sockets\<close>

record kring_sock =
  krs_ringset :: "nat option"
  krs_ring_id :: int
  krs_mode :: KRING_MODE
  krs_writer_id :: int
  krs_reader_id :: int

text \<open>
  \<open>sk_alloc\<close> returns zeroed memory: the ring set pointer is null. The mode 0 is neither reading nor
  writing.
\<close>

definition krs_new :: kring_sock where
  "krs_new = \<lparr>krs_ringset = None, krs_ring_id = 0, krs_mode = KRING_MODE_OTHER 0, krs_writer_id = 0,
              krs_reader_id = 0\<rparr>"

definition SOCK_RAW :: int where [simp]: "SOCK_RAW = 3"

definition htons_ETH_P_ALL :: int where [simp]: "htons_ETH_P_ALL = 0x0300"

text \<open>\<open>capable\<close> and the success of \<open>sk_alloc\<close> come from the kernel.\<close>

definition kdata_sock_create :: "bool \<Rightarrow> bool \<Rightarrow> int \<Rightarrow> int \<Rightarrow> int + kring_sock" where
  "kdata_sock_create cap_net_admin sk_allocated type protocol =
     (if \<not> cap_net_admin then Inl (- EPERM)
      else if type \<noteq> SOCK_RAW then Inl (- ESOCKTNOSUPPORT)
      else if protocol \<noteq> htons_ETH_P_ALL then Inl (- EPROTONOSUPPORT)
      else if \<not> sk_allocated then Inl (- ENOMEM)
      else Inr krs_new)"

datatype KR_OPT = KR_OPT_WRITER_ID | KR_OPT_READER_ID | KR_OPT_RING_N | KR_OPT_OTHER int

definition SOL_PACKET :: int where [simp]: "SOL_PACKET = 263"

text \<open>
  \<open>user_len\<close> is what \<open>get_user\<close> reads, \<open>put_ok\<close> and \<open>copy_ok\<close> whether the two copies to user space
  succeed. The value of an unknown option is \<open>Inr None\<close>: \<open>val\<close> is copied out uninitialised.
\<close>

definition kring_getsockopt ::
    "kring_ringset list \<Rightarrow> kring_sock \<Rightarrow> int \<Rightarrow> KR_OPT \<Rightarrow> int option \<Rightarrow> bool \<Rightarrow> bool \<Rightarrow> (int + int option) option" where
  "kring_getsockopt head krs level optname user_len put_ok copy_ok =
     (if level \<noteq> SOL_PACKET then Some (Inl (- ENOPROTOOPT))
      else case user_len of
        None \<Rightarrow> Some (Inl (- EFAULT))
      | Some len \<Rightarrow>
          if len \<noteq> 4 then Some (Inl (- EINVAL))
          else
            let val = (case optname of
                  KR_OPT_RING_N \<Rightarrow> (case krs_ringset krs of None \<Rightarrow> None | Some r \<Rightarrow> Some (Some (rs_nrings (head ! r))))
                | KR_OPT_READER_ID \<Rightarrow> Some (Some (krs_reader_id krs))
                | KR_OPT_WRITER_ID \<Rightarrow> Some (Some (krs_writer_id krs))
                | KR_OPT_OTHER _ \<Rightarrow> Some None) in
            case val of
              None \<Rightarrow> None
            | Some v \<Rightarrow> if \<not> put_ok then Some (Inl (- EFAULT))
                        else if \<not> copy_ok then Some (Inl (- EFAULT))
                        else Some (Inr v))"

definition KRING_PGOFF_CTRL :: u64 where [simp]: "KRING_PGOFF_CTRL = 0"

definition KRING_PGOFF_DATA :: u64 where [simp]: "KRING_PGOFF_DATA = 1"

definition KRING_PGOFF_ID_SHIFT :: nat where [simp]: "KRING_PGOFF_ID_SHIFT = 0"

definition KRING_PGOFF_ID_MASK :: u64 where [simp]: "KRING_PGOFF_ID_MASK = 0x1f"

definition KRING_PGOFF_REGION_SHIFT :: nat where [simp]: "KRING_PGOFF_REGION_SHIFT = 5"

definition KRING_PGOFF_REGION_MASK :: u64 where [simp]: "KRING_PGOFF_REGION_MASK = 0x20"

definition decon_pgoff :: "u64 \<Rightarrow> u64 \<times> u64" where
  "decon_pgoff pgoff =
     (drop_bit KRING_PGOFF_ID_SHIFT (pgoff AND KRING_PGOFF_ID_MASK),
      drop_bit KRING_PGOFF_REGION_SHIFT (pgoff AND KRING_PGOFF_REGION_MASK))"

text \<open>
  What a mapping shows: the control block of a ring, or its pages. \<open>r->ring\<close> has \<open>nrings\<close>
  elements; the comparison before it is used is with \<open>>\<close>.
\<close>

datatype vm_map = Map_Ctrl nat int | Map_Data nat int int

definition kring_sock_mmap :: "kring_ringset list \<Rightarrow> kring_sock \<Rightarrow> u64 \<Rightarrow> (int + vm_map) option" where
  "kring_sock_mmap head krs vm_pgoff =
     (case krs_ringset krs of
        None \<Rightarrow> Some (Inl (- EINVAL))
      | Some r \<Rightarrow>
          let (ring_id, region) = decon_pgoff vm_pgoff;
              nrings = rs_nrings (head ! r) in
          if ring_id > word_of_int nrings then Some (Inl (- EINVAL))
          else if uint ring_id \<ge> nrings then None
          else if region = KRING_PGOFF_CTRL then Some (Inr (Map_Ctrl r (uint ring_id)))
          else Some (Inr (Map_Data r (uint ring_id) (p_npages (rs_params (head ! r))))))"

text \<open>The loop over the name; the buffer has \<open>KCTRL_NLEN\<close> characters.\<close>

definition ring_name_char :: "char \<Rightarrow> bool" where
  "ring_name_char p = (let c = of_char p :: nat in
     (65 \<le> c \<and> c \<le> 90) \<or> (97 \<le> c \<and> c \<le> 122) \<or> (48 \<le> c \<and> c \<le> 57)
     \<or> p = CHR ''_'' \<or> p = CHR ''-'' \<or> p = CHR ''.'')"

fun validate_ring_name_from :: "nat \<Rightarrow> string \<Rightarrow> int" where
  "validate_ring_name_from 0 ps = -1"
| "validate_ring_name_from (Suc n) [] = -1"
| "validate_ring_name_from (Suc n) (p # ps) =
     (if p = CHR 0x00 then 0
      else if \<not> ring_name_char p then -1
      else validate_ring_name_from n ps)"

definition validate_ring_name :: "string \<Rightarrow> int" where
  "validate_ring_name name = validate_ring_name_from KCTRL_NLEN name"

section \<open>Reader and writer ids\<close>

text \<open>The compare-and-swap on an \<open>allocated\<close> flag: the value before and the ring after.\<close>

definition cas_writer :: "int \<Rightarrow> kring_ring \<Rightarrow> bool \<times> kring_ring" where
  "cas_writer w ring = (rg_writer ring w,
     if rg_writer ring w then ring else ring\<lparr>rg_writer := (rg_writer ring)(w := True)\<rparr>)"

definition cas_reader :: "int \<Rightarrow> kring_ring \<Rightarrow> bool \<times> kring_ring" where
  "cas_reader w ring = (rg_reader ring w,
     if rg_reader ring w then ring else ring\<lparr>rg_reader := (rg_reader ring)(w := True)\<rparr>)"

partial_function (option) kring_allocate_writer_on_ring ::
    "kring_params \<Rightarrow> kring_ring \<Rightarrow> (int \<times> kring_ring) option" where
  "kring_allocate_writer_on_ring params ring =
     (case find (\<lambda>w. \<not> rg_writer ring w) [0..p_writers params - 1] of
        None \<Rightarrow> Some (- EINVAL, ring)
      | Some writer_id \<Rightarrow>
          let (orig, ring') = cas_writer writer_id ring in
          if orig then kring_allocate_writer_on_ring params ring'
          else Some (writer_id, ring'\<lparr>num_writers := num_writers ring' + 1\<rparr>))"

partial_function (option) kring_allocate_reader_on_ring ::
    "kring_params \<Rightarrow> kring_ring \<Rightarrow> (int \<times> kring_ring) option" where
  "kring_allocate_reader_on_ring params ring =
     (case find (\<lambda>w. \<not> rg_reader ring w) [0..p_readers params - 1] of
        None \<Rightarrow> Some (- EINVAL, ring)
      | Some reader_id \<Rightarrow>
          let (orig, ring') = cas_reader reader_id ring in
          if orig then kring_allocate_reader_on_ring params ring'
          else Some (reader_id, ring'\<lparr>num_readers := num_readers ring' + 1\<rparr>))"

text \<open>The first id that no ring of the set has given out.\<close>

definition kring_allocate_reader_all_rings :: "kring_ringset \<Rightarrow> int \<times> kring_ringset" where
  "kring_allocate_reader_all_rings r =
     (case find (\<lambda>reader_id. \<not> list_ex (\<lambda>i. rg_reader (rs_ring r i) reader_id) [0..rs_nrings r - 1])
             [0..p_readers (rs_params r) - 1] of
        None \<Rightarrow> (- EINVAL, r)
      | Some reader_id \<Rightarrow>
          (reader_id,
           fold (\<lambda>i. upd_ring i (\<lambda>ring. ring\<lparr>rg_reader := (rg_reader ring)(reader_id := True),
                                            num_readers := num_readers ring + 1\<rparr>))
             [0..rs_nrings r - 1] r))"

definition sizeof_kring_addr :: int where [simp]: "sizeof_kring_addr = 40"

text \<open>The ids a bind asks for (lines 361 to 381): a writer id, or a reader id on one or on all rings.\<close>

definition bind_ids :: "kring_ringset \<Rightarrow> int \<Rightarrow> KRING_MODE \<Rightarrow> (int \<times> kring_ringset) option" where
  "bind_ids r rid mode =
     (if mode = KRING_WRITE then
        map_option (\<lambda>(i, ring'). (i, upd_ring rid (\<lambda>_. ring') r))
          (kring_allocate_writer_on_ring (rs_params r) (rs_ring r rid))
      else if rid \<noteq> KCTRL_RING_ID_ALL then
        map_option (\<lambda>(i, ring'). (i, upd_ring rid (\<lambda>_. ring') r))
          (kring_allocate_reader_on_ring (rs_params r) (rs_ring r rid))
      else Some (kring_allocate_reader_all_rings r))"

definition kring_bind ::
    "kring_ringset list \<Rightarrow> kring_sock \<Rightarrow> kring_addr \<Rightarrow> int \<Rightarrow> (int \<times> kring_ringset list \<times> kring_sock) option" where
  "kring_bind head krs addr addr_len =
     (let fail = Some (- EINVAL, head, krs); rid = addr_ring_id addr; mode = addr_mode addr in
      if addr_len \<noteq> sizeof_kring_addr then fail
      else if validate_ring_name (addr_name addr) < 0 then fail
      else if mode \<noteq> KRING_READ \<and> mode \<noteq> KRING_WRITE then fail
      else case kring_find_ring (addr_name addr) head of
        None \<Rightarrow> fail
      | Some s \<Rightarrow>
          let r = head ! s in
          if rid \<noteq> KRING_RING_ID_ALL \<and> (rid < 0 \<or> rid \<ge> rs_nrings r) then fail
          else if mode = KRING_WRITE \<and> rid = KRING_RING_ID_ALL then fail
          else
            (case bind_ids r rid mode of
               None \<Rightarrow> None
             | Some (i, r') \<Rightarrow>
                 let head' = head[s := r'] in
                 if i < 0 then Some (i, head', krs)
                 else Some (0, head', krs\<lparr>krs_ringset := Some s, krs_ring_id := rid, krs_mode := mode,
                        krs_writer_id := (if mode = KRING_WRITE then i else -1),
                        krs_reader_id := (if mode = KRING_WRITE then -1 else i)\<rparr>)))"

section \<open>Waiting\<close>

text \<open>The condition a socket waits for in \<open>recvmsg\<close>, by the kind of its ring set.\<close>

definition ring_kdata :: "kring_ring \<Rightarrow> kdata_ring option" where
  "ring_kdata ring = (case rg_mem ring of Data_Mem d \<Rightarrow> Some d | Ctrl_Mem _ \<Rightarrow> None)"

definition ring_kctrl :: "kring_ring \<Rightarrow> kctrl_ring option" where
  "ring_kctrl ring = (case rg_mem ring of Data_Mem _ \<Rightarrow> None | Ctrl_Mem c \<Rightarrow> Some c)"

definition ring_readable :: "int \<Rightarrow> kring_ring \<Rightarrow> bool" where
  "ring_readable reader_id ring =
     (case ring_kdata ring of None \<Rightarrow> False | Some d \<Rightarrow> kdata_avail_impl (kr_control d) reader_id)"

definition kdata_kern_avail :: "kring_ringset \<Rightarrow> kring_sock \<Rightarrow> bool" where
  "kdata_kern_avail r krs =
     (if krs_ring_id krs \<noteq> KDATA_RING_ID_ALL
      then ring_readable (krs_reader_id krs) (rs_ring r (krs_ring_id krs))
      else list_ex (\<lambda>ring. ring_readable (krs_reader_id krs) (rs_ring r ring)) [0..rs_nrings r - 1])"

text \<open>\<open>kring_recvmsg\<close> after the wait has returned \<open>ret\<close>.\<close>

definition kring_recvmsg :: "int \<Rightarrow> int" where
  "kring_recvmsg ret = (if ret = - ERESTARTSYS then - EINTR else 0)"

section \<open>Closing a socket\<close>

text \<open>The release of the page a reader holds, on one ring.\<close>

definition kdata_destruct_ring :: "int \<Rightarrow> kring_ring \<Rightarrow> kring_ring option" where
  "kdata_destruct_ring reader_id ring =
     (let ring1 = ring\<lparr>rg_reader := (rg_reader ring)(reader_id := False)\<rparr> in
      case rg_mem ring1 of
        Ctrl_Mem _ \<Rightarrow> None
      | Data_Mem d \<Rightarrow>
          let control = kr_control d in
          if r_entered (kd_reader control reader_id) \<noteq> 0 then
            let prev = r_rhead (kd_reader control reader_id) in
            (case kdata_reader_release reader_id control prev of
               None \<Rightarrow> None
             | Some c \<Rightarrow> Some (ring1\<lparr>rg_mem := Data_Mem (d\<lparr>kr_control := c\<rparr>)\<rparr>))
          else Some ring1)"

fun destruct_rings :: "int \<Rightarrow> int list \<Rightarrow> kring_ringset \<Rightarrow> kring_ringset option" where
  "destruct_rings reader_id [] r = Some r"
| "destruct_rings reader_id (i # is) r =
     (case kdata_destruct_ring reader_id (rs_ring r i) of
        None \<Rightarrow> None
      | Some ring' \<Rightarrow> destruct_rings reader_id is (upd_ring i (\<lambda>_. ring') r))"

definition kdata_destruct :: "kring_sock \<Rightarrow> kring_ringset \<Rightarrow> kring_ringset option" where
  "kdata_destruct krs r =
     (case krs_mode krs of
        KRING_WRITE \<Rightarrow>
          Some (upd_ring (krs_ring_id krs) (\<lambda>ring. ring\<lparr>rg_writer := (rg_writer ring)(krs_writer_id krs := False),
                                                       num_writers := num_writers ring - 1\<rparr>) r)
      | KRING_READ \<Rightarrow>
          (if krs_ring_id krs \<noteq> KDATA_RING_ID_ALL
           then destruct_rings (krs_reader_id krs) [krs_ring_id krs] r
           else destruct_rings (krs_reader_id krs) [0..rs_nrings r - 1] r)
      | KRING_MODE_OTHER _ \<Rightarrow> Some r)"

text \<open>\<open>ring[krs->ring_id].num_readers\<close> is changed before the test for all rings: index -1 then.\<close>

definition kctrl_destruct :: "kring_sock \<Rightarrow> kring_ringset \<Rightarrow> kring_ringset option" where
  "kctrl_destruct krs r =
     (case krs_mode krs of
        KRING_WRITE \<Rightarrow>
          Some (upd_ring (krs_ring_id krs) (\<lambda>ring. ring\<lparr>rg_writer := (rg_writer ring)(krs_writer_id krs := False),
                                                       num_writers := num_writers ring - 1\<rparr>) r)
      | KRING_READ \<Rightarrow>
          (if krs_ring_id krs < 0 then None
           else Some (upd_ring (krs_ring_id krs)
                   (\<lambda>ring. ring\<lparr>num_readers := num_readers ring - 1,
                                rg_reader := (rg_reader ring)(krs_reader_id krs := False)\<rparr>) r))
      | KRING_MODE_OTHER _ \<Rightarrow> Some r)"

text \<open>The destructor of a socket; for one that was never bound the ring set is a null pointer.\<close>

definition kring_sock_destruct :: "kring_ringset list \<Rightarrow> kring_sock \<Rightarrow> kring_ringset list option" where
  "kring_sock_destruct head krs =
     (case krs_ringset krs of
        None \<Rightarrow> None
      | Some s \<Rightarrow>
          (case (case p_funcs (rs_params (head ! s)) of
                   KRING_DATA \<Rightarrow> kdata_destruct krs (head ! s)
                 | KRING_CTRL \<Rightarrow> kctrl_destruct krs (head ! s)) of
             None \<Rightarrow> None
           | Some r' \<Rightarrow> Some (head[s := r'])))"

end
