(* ===== verification/Kring_Sockets.thy ===== *)
theory Kring_Sockets
  imports Kring_Sets
begin

text \<open>
  The sockets of \<open>Kring_Sets\<close> in a running system: how reader and writer ids are granted and taken
  back, a step relation of the module (ring sets are added, sockets are created, bound and closed,
  mapped memory changes in any way) and the invariant that no two sockets share an id.
\<close>

section \<open>Granting ids\<close>

lemma kring_add_ringset_append [simp]: "kring_add_ringset rs r = rs @ [r]"
  by (induction rs) auto

lemma find_in_set: "find P xs = Some x \<Longrightarrow> x \<in> set xs \<and> P x"
  by (auto simp: find_Some_iff)

lemma allocate_writer_eq:
  "kring_allocate_writer_on_ring p ring =
     (case find (\<lambda>w. \<not> rg_writer ring w) [0..p_writers p - 1] of
        None \<Rightarrow> Some (- EINVAL, ring)
      | Some w \<Rightarrow> Some (w, ring\<lparr>rg_writer := (rg_writer ring)(w := True), num_writers := num_writers ring + 1\<rparr>))"
  by (subst kring_allocate_writer_on_ring.simps)
     (auto simp: cas_writer_def dest: find_in_set split: option.split)

lemma allocate_reader_eq:
  "kring_allocate_reader_on_ring p ring =
     (case find (\<lambda>w. \<not> rg_reader ring w) [0..p_readers p - 1] of
        None \<Rightarrow> Some (- EINVAL, ring)
      | Some w \<Rightarrow> Some (w, ring\<lparr>rg_reader := (rg_reader ring)(w := True), num_readers := num_readers ring + 1\<rparr>))"
  by (subst kring_allocate_reader_on_ring.simps)
     (auto simp: cas_reader_def dest: find_in_set split: option.split)

lemma upd_ring_simps [simp]:
  "rs_ring (upd_ring i f r) k = (if k = i then f (rs_ring r i) else rs_ring r k)"
  "rs_nrings (upd_ring i f r) = rs_nrings r" "rs_params (upd_ring i f r) = rs_params r"
  "rs_name (upd_ring i f r) = rs_name r"
  by (simp_all add: upd_ring_def)

lemma upd_ring_id [simp]: "upd_ring i (\<lambda>_. rs_ring r i) r = r"
  by (simp add: upd_ring_def)

lemma fold_upd_ring [simp]:
  "rs_nrings (fold (\<lambda>i. upd_ring i f) is r) = rs_nrings r"
  "rs_params (fold (\<lambda>i. upd_ring i f) is r) = rs_params r"
  "rs_name (fold (\<lambda>i. upd_ring i f) is r) = rs_name r"
  by (induction "is" arbitrary: r) auto

lemma fold_upd_ring_ring:
  "distinct is \<Longrightarrow> rs_ring (fold (\<lambda>i. upd_ring i f) is r) k = (if k \<in> set is then f (rs_ring r k) else rs_ring r k)"
  by (induction "is" arbitrary: r) auto

text \<open>The flag that an id is given out, by mode; the id of a socket and the rings it covers.\<close>

definition id_flag :: "KRING_MODE \<Rightarrow> kring_ring \<Rightarrow> int \<Rightarrow> bool" where
  "id_flag m ring i = (if m = KRING_WRITE then rg_writer ring i else rg_reader ring i)"

definition sock_id :: "kring_sock \<Rightarrow> int" where
  "sock_id krs = (if krs_mode krs = KRING_WRITE then krs_writer_id krs else krs_reader_id krs)"

definition covers :: "kring_ringset \<Rightarrow> kring_sock \<Rightarrow> int \<Rightarrow> bool" where
  "covers r krs k = (if krs_ring_id krs = KRING_RING_ID_ALL then 0 \<le> k \<and> k < rs_nrings r else k = krs_ring_id krs)"

definition rw_mode :: "KRING_MODE \<Rightarrow> bool" where
  "rw_mode m = (m = KRING_READ \<or> m = KRING_WRITE)"

lemma all_rings_ok:
  assumes "kring_allocate_reader_all_rings r = (i, r')"
  shows "i = - EINVAL \<and> r' = r \<or>
     0 \<le> i \<and> i < p_readers (rs_params r) \<and> rs_params r' = rs_params r \<and> rs_nrings r' = rs_nrings r \<and>
     (\<forall>k. 0 \<le> k \<and> k < rs_nrings r \<longrightarrow> \<not> rg_reader (rs_ring r k) i) \<and>
     (\<forall>k. rg_mem (rs_ring r' k) = rg_mem (rs_ring r k)) \<and>
     (\<forall>k j. rg_writer (rs_ring r' k) j = rg_writer (rs_ring r k) j) \<and>
     (\<forall>k j. rg_reader (rs_ring r' k) j =
        (rg_reader (rs_ring r k) j \<or> (0 \<le> k \<and> k < rs_nrings r) \<and> j = i))"
proof -
  define P where "P = (\<lambda>reader_id. \<not> list_ex (\<lambda>i. rg_reader (rs_ring r i) reader_id) [0..rs_nrings r - 1])"
  note alloc = kring_allocate_reader_all_rings_def [of r, folded P_def]
  show ?thesis
  proof (cases "find P [0..p_readers (rs_params r) - 1]")
    case None
    with assms show ?thesis by (simp add: alloc)
  next
    case (Some x)
    from find_in_set [OF Some] have x: "0 \<le> x" "x < p_readers (rs_params r)" "P x" by auto
    have r': "i = x" "r' = fold (\<lambda>i. upd_ring i (\<lambda>ring. ring\<lparr>rg_reader := (rg_reader ring)(x := True),
        num_readers := num_readers ring + 1\<rparr>)) [0..rs_nrings r - 1] r"
      using assms Some by (auto simp: alloc)
    have "rs_ring r' k = (if 0 \<le> k \<and> k < rs_nrings r then (rs_ring r k)\<lparr>rg_reader := (rg_reader (rs_ring r k))(x := True),
        num_readers := num_readers (rs_ring r k) + 1\<rparr> else rs_ring r k)" for k
      unfolding r'(2) by (subst fold_upd_ring_ring) auto
    moreover have "\<forall>k. 0 \<le> k \<and> k < rs_nrings r \<longrightarrow> \<not> rg_reader (rs_ring r k) x"
      using x(3) by (auto simp: P_def list_ex_iff)
    ultimately show ?thesis using x r' by auto
  qed
qed

lemma find_ring_from_Some:
  "find_ring_from n name rs = Some s \<Longrightarrow>
   n \<le> s \<and> s < n + length rs \<and> cstr (rs_name (rs ! (s - n))) = cstr name"
proof (induction rs arbitrary: n)
  case (Cons r rs)
  show ?case
  proof (cases "cstr (rs_name r) = cstr name")
    case False
    with Cons.prems Cons.IH [of "Suc n"] have "Suc n \<le> s \<and> s < Suc n + length rs \<and> cstr (rs_name (rs ! (s - Suc n))) = cstr name" by simp
    moreover then obtain j where "s = Suc n + j" by (auto dest: le_Suc_ex)
    ultimately show ?thesis by simp
  qed (use Cons in auto)
qed simp

definition grant :: "kring_sock \<Rightarrow> kring_ringset \<Rightarrow> kring_ringset \<Rightarrow> bool" where
  "grant krs r r' = (rs_params r' = rs_params r \<and> rs_nrings r' = rs_nrings r \<and>
     (\<forall>k. rg_mem (rs_ring r' k) = rg_mem (rs_ring r k)) \<and>
     (\<forall>k. covers r krs k \<longrightarrow> \<not> id_flag (krs_mode krs) (rs_ring r k) (sock_id krs)) \<and>
     (\<forall>m k j. rw_mode m \<longrightarrow> id_flag m (rs_ring r' k) j =
        (id_flag m (rs_ring r k) j \<or> m = krs_mode krs \<and> covers r krs k \<and> j = sock_id krs)))"

lemma writer_grant:
  assumes "kring_allocate_writer_on_ring (rs_params r) (rs_ring r rid) = Some (i, ring')"
  shows "i = - EINVAL \<and> ring' = rs_ring r rid \<or>
     0 \<le> i \<and> (rid \<noteq> KRING_RING_ID_ALL \<longrightarrow> krs_mode krs = KRING_WRITE \<longrightarrow> krs_ring_id krs = rid \<longrightarrow>
       krs_writer_id krs = i \<longrightarrow> grant krs r (upd_ring rid (\<lambda>_. ring') r))"
proof (cases "find (\<lambda>w. \<not> rg_writer (rs_ring r rid) w) [0..p_writers (rs_params r) - 1]")
  case None
  with assms show ?thesis by (simp add: allocate_writer_eq)
next
  case (Some w)
  with assms find_in_set [OF Some] show ?thesis
    by (auto simp: allocate_writer_eq grant_def covers_def id_flag_def sock_id_def)
qed

lemma reader_grant:
  assumes "kring_allocate_reader_on_ring (rs_params r) (rs_ring r rid) = Some (i, ring')"
  shows "i = - EINVAL \<and> ring' = rs_ring r rid \<or>
     0 \<le> i \<and> (rid \<noteq> KRING_RING_ID_ALL \<longrightarrow> krs_mode krs = KRING_READ \<longrightarrow> krs_ring_id krs = rid \<longrightarrow>
       krs_reader_id krs = i \<longrightarrow> grant krs r (upd_ring rid (\<lambda>_. ring') r))"
proof (cases "find (\<lambda>w. \<not> rg_reader (rs_ring r rid) w) [0..p_readers (rs_params r) - 1]")
  case None
  with assms show ?thesis by (simp add: allocate_reader_eq)
next
  case (Some w)
  with assms find_in_set [OF Some] show ?thesis
    by (auto simp: allocate_reader_eq grant_def covers_def id_flag_def sock_id_def rw_mode_def)
qed

lemma reader_all_grant:
  assumes "kring_allocate_reader_all_rings r = (i, r')"
  shows "i = - EINVAL \<and> r' = r \<or>
     0 \<le> i \<and> (krs_mode krs = KRING_READ \<longrightarrow> krs_ring_id krs = KRING_RING_ID_ALL \<longrightarrow>
       krs_reader_id krs = i \<longrightarrow> grant krs r r')"
  using all_rings_ok [OF assms]
  by (auto simp: grant_def covers_def id_flag_def sock_id_def rw_mode_def)

lemma bind_ids_grant:
  assumes "bind_ids r rid mode = Some (i, r')" and "rw_mode mode" and "mode = KRING_WRITE \<longrightarrow> rid \<noteq> KRING_RING_ID_ALL"
  shows "i = - EINVAL \<and> r' = r \<or>
     0 \<le> i \<and> (krs_mode krs = mode \<longrightarrow> krs_ring_id krs = rid \<longrightarrow> sock_id krs = i \<longrightarrow> grant krs r r')"
proof -
  consider (w) "mode = KRING_WRITE" "rid \<noteq> KRING_RING_ID_ALL"
    | (one) "mode = KRING_READ" "rid \<noteq> KRING_RING_ID_ALL" | (all) "mode = KRING_READ" "rid = KRING_RING_ID_ALL"
    using assms by (auto simp: rw_mode_def)
  then show ?thesis
  proof cases
    case w
    then obtain ring' where a: "kring_allocate_writer_on_ring (rs_params r) (rs_ring r rid) = Some (i, ring')"
        and "r' = upd_ring rid (\<lambda>_. ring') r" using assms by (auto simp: bind_ids_def)
    with writer_grant [OF a, of krs] w show ?thesis by (auto simp: sock_id_def)
  next
    case one
    then obtain ring' where a: "kring_allocate_reader_on_ring (rs_params r) (rs_ring r rid) = Some (i, ring')"
        and "r' = upd_ring rid (\<lambda>_. ring') r" using assms by (auto simp: bind_ids_def)
    with reader_grant [OF a, of krs] one show ?thesis by (auto simp: sock_id_def)
  next
    case all
    then have a: "kring_allocate_reader_all_rings r = (i, r')" using assms by (simp add: bind_ids_def)
    from reader_all_grant [OF a, of krs] all show ?thesis by (auto simp: sock_id_def)
  qed
qed

text \<open>A bind either fails and changes nothing, or binds the socket and grants it an id.\<close>

lemma bind_cases:
  assumes "kring_bind head krs addr len = Some (e, head', krs')"
  obtains (error) "e < 0" "head' = head" "krs' = krs"
  | (bound) s r' where "e = 0" "kring_find_ring (addr_name addr) head = Some s" "s < length head"
      "krs_ringset krs' = Some s" "krs_ring_id krs' = addr_ring_id addr" "krs_mode krs' = addr_mode addr"
      "rw_mode (addr_mode addr)" "head' = head[s := r']" "grant krs' (head ! s) r'"
      "addr_ring_id addr = KRING_RING_ID_ALL \<and> addr_mode addr = KRING_READ \<or>
         0 \<le> addr_ring_id addr \<and> addr_ring_id addr < rs_nrings (head ! s)"
proof -
  define rid where "rid = addr_ring_id addr"
  define mode where "mode = addr_mode addr"
  note bind = assms [unfolded kring_bind_def Let_def, folded rid_def mode_def]
  show thesis
  proof (cases "e = - EINVAL \<and> head' = head \<and> krs' = krs")
    case True
    then show thesis by (intro error) auto
  next
    case False
    with bind obtain s where s: "kring_find_ring (addr_name addr) head = Some s" and rw: "rw_mode mode"
      by (auto simp: rw_mode_def split: if_splits option.splits)
    then have len: "s < length head"
      using find_ring_from_Some [of 0 "addr_name addr" head s] by (simp add: kring_find_ring_def)
    define r where "r = head ! s"
    have rid: "\<not> (rid \<noteq> KRING_RING_ID_ALL \<and> (rid < 0 \<or> rid \<ge> rs_nrings r))"
        "mode = KRING_WRITE \<longrightarrow> rid \<noteq> KRING_RING_ID_ALL"
      using bind s False by (auto simp: r_def split: if_splits)
    obtain i r' where a: "bind_ids r rid mode = Some (i, r')"
      using bind s False by (auto simp: r_def split: if_splits option.splits)
    have e: "if i < 0 then e = i \<and> head' = head[s := r'] \<and> krs' = krs
        else e = 0 \<and> head' = head[s := r'] \<and> krs' = krs\<lparr>krs_ringset := Some s, krs_ring_id := rid,
             krs_mode := mode, krs_writer_id := (if mode = KRING_WRITE then i else -1),
             krs_reader_id := (if mode = KRING_WRITE then -1 else i)\<rparr>"
      using bind s False a by (auto simp: r_def split: if_splits)
    from bind_ids_grant [OF a rw rid(2), of krs'] show thesis
    proof
      assume "i = - EINVAL \<and> r' = r"
      with e show thesis by (intro error) (auto simp: r_def)
    next
      assume g: "0 \<le> i \<and> (krs_mode krs' = mode \<longrightarrow> krs_ring_id krs' = rid \<longrightarrow> sock_id krs' = i \<longrightarrow> grant krs' r r')"
      with e have "e = 0" "head' = head[s := r']" "krs_ringset krs' = Some s" "krs_ring_id krs' = rid"
          "krs_mode krs' = mode" "sock_id krs' = i"
        by (auto simp: sock_id_def)
      with g rw rid s len show thesis
        by (intro bound [of s r']) (auto simp: rid_def mode_def r_def rw_mode_def)
    qed
  qed
qed

section \<open>Taking ids back\<close>

definition set_ok :: "kring_ringset \<Rightarrow> bool" where
  "set_ok r = (rs_params r = kdata_params \<and> (\<forall>k. ring_kdata (rs_ring r k) \<noteq> None) \<or>
     rs_params r = kctrl_params \<and> (\<forall>k. ring_kctrl (rs_ring r k) \<noteq> None))"

definition revoke :: "kring_sock \<Rightarrow> kring_ringset \<Rightarrow> kring_ringset \<Rightarrow> bool" where
  "revoke krs r r' = (rs_params r' = rs_params r \<and> rs_nrings r' = rs_nrings r \<and> set_ok r' \<and>
     (\<forall>m k j. rw_mode m \<longrightarrow> id_flag m (rs_ring r' k) j =
        (id_flag m (rs_ring r k) j \<and> \<not> (m = krs_mode krs \<and> covers r krs k \<and> j = sock_id krs))))"

lemma destruct_ring_eq:
  assumes "ring_kdata ring = Some d"
  shows "\<exists>ring'. kdata_destruct_ring i ring = Some ring' \<and> ring_kdata ring' \<noteq> None \<and>
    rg_reader ring' = (rg_reader ring)(i := False) \<and> rg_writer ring' = rg_writer ring"
proof -
  have "rg_mem ring = Data_Mem d" using assms by (cases "rg_mem ring") (auto simp: ring_kdata_def)
  then show ?thesis
    by (cases "r_entered (kd_reader (kr_control d) i) = 0")
       (simp_all add: kdata_destruct_ring_def Let_def reader_release_eq ring_kdata_def)
qed

lemma destruct_rings_ok:
  assumes "\<forall>k. ring_kdata (rs_ring r k) \<noteq> None"
  shows "\<exists>r'. destruct_rings i ks r = Some r' \<and> rs_params r' = rs_params r \<and> rs_nrings r' = rs_nrings r \<and>
     (\<forall>k. ring_kdata (rs_ring r' k) \<noteq> None \<and> rg_writer (rs_ring r' k) = rg_writer (rs_ring r k) \<and>
       (\<forall>j. rg_reader (rs_ring r' k) j = (rg_reader (rs_ring r k) j \<and> \<not> (k \<in> set ks \<and> j = i))))"
  using assms
proof (induction ks arbitrary: r)
  case Nil
  then show ?case by simp
next
  case (Cons k ks)
  obtain ring' where ring': "kdata_destruct_ring i (rs_ring r k) = Some ring'" "ring_kdata ring' \<noteq> None"
      "rg_reader ring' = (rg_reader (rs_ring r k))(i := False)" "rg_writer ring' = rg_writer (rs_ring r k)"
    using destruct_ring_eq [of "rs_ring r k" _ i] Cons.prems by blast
  have "\<forall>j. ring_kdata (rs_ring (upd_ring k (\<lambda>_. ring') r) j) \<noteq> None"
    using Cons.prems ring' by simp
  from Cons.IH [OF this] obtain r' where "destruct_rings i ks (upd_ring k (\<lambda>_. ring') r) = Some r'"
      "rs_params r' = rs_params r" "rs_nrings r' = rs_nrings r"
      "\<forall>j. ring_kdata (rs_ring r' j) \<noteq> None \<and> rg_writer (rs_ring r' j) = rg_writer (rs_ring (upd_ring k (\<lambda>_. ring') r) j) \<and>
       (\<forall>l. rg_reader (rs_ring r' j) l = (rg_reader (rs_ring (upd_ring k (\<lambda>_. ring') r) j) l \<and> \<not> (j \<in> set ks \<and> l = i)))"
    by auto
  with ring' show ?case by auto
qed

lemma data_destruct_revoke:
  assumes "rw_mode (krs_mode krs)" "rs_params r = kdata_params" "\<forall>k. ring_kdata (rs_ring r k) \<noteq> None"
    and "krs_mode krs = KRING_WRITE \<longrightarrow> krs_ring_id krs \<noteq> KRING_RING_ID_ALL"
  shows "\<exists>r'. kdata_destruct krs r = Some r' \<and> revoke krs r r'"
proof (cases "krs_mode krs = KRING_WRITE")
  case True
  with assms show ?thesis
    by (auto simp: kdata_destruct_def revoke_def set_ok_def covers_def id_flag_def sock_id_def ring_kdata_def)
next
  case False
  then have m: "krs_mode krs = KRING_READ" using assms by (simp add: rw_mode_def)
  define ks where "ks = (if krs_ring_id krs \<noteq> KDATA_RING_ID_ALL then [krs_ring_id krs] else [0..rs_nrings r - 1])"
  have ks: "k \<in> set ks \<longleftrightarrow> covers r krs k" for k by (auto simp: ks_def covers_def)
  have "kdata_destruct krs r = destruct_rings (krs_reader_id krs) ks r"
    by (simp add: kdata_destruct_def m ks_def)
  with destruct_rings_ok [OF assms(3), of "krs_reader_id krs" ks] m assms(2) show ?thesis
    unfolding ks by (auto simp: revoke_def set_ok_def id_flag_def sock_id_def rw_mode_def)
qed

lemma ctrl_destruct_revoke:
  assumes "rw_mode (krs_mode krs)" "rs_params r = kctrl_params" "\<forall>k. ring_kctrl (rs_ring r k) \<noteq> None"
    and "krs_ring_id krs \<ge> 0"
  shows "\<exists>r'. kctrl_destruct krs r = Some r' \<and> revoke krs r r'"
  using assms
  by (cases "krs_mode krs")
     (auto simp: kctrl_destruct_def revoke_def set_ok_def covers_def id_flag_def sock_id_def ring_kctrl_def rw_mode_def)

lemma destruct_revoke:
  assumes "krs_ringset krs = Some s" "rw_mode (krs_mode krs)" "set_ok (head ! s)"
    and "krs_ring_id krs = KRING_RING_ID_ALL \<and> krs_mode krs = KRING_READ \<or> 0 \<le> krs_ring_id krs"
  shows "kring_sock_destruct head krs = None
           \<and> rs_params (head ! s) = kctrl_params \<and> krs_ring_id krs = KRING_RING_ID_ALL
     \<or> (\<exists>r'. kring_sock_destruct head krs = Some (head[s := r']) \<and> revoke krs (head ! s) r')"
proof (cases "rs_params (head ! s) = kdata_params")
  case True
  then have "\<forall>k. ring_kdata (rs_ring (head ! s) k) \<noteq> None"
    using assms(3) by (auto simp: set_ok_def kdata_params_def kctrl_params_def)
  from data_destruct_revoke [OF assms(2) True this] assms True show ?thesis
    by (auto simp: kring_sock_destruct_def kdata_params_def)
next
  case False
  then have p: "rs_params (head ! s) = kctrl_params" "\<forall>k. ring_kctrl (rs_ring (head ! s) k) \<noteq> None"
    using assms(3) by (auto simp: set_ok_def)
  show ?thesis
  proof (cases "krs_ring_id krs \<ge> 0")
    case True
    from ctrl_destruct_revoke [OF assms(2) p True] assms p show ?thesis
      by (auto simp: kring_sock_destruct_def kctrl_params_def)
  next
    case False
    with assms p show ?thesis
      by (auto simp: kring_sock_destruct_def kctrl_params_def kctrl_destruct_def)
  qed
qed

section \<open>Sockets in a running system\<close>

record ksys =
  ks_sets :: "kring_ringset list"
  ks_socks :: "nat \<Rightarrow> kring_sock option"

text \<open>The memory of a ring may change in any way while it is mapped; its kind stays.\<close>

definition same_kind :: "ring_mem \<Rightarrow> ring_mem \<Rightarrow> bool" where
  "same_kind m m' = (case m of Data_Mem _ \<Rightarrow> (\<exists>d. m' = Data_Mem d) | Ctrl_Mem _ \<Rightarrow> (\<exists>c. m' = Ctrl_Mem c))"

inductive kstep :: "ksys \<Rightarrow> ksys \<Rightarrow> bool" where
  add_data: "kring_add_data_store name n (ks_sets st) = (e, sets) \<Longrightarrow> kstep st (st\<lparr>ks_sets := sets\<rparr>)"
| add_cmd: "kring_add_cmd_store name (ks_sets st) = (e, sets) \<Longrightarrow> kstep st (st\<lparr>ks_sets := sets\<rparr>)"
| create: "ks_socks st fd = None \<Longrightarrow> kdata_sock_create cap al ty proto = Inr krs \<Longrightarrow>
    kstep st (st\<lparr>ks_socks := (ks_socks st)(fd \<mapsto> krs)\<rparr>)"
| bind: "ks_socks st fd = Some krs \<Longrightarrow> kring_bind (ks_sets st) krs addr len = Some (e, sets, krs') \<Longrightarrow>
    kstep st (st\<lparr>ks_sets := sets, ks_socks := (ks_socks st)(fd \<mapsto> krs')\<rparr>)"
| close: "ks_socks st fd = Some krs \<Longrightarrow> kring_sock_destruct (ks_sets st) krs = Some sets \<Longrightarrow>
    kstep st (st\<lparr>ks_sets := sets, ks_socks := (ks_socks st)(fd := None)\<rparr>)"
| touch: "s < length (ks_sets st) \<Longrightarrow> same_kind (rg_mem (rs_ring (ks_sets st ! s) k)) mem \<Longrightarrow>
    kstep st (st\<lparr>ks_sets := (ks_sets st)[s := upd_ring k (\<lambda>ring. ring\<lparr>rg_mem := mem\<rparr>) (ks_sets st ! s)]\<rparr>)"

inductive kreach :: "ksys \<Rightarrow> bool" where
  start: "kreach \<lparr>ks_sets = [], ks_socks = (\<lambda>_. None)\<rparr>"
| step: "kreach st \<Longrightarrow> kstep st st' \<Longrightarrow> kreach st'"

text \<open>Socket \<open>fd\<close> holds the id \<open>i\<close> for mode \<open>m\<close> on ring \<open>k\<close> of set \<open>s\<close>.\<close>

definition holds :: "ksys \<Rightarrow> nat \<Rightarrow> KRING_MODE \<Rightarrow> nat \<Rightarrow> int \<Rightarrow> int \<Rightarrow> bool" where
  "holds st fd m s k i = (\<exists>krs. ks_socks st fd = Some krs \<and> krs_ringset krs = Some s \<and> krs_mode krs = m
     \<and> covers (ks_sets st ! s) krs k \<and> sock_id krs = i)"

definition sock_ok :: "kring_ringset list \<Rightarrow> kring_sock \<Rightarrow> bool" where
  "sock_ok sets krs = (\<forall>s. krs_ringset krs = Some s \<longrightarrow> s < length sets \<and> rw_mode (krs_mode krs) \<and>
     (krs_ring_id krs = KRING_RING_ID_ALL \<and> krs_mode krs = KRING_READ \<or>
      0 \<le> krs_ring_id krs \<and> krs_ring_id krs < rs_nrings (sets ! s)))"

definition ksys_inv :: "ksys \<Rightarrow> bool" where
  "ksys_inv st = ((\<forall>r \<in> set (ks_sets st). set_ok r) \<and>
     (\<forall>fd krs. ks_socks st fd = Some krs \<longrightarrow> sock_ok (ks_sets st) krs) \<and>
     (\<forall>fd m s k i. holds st fd m s k i \<longrightarrow> id_flag m (rs_ring (ks_sets st ! s) k) i) \<and>
     (\<forall>fd fd' m s k i. holds st fd m s k i \<longrightarrow> holds st fd' m s k i \<longrightarrow> fd = fd'))"

lemma covers_nrings: "rs_nrings r' = rs_nrings r \<Longrightarrow> covers r' krs k = covers r krs k"
  by (simp add: covers_def)

lemma holdsI:
  "ks_socks st fd = Some krs \<Longrightarrow> krs_ringset krs = Some s \<Longrightarrow> covers (ks_sets st ! s) krs k \<Longrightarrow>
   holds st fd (krs_mode krs) s k (sock_id krs)"
  by (auto simp: holds_def)

lemma ksys_invD:
  assumes "ksys_inv st"
  shows "r \<in> set (ks_sets st) \<Longrightarrow> set_ok r"
    and "ks_socks st fd = Some krs \<Longrightarrow> sock_ok (ks_sets st) krs"
    and "holds st fd m s k i \<Longrightarrow> id_flag m (rs_ring (ks_sets st ! s) k) i"
    and "holds st fd m s k i \<Longrightarrow> holds st fd' m s k i \<Longrightarrow> fd = fd'"
    and "holds st fd m s k i \<Longrightarrow> s < length (ks_sets st) \<and> rw_mode m"
  using assms unfolding ksys_inv_def sock_ok_def holds_def by blast+

lemma inv_same_flags:
  assumes inv: "ksys_inv st" and "\<forall>r \<in> set sets. set_ok r" and "length (ks_sets st) \<le> length sets"
    and same: "\<And>s. s < length (ks_sets st) \<Longrightarrow> rs_nrings (sets ! s) = rs_nrings (ks_sets st ! s)
       \<and> (\<forall>m k i. id_flag m (rs_ring (sets ! s) k) i = id_flag m (rs_ring (ks_sets st ! s) k) i)"
  shows "ksys_inv (st\<lparr>ks_sets := sets\<rparr>)"
proof -
  have holds: "holds (st\<lparr>ks_sets := sets\<rparr>) fd m s k i = holds st fd m s k i" for fd m s k i
  proof -
    have "covers (sets ! s) krs k = covers (ks_sets st ! s) krs k"
      if "ks_socks st fd = Some krs" "krs_ringset krs = Some s" for krs
      using ksys_invD(2) [OF inv that(1)] that(2) same by (auto simp: sock_ok_def covers_def)
    then show ?thesis by (auto simp: holds_def)
  qed
  have "sock_ok sets krs" if "ks_socks st fd = Some krs" for fd krs
    using ksys_invD(2) [OF inv that] assms(3) same by (fastforce simp: sock_ok_def)
  moreover have "id_flag m (rs_ring (sets ! s) k) i" if "holds st fd m s k i" for fd m s k i
    using ksys_invD(3,5) [OF inv that] same by blast
  ultimately show ?thesis
    using assms(2) ksys_invD(4) [OF inv] unfolding ksys_inv_def holds by auto
qed

lemma alloc_set_ok: "set_ok (kring_ringset_alloc kdata_params name n)" "set_ok (kring_ringset_alloc kctrl_params name n)"
  by (simp_all add: set_ok_def kring_ringset_alloc_def kring_ring_alloc_def ring_kdata_def ring_kctrl_def
      kdata_params_def kctrl_params_def)

lemma add_inv:
  assumes inv: "ksys_inv st" and "set_ok r"
  shows "ksys_inv (st\<lparr>ks_sets := ks_sets st @ [r]\<rparr>)"
  using assms ksys_invD(1) [OF inv] by (intro inv_same_flags) (auto simp: nth_append)

lemma touch_inv:
  assumes inv: "ksys_inv st" and s: "s < length (ks_sets st)"
    and kind: "same_kind (rg_mem (rs_ring (ks_sets st ! s) k)) mem"
  shows "ksys_inv (st\<lparr>ks_sets := (ks_sets st)[s := upd_ring k (\<lambda>ring. ring\<lparr>rg_mem := mem\<rparr>) (ks_sets st ! s)]\<rparr>)"
proof (rule inv_same_flags [OF inv])
  have "set_ok (ks_sets st ! s)" using ksys_invD(1) [OF inv] s by simp
  then have "set_ok (upd_ring k (\<lambda>ring. ring\<lparr>rg_mem := mem\<rparr>) (ks_sets st ! s))"
    using kind by (auto simp: set_ok_def ring_kdata_def ring_kctrl_def same_kind_def split: ring_mem.splits)
  then show "\<forall>r \<in> set ((ks_sets st)[s := upd_ring k (\<lambda>ring. ring\<lparr>rg_mem := mem\<rparr>) (ks_sets st ! s)]). set_ok r"
    using ksys_invD(1) [OF inv] set_update_subset_insert by fastforce
qed (use s in \<open>auto simp: nth_list_update id_flag_def\<close>)

lemma create_inv:
  assumes inv: "ksys_inv st" and "ks_socks st fd = None"
  shows "ksys_inv (st\<lparr>ks_socks := (ks_socks st)(fd \<mapsto> krs_new)\<rparr>)"
proof -
  have "holds (st\<lparr>ks_socks := (ks_socks st)(fd \<mapsto> krs_new)\<rparr>) fd' m s k i = holds st fd' m s k i" for fd' m s k i
    using assms(2) by (auto simp: holds_def krs_new_def)
  then show ?thesis using inv by (auto simp: ksys_inv_def sock_ok_def krs_new_def)
qed

lemma bind_inv:
  assumes inv: "ksys_inv st" and fd: "ks_socks st fd = Some krs"
    and bind: "kring_bind (ks_sets st) krs addr len = Some (e, sets, krs')"
  shows "ksys_inv (st\<lparr>ks_sets := sets, ks_socks := (ks_socks st)(fd \<mapsto> krs')\<rparr>)"
  using bind
proof (cases rule: bind_cases)
  case error
  then have "st\<lparr>ks_sets := sets, ks_socks := (ks_socks st)(fd \<mapsto> krs')\<rparr> = st"
    using fd by (auto simp: fun_upd_idem)
  with inv show ?thesis by simp
next
  case (bound s r')
  define st' where "st' = st\<lparr>ks_sets := sets, ks_socks := (ks_socks st)(fd \<mapsto> krs')\<rparr>"
  have nr: "rs_nrings (sets ! t) = rs_nrings (ks_sets st ! t)" for t
    using bound by (cases "t = s") (auto simp: grant_def)
  have cov: "covers (sets ! t) = covers (ks_sets st ! t)" for t
    using nr by (auto simp: covers_def fun_eq_iff)
  have flag: "id_flag m (rs_ring (sets ! t) k) i =
      (id_flag m (rs_ring (ks_sets st ! t) k) i \<or>
       t = s \<and> m = krs_mode krs' \<and> covers (ks_sets st ! s) krs' k \<and> i = sock_id krs')" if "rw_mode m" for m t k i
    using that bound by (cases "t = s") (auto simp: grant_def)
  have holds: "holds st' fd' m t k i = (if fd' = fd
      then t = s \<and> m = krs_mode krs' \<and> covers (ks_sets st ! s) krs' k \<and> i = sock_id krs'
      else holds st fd' m t k i)" for fd' m t k i
    using bound(4) by (auto simp: holds_def st'_def cov)
  have fresh: "\<not> holds st fd' (krs_mode krs') s k (sock_id krs')" if "covers (ks_sets st ! s) krs' k" for fd' k
    using ksys_invD(3) [OF inv] bound that by (auto simp: grant_def)
  have "\<forall>r \<in> set sets. set_ok r"
  proof -
    have "set_ok (ks_sets st ! s)" using ksys_invD(1) [OF inv] bound by simp
    then have "set_ok r'" using bound by (auto simp: grant_def set_ok_def ring_kdata_def ring_kctrl_def)
    then show ?thesis using ksys_invD(1) [OF inv] bound set_update_subset_insert by fastforce
  qed
  moreover have "sock_ok sets k'" if "ks_socks st' fd' = Some k'" for fd' k'
    using that ksys_invD(2) [OF inv, of fd' k'] bound(3-7,10) nr bound(8)
    by (auto simp: st'_def sock_ok_def split: if_splits)
  moreover have "id_flag m (rs_ring (sets ! t) k) i" if "holds st' fd' m t k i" for fd' m t k i
    using that ksys_invD(3,5) [OF inv, of fd' m t k i] flag [of m t k i] bound
    unfolding holds by (auto split: if_splits)
  moreover have "fd1 = fd2" if "holds st' fd1 m t k i" "holds st' fd2 m t k i" for fd1 fd2 m t k i
    using that ksys_invD(4) [OF inv, of fd1 m t k i fd2] fresh unfolding holds by (auto split: if_splits)
  ultimately show ?thesis unfolding st'_def [symmetric] ksys_inv_def by (auto simp: st'_def)
qed

lemma close_inv:
  assumes inv: "ksys_inv st" and fd: "ks_socks st fd = Some krs"
    and close: "kring_sock_destruct (ks_sets st) krs = Some sets"
  shows "ksys_inv (st\<lparr>ks_sets := sets, ks_socks := (ks_socks st)(fd := None)\<rparr>)"
proof -
  obtain s where s: "krs_ringset krs = Some s" using close by (auto simp: kring_sock_destruct_def split: option.splits)
  have ok: "sock_ok (ks_sets st) krs" by (rule ksys_invD(2) [OF inv fd])
  then have slen: "s < length (ks_sets st)" and rw: "rw_mode (krs_mode krs)"
    and rid: "krs_ring_id krs = KRING_RING_ID_ALL \<and> krs_mode krs = KRING_READ \<or> 0 \<le> krs_ring_id krs"
    using s by (auto simp: sock_ok_def)
  have "set_ok (ks_sets st ! s)" using ksys_invD(1) [OF inv] slen by simp
  from destruct_revoke [OF s rw this rid] close
  obtain r' where sets: "sets = (ks_sets st)[s := r']" and rev: "revoke krs (ks_sets st ! s) r'" by auto
  define st' where "st' = st\<lparr>ks_sets := sets, ks_socks := (ks_socks st)(fd := None)\<rparr>"
  have nr: "rs_nrings (sets ! t) = rs_nrings (ks_sets st ! t)" for t
    using rev slen by (cases "t = s") (auto simp: revoke_def sets)
  have cov: "covers (sets ! t) = covers (ks_sets st ! t)" for t
    using nr by (auto simp: covers_def fun_eq_iff)
  have flag: "id_flag m (rs_ring (sets ! t) k) i =
      (id_flag m (rs_ring (ks_sets st ! t) k) i \<and>
       \<not> (t = s \<and> m = krs_mode krs \<and> covers (ks_sets st ! s) krs k \<and> i = sock_id krs))" if "rw_mode m" for m t k i
    using that rev slen by (cases "t = s") (auto simp: revoke_def sets)
  have holds: "holds st' fd' m t k i \<longleftrightarrow> fd' \<noteq> fd \<and> holds st fd' m t k i" for fd' m t k i
    by (auto simp: holds_def st'_def cov)
  have "\<forall>r \<in> set sets. set_ok r"
    using ksys_invD(1) [OF inv] rev sets set_update_subset_insert by (fastforce simp: revoke_def)
  moreover have "sock_ok sets k'" if "ks_socks st' fd' = Some k'" for fd' k'
    using that ksys_invD(2) [OF inv, of fd' k'] nr by (auto simp: st'_def sock_ok_def sets split: if_splits)
  moreover have "id_flag m (rs_ring (sets ! t) k) i" if h: "holds st' fd' m t k i" for fd' m t k i
  proof -
    have other: "\<not> (t = s \<and> m = krs_mode krs \<and> covers (ks_sets st ! s) krs k \<and> i = sock_id krs)"
      using h ksys_invD(4) [OF inv, of fd' m t k i fd] holdsI [OF fd s] unfolding holds by blast
    show ?thesis
      using h other ksys_invD(3,5) [OF inv, of fd' m t k i] flag [of m t k i] unfolding holds by blast
  qed
  moreover have "fd1 = fd2" if "holds st' fd1 m t k i" "holds st' fd2 m t k i" for fd1 fd2 m t k i
    using that ksys_invD(4) [OF inv, of fd1 m t k i fd2] unfolding holds by blast
  ultimately show ?thesis unfolding st'_def [symmetric] ksys_inv_def by (auto simp: st'_def)
qed

lemma kstep_inv: "kstep st st' \<Longrightarrow> ksys_inv st \<Longrightarrow> ksys_inv st'"
proof (induction rule: kstep.induct)
  case (add_data name n st e sets)
  then show ?case
    using add_inv [OF _ alloc_set_ok(1)] by (auto simp: kring_add_data_store_def split: if_splits)
next
  case (add_cmd name st e sets)
  then show ?case
    using add_inv [OF _ alloc_set_ok(2)] by (auto simp: kring_add_cmd_store_def)
next
  case (create st fd cap al ty proto krs)
  then show ?case
    using create_inv by (auto simp: kdata_sock_create_def split: if_splits)
qed (simp_all add: bind_inv close_inv touch_inv)

lemma kreach_inv: "kreach st \<Longrightarrow> ksys_inv st"
proof (induction rule: kreach.induct)
  case start
  show ?case by (simp add: ksys_inv_def holds_def)
next
  case (step st st')
  then show ?case using kstep_inv by blast
qed

section \<open>Properties\<close>

lemma validate_from_0:
  "validate_ring_name_from n ps = 0 \<longleftrightarrow>
     (\<exists>i<n. i < length ps \<and> ps ! i = CHR 0x00 \<and> (\<forall>j<i. ps ! j \<noteq> CHR 0x00 \<and> ring_name_char (ps ! j)))"
proof (induction n ps rule: validate_ring_name_from.induct)
  case (3 n p ps)
  show ?case
  proof (cases "p = CHR 0x00")
    case True
    then show ?thesis by (auto intro: exI [of _ 0])
  next
    case False
    have "(\<exists>i<Suc n. i < length (p # ps) \<and> (p # ps) ! i = CHR 0x00 \<and>
        (\<forall>j<i. (p # ps) ! j \<noteq> CHR 0x00 \<and> ring_name_char ((p # ps) ! j))) \<longleftrightarrow>
      ring_name_char p \<and> (\<exists>i<n. i < length ps \<and> ps ! i = CHR 0x00 \<and>
        (\<forall>j<i. ps ! j \<noteq> CHR 0x00 \<and> ring_name_char (ps ! j)))" (is "?L \<longleftrightarrow> ?R")
    proof
      assume ?L
      then obtain i where i: "i < Suc n" "i < length (p # ps)" "(p # ps) ! i = CHR 0x00"
          "\<forall>j<i. (p # ps) ! j \<noteq> CHR 0x00 \<and> ring_name_char ((p # ps) ! j)" by blast
      then obtain i' where i': "i = Suc i'" using False by (cases i) auto
      with i have "\<forall>j<i'. ps ! j \<noteq> CHR 0x00 \<and> ring_name_char (ps ! j)" "ring_name_char p" by fastforce+
      with i i' show ?R by auto
    next
      assume ?R
      then obtain i where "i < n" "i < length ps" "ps ! i = CHR 0x00" "ring_name_char p"
          "\<forall>j<i. ps ! j \<noteq> CHR 0x00 \<and> ring_name_char (ps ! j)" by blast
      with False show ?L by (intro exI [of _ "Suc i"]) (auto simp: less_Suc_eq_0_disj)
    qed
    with False 3 show ?thesis by auto
  qed
qed auto

text \<open>
  A ring name is accepted exactly when the 32 byte buffer holds a terminated string of letters,
  digits, underscores, dashes and dots.
\<close>

lemma validate_ring_name_iff:
  "validate_ring_name name = 0 \<longleftrightarrow>
     (\<exists>i<32. i < length name \<and> name ! i = CHR 0x00 \<and> (\<forall>j<i. name ! j \<noteq> CHR 0x00 \<and> ring_name_char (name ! j)))"
  by (simp add: validate_ring_name_def validate_from_0)

lemma validate_ring_name_iff_witness: "validate_ring_name (''r-1'' @ replicate 29 (CHR 0x00)) = 0"
  unfolding validate_ring_name_iff
  by (rule exI [of _ 3]) (simp add: numeral_eq_Suc less_Suc_eq ring_name_char_def)

lemma bind_returns: "kring_bind head krs addr len \<noteq> None"
proof -
  have ids: "bind_ids r rid mode = None \<longleftrightarrow> False" for r rid mode
    by (auto simp: bind_ids_def allocate_writer_eq allocate_reader_eq split: option.split)
  show ?thesis
    unfolding kring_bind_def Let_def by (auto simp: ids split: option.split if_splits)
qed

text \<open>
  Binding always returns. It either fails with a negative error and leaves the ring sets and the
  socket as they were, or binds the socket to the named set with an id that was free on every ring
  the socket covers, and marks exactly that id as given out on exactly those rings.
\<close>

theorem kring_bind_outcome:
  "\<exists>e head' krs'. kring_bind head krs addr len = Some (e, head', krs') \<and>
     (e < 0 \<and> head' = head \<and> krs' = krs \<or>
      (\<exists>s r'. e = 0 \<and> kring_find_ring (addr_name addr) head = Some s \<and> s < length head \<and>
         krs_ringset krs' = Some s \<and> krs_ring_id krs' = addr_ring_id addr \<and> krs_mode krs' = addr_mode addr \<and>
         head' = head[s := r'] \<and> grant krs' (head ! s) r'))"
proof -
  obtain e head' krs' where b: "kring_bind head krs addr len = Some (e, head', krs')"
    using bind_returns [of head krs addr len] by (metis option.exhaust prod_cases3)
  from bind_cases [OF b] show ?thesis
    using b by (metis (no_types, lifting))
qed

definition two_rings :: "kring_ringset list" where
  "two_rings = [kring_ringset_alloc kdata_params ''ring'' 2]"

definition ring_addr :: "int \<Rightarrow> KRING_MODE \<Rightarrow> kring_addr" where
  "ring_addr rid mode = \<lparr>addr_name = kring_copy_name ''ring'', addr_ring_id = rid, addr_mode = mode\<rparr>"

lemma copy_name_ring: "kring_copy_name ''ring'' = ''ring'' @ replicate 28 (CHR 0x00)"
  by (simp add: kring_copy_name_def cstr_def numeral_eq_Suc)

lemma ring_name_ok: "validate_ring_name (kring_copy_name ''ring'') = 0"
  unfolding validate_ring_name_def copy_name_ring
  by (simp add: numeral_eq_Suc ring_name_char_def)

definition ring_taken :: "int list \<Rightarrow> int \<Rightarrow> kring_ringset \<Rightarrow> kring_ringset" where
  "ring_taken ks i r = fold (\<lambda>k. upd_ring k (\<lambda>ring. ring\<lparr>rg_reader := (rg_reader ring)(i := True),
     num_readers := num_readers ring + 1\<rparr>)) ks r"

lemma upto_0_5: "[0..5::int] = [0, 1, 2, 3, 4, 5]"
  by (simp add: upto.simps)

lemma upto_0_1: "[0..1::int] = [0, 1]"
  by (simp add: upto.simps)

lemma bind_one:
  "kring_bind two_rings krs_new (ring_addr 0 KRING_READ) 40 =
     Some (0, [ring_taken [0] 0 (two_rings ! 0)],
           \<lparr>krs_ringset = Some 0, krs_ring_id = 0, krs_mode = KRING_READ, krs_writer_id = -1, krs_reader_id = 0\<rparr>)"
  unfolding two_rings_def kring_bind_def
  by (simp add: ring_addr_def ring_name_ok kring_find_ring_def kring_ringset_alloc_def
      copy_name_ring [symmetric] bind_ids_def allocate_reader_eq kdata_params_def upto_0_5 kring_ring_alloc_def
      ring_taken_def krs_new_def upd_ring_def Let_def cstr_def)

lemma bind_all:
  "kring_bind [ring_taken [0] 0 (two_rings ! 0)] krs_new (ring_addr KRING_RING_ID_ALL KRING_READ) 40 =
     Some (0, [ring_taken [0, 1] 1 (ring_taken [0] 0 (two_rings ! 0))],
           \<lparr>krs_ringset = Some 0, krs_ring_id = -1, krs_mode = KRING_READ, krs_writer_id = -1, krs_reader_id = 1\<rparr>)"
  unfolding two_rings_def kring_bind_def
  by (simp add: ring_addr_def ring_name_ok kring_find_ring_def kring_ringset_alloc_def
      bind_ids_def kring_allocate_reader_all_rings_def kdata_params_def upto_0_5 upto_0_1 kring_ring_alloc_def
      ring_taken_def krs_new_def Let_def)

lemma reach_two_readers:
  "\<exists>st a b. kreach st \<and> ks_socks st 3 = Some a \<and> ks_socks st 4 = Some b \<and>
     krs_ringset a = Some 0 \<and> krs_ringset b = Some 0 \<and> krs_mode a = KRING_READ \<and> krs_mode b = KRING_READ \<and>
     covers (ks_sets st ! 0) a 0 \<and> covers (ks_sets st ! 0) b 0 \<and> rs_params (ks_sets st ! 0) = kdata_params"
proof -
  define st0 where "st0 = \<lparr>ks_sets = [], ks_socks = (\<lambda>_. None)\<rparr>"
  define st1 where "st1 = st0\<lparr>ks_sets := two_rings\<rparr>"
  define st2 where "st2 = st1\<lparr>ks_socks := (ks_socks st1)(3 \<mapsto> krs_new)\<rparr>"
  define st3 where "st3 = st2\<lparr>ks_socks := (ks_socks st2)(4 \<mapsto> krs_new)\<rparr>"
  obtain sets4 a where a: "kring_bind (ks_sets st3) krs_new (ring_addr 0 KRING_READ) 40 = Some (0, sets4, a)"
      "krs_ringset a = Some 0" "krs_ring_id a = 0" "krs_mode a = KRING_READ"
      "sets4 = [ring_taken [0] 0 (two_rings ! 0)]"
    by (simp add: st3_def st2_def st1_def bind_one)
  define st4 where "st4 = st3\<lparr>ks_sets := sets4, ks_socks := (ks_socks st3)(3 \<mapsto> a)\<rparr>"
  obtain sets5 b where b: "kring_bind (ks_sets st4) krs_new (ring_addr KRING_RING_ID_ALL KRING_READ) 40 = Some (0, sets5, b)"
      "krs_ringset b = Some 0" "krs_ring_id b = KRING_RING_ID_ALL" "krs_mode b = KRING_READ"
      "rs_nrings (sets5 ! 0) = 2" "rs_params (sets5 ! 0) = kdata_params"
    unfolding st4_def using a(5) bind_all by (simp add: ring_taken_def two_rings_def kring_ringset_alloc_def)
  define st5 where "st5 = st4\<lparr>ks_sets := sets5, ks_socks := (ks_socks st4)(4 \<mapsto> b)\<rparr>"
  have r0: "kreach st0" unfolding st0_def by (rule kreach.start)
  have "kring_add_data_store ''ring'' 2 (ks_sets st0) = (0, two_rings)"
    by (simp add: kring_add_data_store_def st0_def two_rings_def)
  then have r1: "kreach st1" unfolding st1_def by (intro kreach.step [OF r0] kstep.add_data)
  have create: "kdata_sock_create True True SOCK_RAW htons_ETH_P_ALL = Inr krs_new"
    by (simp add: kdata_sock_create_def)
  have r2: "kreach st2"
    unfolding st2_def by (rule kreach.step [OF r1 kstep.create [OF _ create]]) (simp add: st1_def st0_def)
  have r3: "kreach st3"
    unfolding st3_def by (rule kreach.step [OF r2 kstep.create [OF _ create]]) (simp add: st2_def st1_def st0_def)
  have r4: "kreach st4"
    unfolding st4_def by (rule kreach.step [OF r3 kstep.bind [OF _ a(1)]]) (simp add: st3_def st2_def)
  have r5: "kreach st5"
    unfolding st5_def by (rule kreach.step [OF r4 kstep.bind [OF _ b(1)]]) (simp add: st4_def st3_def)
  show ?thesis
    using r5 a b by (intro exI [of _ st5] exI [of _ a] exI [of _ b]) (simp add: st5_def st4_def covers_def)
qed



text \<open>
  Closing a bound socket of a reachable state takes back exactly the id it held, on exactly the
  rings it covered, and never faults, except when a control ring set was opened for reading with
  ring id ALL: then the destructor indexes the ring array at -1.
\<close>

lemma close_returns_ids:
  assumes "kreach st" and "ks_socks st fd = Some krs" and "krs_ringset krs = Some s"
  shows "(if rs_params (ks_sets st ! s) = kctrl_params \<and> krs_ring_id krs = KRING_RING_ID_ALL
          then kring_sock_destruct (ks_sets st) krs = None
          else \<exists>r'. kring_sock_destruct (ks_sets st) krs = Some ((ks_sets st)[s := r']) \<and> revoke krs (ks_sets st ! s) r')"
proof -
  have inv: "ksys_inv st" by (rule kreach_inv [OF assms(1)])
  have ok: "s < length (ks_sets st)" "rw_mode (krs_mode krs)"
     "krs_ring_id krs = KRING_RING_ID_ALL \<and> krs_mode krs = KRING_READ \<or> 0 \<le> krs_ring_id krs"
    using ksys_invD(2) [OF inv assms(2)] assms(3) by (auto simp: sock_ok_def)
  have "set_ok (ks_sets st ! s)" using ksys_invD(1) [OF inv] ok by simp
  from destruct_revoke [OF assms(3) ok(2) this ok(3)] show ?thesis
    using assms(3) ok
    by (auto simp: kring_sock_destruct_def kctrl_params_def kctrl_destruct_def)
qed

lemma close_returns_ids_witness:
  "\<exists>st a r'. kreach st \<and> ks_socks st 3 = Some a \<and>
     kring_sock_destruct (ks_sets st) a = Some ((ks_sets st)[0 := r']) \<and> revoke a (ks_sets st ! 0) r'"
proof -
  obtain st a where st: "kreach st" "ks_socks st 3 = Some a" "krs_ringset a = Some 0"
      "rs_params (ks_sets st ! 0) = kdata_params"
    using reach_two_readers by blast
  from close_returns_ids [OF st(1-3)] st show ?thesis
    by (auto simp: kdata_params_def kctrl_params_def)
qed

text \<open>
  A socket that was never bound cannot be closed: the destructor follows the null pointer to its
  ring set. \<open>kring_open\<close> closes the socket in this state whenever \<open>bind\<close> fails.
\<close>

lemma close_unbound_faults: "kring_sock_destruct head krs_new = None"
  by (simp add: kring_sock_destruct_def krs_new_def)

text \<open>
  Mapping a ring of the set a socket is bound to: a region of an existing ring is mapped, a ring
  id beyond the number of rings is refused, and the ring id equal to the number of rings passes the
  check and makes the kernel read past the end of the ring array.
\<close>

lemma kring_sock_mmap_outcome:
  assumes "krs_ringset krs = Some s" and "rs_nrings (head ! s) = n" and "0 < n" and "n \<le> 32"
  shows "kring_sock_mmap head krs pgoff =
     (let ring_id = uint (fst (decon_pgoff pgoff)) in
      if ring_id < n then
        Some (Inr (if snd (decon_pgoff pgoff) = KRING_PGOFF_CTRL then Map_Ctrl s ring_id
                   else Map_Data s ring_id (p_npages (rs_params (head ! s)))))
      else if ring_id = n then None
      else Some (Inl (- EINVAL)))"
proof -
  have n: "uint (word_of_int n :: u64) = n" using assms by (simp add: unsigned_of_int take_bit_int_eq_self)
  obtain i g where d: "decon_pgoff pgoff = (i, g)" by fastforce
  have "i > word_of_int n \<longleftrightarrow> uint i > n" by (simp add: word_less_def n)
  with assms show ?thesis
    by (simp add: kring_sock_mmap_def d Let_def)
qed

lemma kring_sock_mmap_outcome_witness:
  "kring_sock_mmap two_rings (krs_new\<lparr>krs_ringset := Some 0\<rparr>) 2 = None"
  using kring_sock_mmap_outcome [of "krs_new\<lparr>krs_ringset := Some 0\<rparr>" 0 two_rings 2 2]
  by (simp add: two_rings_def kring_ringset_alloc_def decon_pgoff_def)

end
