(* ===== verification/Kring_Kern.thy ===== *)
theory Kring_Kern
  imports Kring_Sockets
begin

text \<open>
  The kernel side of the rings: \<open>kring_kopen\<close>, \<open>kring_kclose\<close> and the writer of network packets
  of \<open>src/kring/kdata.c\<close>. A packet longer than a page is written as a series of fragments.
\<close>

section \<open>Opening and closing\<close>

record kring_kern =
  kk_name :: string
  kk_ringset :: nat
  kk_ring_id :: int
  kk_user :: kring_user

text \<open>
  The handle is returned with the ring sets; on an error nothing is returned but the code. The
  writer id is kept in the user handle only.
\<close>

definition kring_kopen ::
    "kring_ringset list \<Rightarrow> KRING_TYPE \<Rightarrow> string \<Rightarrow> int \<Rightarrow> KRING_MODE \<Rightarrow>
     ((int + kring_kern) \<times> kring_ringset list) option" where
  "kring_kopen head type rsname ring_id mode =
     (let fail = Some (Inl (-1), head) in
      if type = KRING_DATA \<and> mode \<noteq> KRING_WRITE then fail
      else if type = KRING_CTRL \<and> mode \<noteq> KRING_READ then fail
      else if ring_id = KRING_RING_ID_ALL then fail
      else if type = KRING_CTRL \<and> ring_id \<noteq> 0 then fail
      else case kring_find_ring rsname head of
        None \<Rightarrow> fail
      | Some s \<Rightarrow>
          let r = head ! s in
          if ring_id < 0 \<or> ring_id \<ge> rs_nrings r then fail
          else
            case (if type = KRING_DATA \<and> mode = KRING_WRITE
                  then kring_allocate_writer_on_ring (rs_params r) (rs_ring r ring_id)
                  else kring_allocate_reader_on_ring (rs_params r) (rs_ring r ring_id)) of
              None \<Rightarrow> None
            | Some (i, ring') \<Rightarrow>
                let head' = head[s := upd_ring ring_id (\<lambda>_. ring') r] in
                if i < 0 then Some (Inl i, head')
                else
                  Some (Inr \<lparr>kk_name = kring_copy_name rsname, kk_ringset = s, kk_ring_id = ring_id,
                             kk_user = \<lparr>u_socket = -1, u_ring_id = ring_id, u_nrings = rs_nrings r,
                                        u_writer_id = (if type = KRING_DATA then i else -1),
                                        u_reader_id = (if type = KRING_DATA then -1 else i),
                                        u_mode = mode, u_krerr = 0, u_errno = 0\<rparr>\<rparr>, head'))"

text \<open>Closing counts a writer down, whatever the handle was, and gives no id back.\<close>

definition kring_kclose :: "kring_kern \<Rightarrow> kring_ringset list \<Rightarrow> int \<times> kring_ringset list" where
  "kring_kclose kring head =
     (0, head[kk_ringset kring := upd_ring (kk_ring_id kring) (\<lambda>ring. ring\<lparr>num_writers := num_writers ring - 1\<rparr>)
                                    (head ! kk_ringset kring)])"

section \<open>Writing packets\<close>

text \<open>
  One fragment: \<open>write\<close> bytes of the packet from \<open>offset\<close> on, with the number of bytes left as the
  length. \<open>skb_copy_bits\<close> copies from the packet; the caller keeps the range inside of it.
\<close>

definition packet_page :: "int \<Rightarrow> int \<Rightarrow> u8 list \<Rightarrow> page \<Rightarrow> page" where
  "packet_page dir len bytes pg =
     put_bytes sizeof_kdata_packet_header bytes (put_int 1 4 dir (put_int 4 0 len pg))"

definition kdata_write_single ::
    "kring_user \<Rightarrow> int \<Rightarrow> u8 list \<Rightarrow> int \<Rightarrow> int \<Rightarrow> int \<Rightarrow> kdata_rings \<Rightarrow> kdata_rings option" where
  "kdata_write_single u dir skb offset write len rs =
     (case kdata_write_with u (packet_page dir len (take (nat write) (drop (nat offset) skb))) rs of
        None \<Rightarrow> None
      | Some rs1 \<Rightarrow>
          Some (upd_control (u_ring_id u)
            (\<lambda>c. c\<lparr>kd_head := (kd_head c)\<lparr>head_produced := head_produced (kd_head c) + 1\<rparr>\<rparr>) rs1))"

text \<open>
  The loop of \<open>kdata_kwrite\<close>. It advances by at least one byte each time, up to the length of the
  packet.
\<close>

function kwrite_loop :: "kring_user \<Rightarrow> int \<Rightarrow> u8 list \<Rightarrow> int \<Rightarrow> kdata_rings \<Rightarrow> kdata_rings option" where
  "kwrite_loop u dir skb offset rs =
     (let len = int (length skb) - offset in
      if len \<le> 0 then Some rs
      else
        let write = (if len > kdata_packet_max_data then kdata_packet_max_data else len) in
        case kdata_write_single u dir skb offset write len rs of
          None \<Rightarrow> None
        | Some rs' \<Rightarrow> kwrite_loop u dir skb (offset + write) rs')"
  by pat_completeness auto

termination
  by (relation "measure (\<lambda>(u, dir, skb, offset, rs). nat (int (length skb) - offset))")
     (auto simp: kdata_packet_max_data_def)

definition kdata_kwrite :: "kring_user \<Rightarrow> int \<Rightarrow> u8 list \<Rightarrow> kdata_rings \<Rightarrow> kdata_rings option" where
  "kdata_kwrite u dir skb rs = kwrite_loop u dir skb 0 rs"

end
