(* ===== verification/Kring_Lib.thy ===== *)
theory Kring_Lib
  imports Kring_Kern
begin

text \<open>
  The user library: \<open>src/kring/libdata.c\<close>, \<open>src/kring/libctrl.c\<close> (its readers and writer of messages
  are in \<open>Kctrl\<close>) and \<open>src/kring/libkring.c\<close>. \<open>kring_open\<close> runs the system calls of \<open>Kring_Sets\<close>.
\<close>

section \<open>Errors\<close>

definition error_prefix :: "int \<Rightarrow> string" where
  "error_prefix err =
     (if err = KRING_ERR_SOCK then ''socket call failed''
      else if err = KRING_ERR_MMAP then ''mmap call failed''
      else if err = KRING_ERR_BIND then ''bind call failed''
      else if err = KRING_ERR_READER_ID then ''getsockopt(reader_id) call failed''
      else if err = KRING_ERR_WRITER_ID then ''getsockopt(writer_id) call failed''
      else if err = KRING_ERR_RING_N then ''getsockopt(ring_n) call failed''
      else if err = KRING_ERR_ENTER then ''exception in ring entry''
      else ''<unknown>'')"

text \<open>
  The size of the buffer and the string put into it, \<open>strerror\<close> being the C library's. With
  \<open>_errno = 0\<close> the variable \<open>errnostr\<close> is read without having been set: no result.
\<close>

definition kdata_error :: "(int \<Rightarrow> string) \<Rightarrow> kring_user \<Rightarrow> int \<Rightarrow> (nat \<times> string) option" where
  "kdata_error strerror u err =
     (let prefix = error_prefix err in
      if u_errno u \<noteq> 0
      then Some (length prefix + (2 + length (strerror (u_errno u))) + 1, prefix @ '': '' @ strerror (u_errno u))
      else None)"

definition kctrl_error :: "(int \<Rightarrow> string) \<Rightarrow> kring_user \<Rightarrow> int \<Rightarrow> (nat \<times> string) option" where
  "kctrl_error strerror u err =
     (let prefix = error_prefix err in
      if u_errno u \<noteq> 0
      then Some (length prefix + (2 + length (strerror (u_errno u))) + 1, prefix @ '': '' @ strerror (u_errno u))
      else None)"

section \<open>Opening a ring\<close>

definition cons_pgoff :: "u64 \<Rightarrow> u64 \<Rightarrow> u64" where
  "cons_pgoff ring_id region =
     ((push_bit KRING_PGOFF_ID_SHIFT ring_id AND KRING_PGOFF_ID_MASK) OR
      (push_bit KRING_PGOFF_REGION_SHIFT region AND KRING_PGOFF_REGION_MASK)) * of_nat KRING_PAGE_SIZE"

text \<open>The kernel sees the offset of a mapping in pages.\<close>

definition user_mmap :: "kring_ringset list \<Rightarrow> kring_sock \<Rightarrow> u64 \<Rightarrow> (int + vm_map) option" where
  "user_mmap head krs offset = kring_sock_mmap head krs (offset div of_nat KRING_PAGE_SIZE)"

definition upd_mem :: "nat \<Rightarrow> int \<Rightarrow> (kdata_control \<Rightarrow> kdata_control) \<Rightarrow> kring_ringset list \<Rightarrow> kring_ringset list" where
  "upd_mem s k f head = head[s := upd_ring k (\<lambda>ring. ring\<lparr>rg_mem := (case rg_mem ring of
       Data_Mem d \<Rightarrow> Data_Mem (d\<lparr>kr_control := f (kr_control d)\<rparr>)
     | Ctrl_Mem c \<Rightarrow> Ctrl_Mem c)\<rparr>) (head ! s)]"

text \<open>
  Both regions of ring \<open>ring_id\<close> are mapped, then a reader enters. The mapped control block is the
  one the kernel returns. \<open>kdata_prep_enter\<close> always returns 0, so its error branch is not taken.
\<close>

definition kdata_map_enter ::
    "kring_ringset list \<Rightarrow> kring_sock \<Rightarrow> kring_user \<Rightarrow> int \<Rightarrow> (int \<times> kring_user \<times> kring_ringset list) option" where
  "kdata_map_enter head krs u ring_id =
     (case user_mmap head krs (cons_pgoff (word_of_int ring_id) KRING_PGOFF_CTRL) of
        None \<Rightarrow> None
      | Some (Inl e) \<Rightarrow> Some (-1, u\<lparr>u_krerr := KRING_ERR_MMAP, u_errno := - e\<rparr>, head)
      | Some (Inr ctrl) \<Rightarrow>
          (case user_mmap head krs (cons_pgoff (word_of_int ring_id) KRING_PGOFF_DATA) of
             None \<Rightarrow> None
           | Some (Inl e) \<Rightarrow> Some (-1, u\<lparr>u_krerr := KRING_ERR_MMAP, u_errno := - e\<rparr>, head)
           | Some (Inr data) \<Rightarrow>
               (case ctrl of
                  Map_Data _ _ _ \<Rightarrow> None
                | Map_Ctrl s k \<Rightarrow>
                    Some (0, u, if u_mode u = KRING_READ
                                then upd_mem s k (\<lambda>c. snd (kdata_prep_enter c (u_reader_id u))) head
                                else head))))"

fun map_enter_all ::
    "kring_sock \<Rightarrow> int list \<Rightarrow> kring_ringset list \<Rightarrow> kring_user \<Rightarrow> (int \<times> kring_user \<times> kring_ringset list) option" where
  "map_enter_all krs [] head u = Some (0, u, head)"
| "map_enter_all krs (ctrl # ctrls) head u =
     (case kdata_map_enter head krs u ctrl of
        None \<Rightarrow> None
      | Some (res, u', head') \<Rightarrow> if res < 0 then Some (res, u', head') else map_enter_all krs ctrls head' u')"

definition kctrl_map_enter ::
    "kring_ringset list \<Rightarrow> kring_sock \<Rightarrow> kring_user \<Rightarrow> int \<Rightarrow> (int \<times> kring_user \<times> kring_ringset list) option" where
  "kctrl_map_enter head krs u ring_id =
     (case user_mmap head krs (cons_pgoff (word_of_int ring_id) KRING_PGOFF_CTRL) of
        None \<Rightarrow> None
      | Some (Inl e) \<Rightarrow> Some (-1, u\<lparr>u_krerr := KRING_ERR_MMAP, u_errno := - e\<rparr>, head)
      | Some (Inr ctrl) \<Rightarrow>
          (case user_mmap head krs (cons_pgoff (word_of_int ring_id) KRING_PGOFF_DATA) of
             None \<Rightarrow> None
           | Some (Inl e) \<Rightarrow> Some (-1, u\<lparr>u_krerr := KRING_ERR_MMAP, u_errno := - e\<rparr>, head)
           | Some (Inr data) \<Rightarrow> Some (0, u, head)))"

text \<open>The label \<open>err_close\<close>: the socket is closed, which runs its destructor.\<close>

definition err_close ::
    "kring_ringset list \<Rightarrow> kring_sock \<Rightarrow> kring_user \<Rightarrow> (int \<times> kring_user \<times> kring_sock option \<times> kring_ringset list) option" where
  "err_close head krs u =
     (case kring_sock_destruct head krs of None \<Rightarrow> None | Some head' \<Rightarrow> Some (u_krerr u, u, None, head'))"

text \<open>
  \<open>kring_open\<close>: \<open>fd\<close> is the descriptor a successful \<open>socket\<close> call returns, the two flags are those of
  \<open>kdata_sock_create\<close>. \<open>getsockopt\<close> is called with valid addresses and the length of an \<open>int\<close>.
\<close>

definition user_getsockopt :: "kring_ringset list \<Rightarrow> kring_sock \<Rightarrow> KR_OPT \<Rightarrow> (int + int option) option" where
  "user_getsockopt head krs optname = kring_getsockopt head krs SOL_PACKET optname (Some 4) True True"

definition kring_open ::
    "bool \<Rightarrow> bool \<Rightarrow> int \<Rightarrow> kring_ringset list \<Rightarrow> KRING_TYPE \<Rightarrow> string \<Rightarrow> int \<Rightarrow> KRING_MODE \<Rightarrow>
     (int \<times> kring_user \<times> kring_sock option \<times> kring_ringset list) option" where
  "kring_open cap_net_admin sk_allocated fd head type ringset ring_id mode =
     (let u0 = \<lparr>u_socket = 0, u_ring_id = 0, u_nrings = 0, u_writer_id = 0, u_reader_id = 0,
                u_mode = KRING_MODE_OTHER 0, u_krerr = 0, u_errno = 0\<rparr> in
      case kdata_sock_create cap_net_admin sk_allocated SOCK_RAW htons_ETH_P_ALL of
        Inl e \<Rightarrow> Some (KRING_ERR_SOCK, u0\<lparr>u_socket := -1, u_krerr := KRING_ERR_SOCK, u_errno := - e\<rparr>, None, head)
      | Inr krs \<Rightarrow>
          let u1 = u0\<lparr>u_socket := fd, u_ring_id := ring_id, u_mode := mode\<rparr>;
              addr = \<lparr>addr_name = kring_copy_name ringset, addr_ring_id = ring_id, addr_mode = mode\<rparr> in
          case kring_bind head krs addr sizeof_kring_addr of
            None \<Rightarrow> None
          | Some (res, head1, krs1) \<Rightarrow>
              if res < 0 then err_close head1 krs1 (u1\<lparr>u_krerr := KRING_ERR_BIND, u_errno := - res\<rparr>)
              else
                case (user_getsockopt head1 krs1 KR_OPT_RING_N, user_getsockopt head1 krs1 KR_OPT_WRITER_ID,
                      user_getsockopt head1 krs1 KR_OPT_READER_ID) of
                  (Some (Inr (Some ring_N)), Some (Inr (Some writer_id)), Some (Inr (Some reader_id))) \<Rightarrow>
                    let u2 = u1\<lparr>u_nrings := ring_N, u_writer_id := writer_id, u_reader_id := reader_id\<rparr> in
                    (case (case type of
                             KRING_DATA \<Rightarrow>
                               if ring_id \<noteq> KDATA_RING_ID_ALL then kdata_map_enter head1 krs1 u2 ring_id
                               else map_enter_all krs1 [0..ring_N - 1] head1 u2
                           | KRING_CTRL \<Rightarrow> kctrl_map_enter head1 krs1 u2 0) of
                       None \<Rightarrow> None
                     | Some (res, u3, head2) \<Rightarrow>
                         if res < 0 then err_close head2 krs1 u3 else Some (0, u3, Some krs1, head2))
                | _ \<Rightarrow> None)"

section \<open>Writing and waiting\<close>

text \<open>The host name: \<open>strncpy\<close> into 63 bytes, the last of which is then cleared.\<close>

definition host_bytes :: "u8 list \<Rightarrow> u8 list" where
  "host_bytes host =
     (let s = take 63 (takeWhile (\<lambda>b. b \<noteq> 0) host) in (s @ replicate (63 - length s) 0)[62 := 0])"

definition put_host :: "u8 list option \<Rightarrow> page \<Rightarrow> page" where
  "put_host remoteHost pg =
     (case remoteHost of None \<Rightarrow> put_bytes 17 [0] pg | Some host \<Rightarrow> put_bytes 17 (host_bytes host) pg)"

definition kdata_write_decrypted ::
    "kring_user \<Rightarrow> int \<Rightarrow> int \<Rightarrow> u8 list option \<Rightarrow> u8 list \<Rightarrow> int \<Rightarrow> kdata_rings \<Rightarrow> (int \<times> kdata_rings) option" where
  "kdata_write_decrypted u did type remoteHost data len rs =
     (let len = (if len > kdata_decrypted_max_data then kdata_decrypted_max_data else len) in
      case kdata_write_with u
             (\<lambda>pg. put_bytes sizeof_kdata_decrypted_header (take (nat len) data)
                (put_host remoteHost (put_int 1 16 type (put_int 8 8 did (put_int 4 0 len pg))))) rs of
        None \<Rightarrow> None | Some rs' \<Rightarrow> Some (0, rs'))"

definition kdata_write_plain :: "kring_user \<Rightarrow> u8 list \<Rightarrow> int \<Rightarrow> kdata_rings \<Rightarrow> (int \<times> kdata_rings) option" where
  "kdata_write_plain u data len rs =
     (let len = (if len > kdata_plain_max_data then kdata_plain_max_data else len) in
      case kdata_write_with u
             (\<lambda>pg. put_bytes sizeof_kdata_plain_header (take (nat len) data) (put_int 4 0 len pg)) rs of
        None \<Rightarrow> None | Some rs' \<Rightarrow> Some (0, rs'))"

text \<open>\<open>recv\<close> returned \<open>ret\<close> and left \<open>err\<close> in \<open>errno\<close>.\<close>

definition kdata_read_wait :: "int \<Rightarrow> int \<Rightarrow> int" where
  "kdata_read_wait ret err = (if ret = -1 \<and> err = EINTR then 0 else ret)"

definition kctrl_read_wait :: "int \<Rightarrow> int \<Rightarrow> int" where
  "kctrl_read_wait ret err = (if ret = -1 \<and> err = EINTR then 0 else ret)"

end
