(* ===== verification/Kdata_Messages.thy ===== *)
theory Kdata_Messages
  imports Kring_Lib
begin

text \<open>
  Messages on the data ring, from the writers of \<open>Kring_Lib\<close> and \<open>Kring_Kern\<close> to the readers of
  \<open>Kdata\<close>: the queue of a single reader, packets in fragments, the behaviour with several readers,
  and what \<open>kring_open\<close> establishes.
\<close>

section \<open>Handles on one ring\<close>

definition user_on :: "int \<Rightarrow> kring_user \<Rightarrow> bool" where
  "user_on i u = (u_ring_id u = i \<and> i \<noteq> KDATA_RING_ID_ALL)"

lemma user_on_ix: "user_on i u \<Longrightarrow> ring_ix u ctrl = i"
  by (simp add: user_on_def ring_ix_def)

lemma page_data_on: "user_on i u \<Longrightarrow> kdata_page_data u ctrl off = (i, off)"
  by (simp add: kdata_page_data_def user_on_ix)

lemma select_on: "user_on i u \<Longrightarrow> kdata_select_ctrl u rs = 0"
  by (simp add: kdata_select_ctrl_def user_on_def)

lemma avail_on: "user_on i u \<Longrightarrow> kdata_avail u rs = kdata_avail_impl (kr_control (rs i)) (u_reader_id u)"
  using user_on_ix [of i u] by (simp add: kdata_avail_def user_on_def)

lemma next_generic_on:
  assumes on: "user_on i u" and inv: "kdata_inv A (kr_control (rs i))" and rid: "u_reader_id u \<in> {0..<6}"
  shows "kdata_next_generic u rs =
     Some ((i, kdata_next (r_rhead (kd_reader (kr_control (rs i)) (u_reader_id u)))),
           upd_control i (\<lambda>c. taken c (u_reader_id u)) rs)"
proof -
  have "kd_desc (kr_control (rs i)) (kdata_next (r_rhead (kd_reader (kr_control (rs i)) (u_reader_id u))))
         AND KDATA_DSC_WRITER_OWNED = 0"
    using inv by (simp add: kdata_inv_def)
  then show ?thesis
    using next_generic_taken [of u rs 0 i "u_reader_id u"] select_on [OF on] user_on_ix [OF on]
    by (simp add: page_data_on [OF on])
qed

text \<open>A write when the page after the write head is free.\<close>

lemma write_with_next:
  assumes on: "user_on i u" and free: "page_free (kd_desc (kr_control (rs i)) (kdata_next (head_whead (kd_head (kr_control (rs i))))))"
  shows "kdata_write_with u f rs =
    (let c = kr_control (rs i); loc = kdata_next (head_whead (kd_head c)) in
     Some (rs(i := (rs i)\<lparr>kr_control := written c 0, kr_page := (kr_page (rs i))(loc := f (kr_page (rs i) loc))\<rparr>)))"
  using write_with_first [of rs u 0 f] free user_on_ix [OF on]
  by (simp add: first_free_after_def Let_def)

text \<open>The data a reader has still to read, page by page.\<close>

definition kdata_unread :: "kdata_ring \<Rightarrow> int \<Rightarrow> page list" where
  "kdata_unread r rid = map (kr_page r) (kdata_pending (kr_control r) rid)"

definition room_for :: "kdata_control \<Rightarrow> int \<Rightarrow> bool" where
  "room_for c rid = (kdata_next (head_whead (kd_head c)) \<noteq> r_rhead (kd_reader c rid))"

lemma unread_written:
  assumes inv: "kdata_inv A (kr_control r)" and rid: "rid \<in> {0..<6}" and room: "room_for (kr_control r) rid"
    and loc: "loc = kdata_next (head_whead (kd_head (kr_control r)))"
  shows "kdata_unread (r\<lparr>kr_control := written (kr_control r) 0, kr_page := (kr_page r)(loc := pg)\<rparr>) rid
     = kdata_unread r rid @ [pg]"
proof -
  have "loc \<notin> set (kdata_pending (kr_control r) rid)"
    using pending_written(2) [OF inv rid] room by (simp add: room_for_def loc)
  then have "map ((kr_page r)(loc := pg)) (kdata_pending (kr_control r) rid) = kdata_unread r rid"
    by (auto simp: kdata_unread_def)
  then show ?thesis
    using pending_written(1) [OF inv rid] room by (simp add: kdata_unread_def room_for_def loc)
qed

lemma unread_taken:
  assumes "kdata_inv A (kr_control r)" "rid \<in> {0..<6}" "kdata_unread r rid \<noteq> []"
  shows "kdata_unread r rid = kr_page r (kdata_next (r_rhead (kd_reader (kr_control r) rid)))
      # kdata_unread (r\<lparr>kr_control := taken (kr_control r) rid\<rparr>) rid"
proof -
  have "kdata_pending (kr_control r) rid \<noteq> []" using assms(3) by (simp add: kdata_unread_def)
  from pending_taken [OF assms(1,2) this] show ?thesis by (simp add: kdata_unread_def)
qed

lemma pend_count_room:
  assumes inv: "kdata_inv A c" and rid: "rid \<in> {0..<6}" and few: "length (kdata_pending c rid) < 2047"
  shows "room_for c rid"
  unfolding room_for_def
proof
  assume eq: "kdata_next (head_whead (kd_head c)) = r_rhead (kd_reader c rid)"
  define w where "w = head_whead (kd_head c)"
  have w: "w < 2048" using inv by (simp add: w_def kdata_inv_def)
  then have wn: "unat w < 2048" by (simp add: word_less_nat_alt)
  have r: "unat (r_rhead (kd_reader c rid)) = Suc (unat w) mod 2048"
    using unat_kdata_next [OF w] eq by (simp add: w_def)
  have "pend_count c rid = (unat w + (2048 - Suc (unat w) mod 2048)) mod 2048"
    by (simp only: pend_count_def r w_def)
  also have "\<dots> = 2047"
    using wn by (cases "unat w = 2047") simp_all
  finally show False using few by (simp add: kdata_pending_def)
qed

lemma page_free_single:
  assumes "kdata_inv {rid} c" "room_for c rid"
  shows "page_free (kd_desc c (kdata_next (head_whead (kd_head c))))"
  using assms by (subst inv_free [OF assms(1)]) (auto simp: room_for_def)

text \<open>One writer and one reader of plain messages on one ring.\<close>

definition kdata_rep :: "kring_user \<Rightarrow> kring_user \<Rightarrow> kdata_rings \<Rightarrow> u8 list list \<Rightarrow> bool" where
  "kdata_rep uw ur rs q = (user_on (u_ring_id uw) uw \<and> user_on (u_ring_id uw) ur \<and> u_reader_id ur \<in> {0..<6}
     \<and> kdata_inv {u_reader_id ur} (kr_control (rs (u_ring_id uw)))
     \<and> q = map plain_msg (kdata_unread (rs (u_ring_id uw)) (u_reader_id ur)))"

definition kdata_send :: "kring_user \<Rightarrow> u8 list \<Rightarrow> kdata_rings \<Rightarrow> kdata_rings option" where
  "kdata_send u m rs = map_option snd (kdata_write_plain u m (int (length m)) rs)"

definition kdata_recv :: "kring_user \<Rightarrow> kdata_rings \<Rightarrow> (u8 list \<times> kdata_rings) option" where
  "kdata_recv u rs = map_option
     (\<lambda>(p, rs'). (case pl_bytes p of (i, off, at) \<Rightarrow> get_bytes at (nat (pl_len p)) (kr_page (rs' i) off), rs'))
     (kdata_next_plain u rs)"

lemma kdata_send_rep:
  assumes rep: "kdata_rep uw ur rs q" and ok: "length m \<le> 4092" and room: "length q < 2047"
  shows "\<exists>rs'. kdata_send uw m rs = Some rs' \<and> kdata_rep uw ur rs' (q @ [m])"
proof -
  define i where "i = u_ring_id uw"
  define rid where "rid = u_reader_id ur"
  define c where "c = kr_control (rs i)"
  have on: "user_on i uw" "user_on i ur" and rid: "rid \<in> {0..<6}" and inv: "kdata_inv {rid} c"
    and q: "q = map plain_msg (kdata_unread (rs i) rid)"
    using rep by (auto simp: kdata_rep_def i_def rid_def c_def)
  have rm: "room_for c rid"
    using pend_count_room [OF inv rid] room by (simp add: q kdata_unread_def c_def)
  define loc where "loc = kdata_next (head_whead (kd_head c))"
  define pg where "pg = put_bytes 4 m (put_int 4 0 (int (length m)) (kr_page (rs i) loc))"
  define r' where "r' = (rs i)\<lparr>kr_control := written c 0, kr_page := (kr_page (rs i))(loc := pg)\<rparr>"
  have "kdata_write_plain uw m (int (length m)) rs = Some (0, rs(i := r'))"
    using write_with_next [of i uw rs] on(1) page_free_single [OF inv rm] ok
    by (simp add: kdata_write_plain_def kdata_plain_max_data_def Let_def c_def loc_def pg_def r'_def)
  moreover have "kdata_unread r' rid = kdata_unread (rs i) rid @ [pg]"
    using unread_written [OF inv [unfolded c_def] rid rm [unfolded c_def]] by (simp add: r'_def c_def loc_def)
  then have "map plain_msg (kdata_unread r' rid) = q @ [m]"
    using ok by (simp add: q pg_def plain_msg_put)
  moreover have "kdata_inv {rid} (kr_control r')" by (simp add: r'_def written_inv [OF inv])
  ultimately show ?thesis
    using on rid by (simp add: kdata_send_def kdata_rep_def i_def [symmetric] rid_def [symmetric])
qed

lemma kdata_recv_rep:
  assumes rep: "kdata_rep uw ur rs (m # q)"
  shows "\<exists>rs'. kdata_recv ur rs = Some (m, rs') \<and> kdata_rep uw ur rs' q"
proof -
  define i where "i = u_ring_id uw"
  define rid where "rid = u_reader_id ur"
  define c where "c = kr_control (rs i)"
  have on: "user_on i uw" "user_on i ur" and rid: "rid \<in> {0..<6}" and inv: "kdata_inv {rid} c"
    and q: "m # q = map plain_msg (kdata_unread (rs i) rid)"
    using rep by (auto simp: kdata_rep_def i_def rid_def c_def)
  define off where "off = kdata_next (r_rhead (kd_reader c rid))"
  have "kdata_unread (rs i) rid \<noteq> []" using q by auto
  from unread_taken [OF inv [unfolded c_def] rid this] q
  have mq: "m = plain_msg (kr_page (rs i) off)"
      "q = map plain_msg (kdata_unread ((rs i)\<lparr>kr_control := taken c rid\<rparr>) rid)"
    by (auto simp: off_def c_def)
  have "kdata_next_generic ur rs = Some ((i, off), upd_control i (\<lambda>c. taken c rid) rs)"
    using next_generic_on [of i ur "{rid}" rs] on(2) inv rid by (simp add: rid_def off_def c_def)
  then have "kdata_recv ur rs = Some (m, upd_control i (\<lambda>c. taken c rid) rs)"
    by (simp add: kdata_recv_def kdata_next_plain_def mq plain_msg_def)
  moreover have "kdata_rep uw ur (upd_control i (\<lambda>c. taken c rid) rs) q"
    using on rid mq(2) taken_inv [OF inv rid]
    by (simp add: kdata_rep_def i_def [symmetric] rid_def [symmetric] c_def upd_control_def)
  ultimately show ?thesis by blast
qed

interpretation dq: bounded_fifo "kdata_rep uw ur" "\<lambda>m. length m \<le> 4092" 2047 "kdata_avail ur" "kdata_send uw" "kdata_recv ur"
  for uw ur
proof (unfold_locales, goal_cases)
  case (1 s q m)
  then show ?case by (rule kdata_send_rep)
next
  case (2 s m q)
  then show ?case by (rule kdata_recv_rep)
next
  case (3 s q)
  then have on: "user_on (u_ring_id uw) ur" by (simp add: kdata_rep_def)
  with 3 show ?case
    using avail_pending [of "{u_reader_id ur}" "kr_control (s (u_ring_id uw))" "u_reader_id ur"]
    by (auto simp: kdata_rep_def avail_on kdata_unread_def)
qed

section \<open>Packets in fragments\<close>

definition packet_view :: "page \<Rightarrow> int \<times> int \<times> u8 list" where
  "packet_view pg = (let len = get_sint 4 0 pg in
     (get_sint 1 4 pg, len, get_bytes 8 (nat (min len kdata_packet_max_data)) pg))"

function fragments :: "int \<Rightarrow> u8 list \<Rightarrow> (int \<times> int \<times> u8 list) list" where
  "fragments dir skb = (if skb = [] then [] else (dir, int (length skb), take 4088 skb) # fragments dir (drop 4088 skb))"
  by pat_completeness auto

termination
  by (relation "measure (\<lambda>(dir, skb). length skb)") auto

declare fragments.simps [simp del] kwrite_loop.simps [simp del]

lemma concat_fragments: "concat (map (\<lambda>(dir, len, bytes). bytes) (fragments dir skb)) = skb"
proof (induction dir skb rule: fragments.induct)
  case (1 dir skb)
  then show ?case by (subst fragments.simps) auto
qed

lemma length_fragments: "length (fragments dir skb) = (length skb + 4087) div 4088"
proof (induction dir skb rule: fragments.induct)
  case (1 dir skb)
  show ?case
  proof (cases "skb = []")
    case True
    then show ?thesis by (simp add: fragments.simps)
  next
    case False
    then have "length (fragments dir skb) = Suc ((length skb - 4088 + 4087) div 4088)"
      using 1 by (subst fragments.simps) simp
    also have "\<dots> = (length skb + 4087) div 4088"
    proof (cases "length skb \<le> 4088")
      case True
      moreover have "0 < length skb" using False by simp
      ultimately have "length skb + 4087 = 4088 + (length skb - 1)" "length skb - 1 < 4088" by auto
      then have "(length skb + 4087) div 4088 = 1" by simp
      with True show ?thesis by simp
    next
      case False
      then have "length skb + 4087 = 4088 + (length skb - 4088 + 4087)" by simp
      then show ?thesis by (simp only: div_add_self1)
    qed
    finally show ?thesis .
  qed
qed

lemma packet_view_page:
  assumes "0 < len" "len < 2 ^ 31" "-128 \<le> dir" "dir < 128" "length bytes = nat (min len kdata_packet_max_data)"
  shows "packet_view (packet_page dir len bytes pg) = (dir, len, bytes)"
proof -
  have len: "get_sint 4 0 (packet_page dir len bytes pg) = len"
    using assms by (simp add: packet_page_def page_access)
  have "get_sint 1 4 (packet_page dir len bytes pg) = dir"
    using assms by (simp add: packet_page_def page_access)
  moreover have "get_bytes 8 (nat (min len kdata_packet_max_data)) (packet_page dir len bytes pg) = bytes"
    using assms(5) by (simp add: packet_page_def page_access)
  ultimately show ?thesis by (simp add: packet_view_def len)
qed

text \<open>A ring with one reader, \<open>vs\<close> being what it has still to read.\<close>

definition packets_unread :: "int \<Rightarrow> int \<Rightarrow> kdata_rings \<Rightarrow> (int \<times> int \<times> u8 list) list \<Rightarrow> bool" where
  "packets_unread i rid rs vs = (rid \<in> {0..<6} \<and> kdata_inv {rid} (kr_control (rs i))
     \<and> vs = map packet_view (kdata_unread (rs i) rid))"

definition add_produced :: "nat \<Rightarrow> kdata_control \<Rightarrow> kdata_control" where
  "add_produced n c = c\<lparr>kd_head := (kd_head c)\<lparr>head_produced := head_produced (kd_head c) + of_nat n\<rparr>\<rparr>"

lemma add_produced_simps [simp]:
  "head_whead (kd_head (add_produced n c)) = head_whead (kd_head c)" "kd_desc (add_produced n c) = kd_desc c"
  "kd_reader (add_produced n c) = kd_reader c" "kdata_inv A (add_produced n c) = kdata_inv A c"
  "kdata_pending (add_produced n c) rid = kdata_pending c rid"
  by (simp_all add: add_produced_def kdata_inv_def reader_ok_def kdata_pending_def pend_count_def)

lemma write_single_unread:
  assumes on: "user_on i u" and un: "packets_unread i rid rs vs" and room: "length vs < 2047"
    and len: "0 < len" "len < 2 ^ 31" "-128 \<le> dir" "dir < 128"
    and wr: "wr = min len kdata_packet_max_data" "0 \<le> offset" "offset + len = int (length skb)"
  shows "\<exists>rs'. kdata_write_single u dir skb offset wr len rs = Some rs' \<and>
     packets_unread i rid rs' (vs @ [(dir, len, take (nat wr) (drop (nat offset) skb))])
     \<and> head_produced (kd_head (kr_control (rs' i))) = head_produced (kd_head (kr_control (rs i))) + 1"
proof -
  define c where "c = kr_control (rs i)"
  define loc where "loc = kdata_next (head_whead (kd_head c))"
  define bytes where "bytes = take (nat wr) (drop (nat offset) skb)"
  define pg where "pg = packet_page dir len bytes (kr_page (rs i) loc)"
  have rid: "rid \<in> {0..<6}" and inv: "kdata_inv {rid} c" and vs: "vs = map packet_view (kdata_unread (rs i) rid)"
    using un by (simp_all add: packets_unread_def c_def)
  have rm: "room_for c rid"
    using pend_count_room [OF inv rid] room by (simp add: vs kdata_unread_def c_def)
  define r1 where "r1 = (rs i)\<lparr>kr_control := written c 0, kr_page := (kr_page (rs i))(loc := pg)\<rparr>"
  have w: "kdata_write_with u (packet_page dir len bytes) rs = Some (rs(i := r1))"
    using write_with_next [of i u rs] on page_free_single [OF inv rm]
    by (simp add: c_def loc_def pg_def r1_def Let_def)
  define r2 where "r2 = r1\<lparr>kr_control := add_produced 1 (written c 0)\<rparr>"
  have "kdata_write_single u dir skb offset wr len rs = Some (rs(i := r2))"
    using on by (simp add: kdata_write_single_def bytes_def [symmetric] w upd_control_def user_on_def
        r2_def r1_def add_produced_def)
  moreover have "kdata_unread r1 rid = kdata_unread (rs i) rid @ [pg]"
    using unread_written [OF inv [unfolded c_def] rid rm [unfolded c_def]] by (simp add: r1_def c_def loc_def)
  then have "kdata_unread r2 rid = kdata_unread (rs i) rid @ [pg]"
    by (simp add: kdata_unread_def r2_def r1_def)
  moreover have "packet_view pg = (dir, len, bytes)"
    using len wr by (auto simp: pg_def bytes_def intro!: packet_view_page)
  moreover have "kdata_inv {rid} (kr_control r2)" by (simp add: r2_def written_inv [OF inv])
  moreover have "head_produced (kd_head (kr_control r2)) = head_produced (kd_head c) + 1"
    by (simp add: r2_def add_produced_def)
  ultimately show ?thesis
    using rid by (simp add: packets_unread_def vs bytes_def c_def)
qed

lemma kwrite_loop_unread:
  "user_on i u \<Longrightarrow> packets_unread i rid rs vs \<Longrightarrow> 0 \<le> offset \<Longrightarrow> int (length skb) < 2 ^ 31 \<Longrightarrow>
   -128 \<le> dir \<Longrightarrow> dir < 128 \<Longrightarrow> length vs + length (fragments dir (drop (nat offset) skb)) \<le> 2047 \<Longrightarrow>
   \<exists>rs'. kwrite_loop u dir skb offset rs = Some rs' \<and>
     packets_unread i rid rs' (vs @ fragments dir (drop (nat offset) skb)) \<and>
     head_produced (kd_head (kr_control (rs' i))) =
       head_produced (kd_head (kr_control (rs i))) + of_nat (length (fragments dir (drop (nat offset) skb)))"
proof (induction u dir skb offset rs arbitrary: vs rule: kwrite_loop.induct)
  case (1 u dir skb offset rs)
  define len where "len = int (length skb) - offset"
  show ?case
  proof (cases "len \<le> 0")
    case True
    then have "drop (nat offset) skb = []" using "1.prems" by (simp add: len_def)
    with True "1.prems" show ?thesis
      by (simp add: kwrite_loop.simps [of u dir skb offset] fragments.simps len_def)
  next
    case False
    define wr where "wr = min len kdata_packet_max_data"
    define d where "d = drop (nat offset) skb"
    have d: "d \<noteq> []" "int (length d) = len" using False "1.prems"(3) by (auto simp: d_def len_def)
    have fr: "fragments dir d = (dir, len, take 4088 d) # fragments dir (drop 4088 d)"
      using d by (subst fragments.simps) simp
    have tk: "take (nat wr) d = take 4088 d"
      using d(2) by (simp add: wr_def kdata_packet_max_data_def min_def)
    have dr: "drop 4088 d = drop (nat (offset + wr)) skb"
    proof (cases "len \<le> 4088")
      case True
      then show ?thesis using d "1.prems"(3) by (simp add: wr_def kdata_packet_max_data_def min_def len_def)
    next
      case nle: False
      then show ?thesis
        using "1.prems"(3) by (simp add: d_def wr_def kdata_packet_max_data_def min_def nat_add_distrib add.commute)
    qed
    have wr: "wr = (if len > kdata_packet_max_data then kdata_packet_max_data else len)" "0 \<le> offset + wr"
      using "1.prems"(3) False by (auto simp: wr_def min_def kdata_packet_max_data_def)
    have "offset + len = int (length skb)" by (simp add: len_def)
    then obtain rs1 where rs1: "kdata_write_single u dir skb offset wr len rs = Some rs1"
        "packets_unread i rid rs1 (vs @ [(dir, len, take 4088 d)])"
        "head_produced (kd_head (kr_control (rs1 i))) = head_produced (kd_head (kr_control (rs i))) + 1"
      using write_single_unread [of i u rid rs vs len dir wr offset skb, folded d_def, unfolded tk]
        "1.prems" [folded d_def, unfolded fr] False wr_def by auto
    have room: "length (vs @ [(dir, len, take 4088 d)]) + length (fragments dir (drop (nat (offset + wr)) skb)) \<le> 2047"
      using "1.prems"(7) [folded d_def, unfolded fr] by (simp add: dr)
    from "1.IH" [OF len_def False wr(1) rs1(1) "1.prems"(1) rs1(2) wr(2) "1.prems"(4-6) room]
    obtain rs2 where "kwrite_loop u dir skb (offset + wr) rs1 = Some rs2"
       "packets_unread i rid rs2 ((vs @ [(dir, len, take 4088 d)]) @ fragments dir (drop 4088 d))"
       "head_produced (kd_head (kr_control (rs2 i))) = head_produced (kd_head (kr_control (rs1 i)))
         + of_nat (length (fragments dir (drop 4088 d)))"
      by (auto simp: dr)
    moreover have "kwrite_loop u dir skb offset rs = kwrite_loop u dir skb (offset + wr) rs1"
      using False rs1(1) by (subst kwrite_loop.simps) (simp add: Let_def len_def [symmetric] wr(1) [symmetric])
    ultimately show ?thesis
      using rs1(3) unfolding d_def [symmetric] fr by simp
  qed
qed

section \<open>A fresh ring\<close>

definition kdata_fresh :: kdata_ring where
  "kdata_fresh = kdata_zeroed\<lparr>kr_control := kdata_init_control (kr_control kdata_zeroed)\<rparr>"

lemma kdata_fresh_inv: "kdata_inv {} (kr_control kdata_fresh)"
  by (simp add: kdata_inv_def reader_ok_def kdata_fresh_def kdata_zeroed_def kdata_init_control_def
      kdata_prev_def set_whead_def set_wresv_def reader_has_def)

text \<open>Rings that reader \<open>rid\<close> has just entered.\<close>

definition entered_rings :: "int \<Rightarrow> kdata_rings" where
  "entered_rings rid = (\<lambda>_. kdata_fresh\<lparr>kr_control := snd (kdata_prep_enter (kr_control kdata_fresh) rid)\<rparr>)"

lemma entered_inv: "kdata_inv {rid} (kr_control (entered_rings rid i))"
  using prep_enter_inv(1) [OF kdata_fresh_inv, of rid] by (simp add: entered_rings_def)

lemma entered_unread: "kdata_unread (entered_rings rid i) rid = []"
  using prep_enter_inv(2) [OF kdata_fresh_inv, of rid] by (simp add: entered_rings_def kdata_unread_def)

definition user_handle :: "int \<Rightarrow> int \<Rightarrow> KRING_MODE \<Rightarrow> kring_user" where
  "user_handle ring rid mode = \<lparr>u_socket = 3, u_ring_id = ring, u_nrings = 2, u_writer_id = 0, u_reader_id = rid,
     u_mode = mode, u_krerr = 0, u_errno = 0\<rparr>"

section \<open>Properties\<close>

text \<open>
  (C2) A data ring with one reader is a bounded FIFO queue of messages: for every schedule of
  \<open>kdata_write_plain\<close> and \<open>kdata_next_plain\<close> calls whose messages fit a page and that never leaves
  more than 2047 messages unread, every call returns, and the messages read, followed by the ones
  still unread, are the ones unread before followed by the ones written.
\<close>

theorem kdata_in_order:
  assumes "kdata_rep uw ur rs q" and "\<forall>m \<in> set (fifo_sends es). length m \<le> 4092"
    and "fifo_fits 2047 (length q) es"
  shows "\<exists>out t q'. fifo_run (kdata_avail ur) (kdata_send uw) (kdata_recv ur) rs es = Some (out, t)
           \<and> kdata_rep uw ur t q' \<and> q @ fifo_sends es = out @ q'"
  using assms by (rule dq.run_in_order)

lemma entered_rep: "kdata_rep (user_handle 0 0 KRING_WRITE) (user_handle 0 2 KRING_READ) (entered_rings 2) []"
  using entered_inv [of 2 0] entered_unread [of 2 0]
  by (simp add: kdata_rep_def user_handle_def user_on_def)

lemma kdata_in_order_witness:
  "\<exists>out t q'. fifo_run (kdata_avail (user_handle 0 2 KRING_READ)) (kdata_send (user_handle 0 0 KRING_WRITE))
      (kdata_recv (user_handle 0 2 KRING_READ)) (entered_rings 2) [Send [1, 2], Recv, Send [3]] = Some (out, t)
     \<and> kdata_rep (user_handle 0 0 KRING_WRITE) (user_handle 0 2 KRING_READ) t q' \<and> [[1, 2], [3]] = out @ q'"
  using kdata_in_order [OF entered_rep, of "[Send [1, 2], Recv, Send [3]]"] by simp

text \<open>
  (C24) \<open>kdata_kwrite\<close> returns and delivers a packet of any length to the reader as fragments: each
  carries the direction, the number of bytes left and at most 4088 bytes; the fragments concatenate
  to the packet, there are as many as the length needs, and \<open>produced\<close> counts them.
\<close>

theorem kdata_kwrite_fragments:
  assumes "user_on i u" and "packets_unread i rid rs vs" and "int (length skb) < 2 ^ 31"
    and "-128 \<le> dir" and "dir < 128" and "length vs + (length skb + 4087) div 4088 \<le> 2047"
  shows "\<exists>rs' frags. kdata_kwrite u dir skb rs = Some rs' \<and> packets_unread i rid rs' (vs @ frags) \<and>
     concat (map (\<lambda>(dir, len, bytes). bytes) frags) = skb \<and> length frags = (length skb + 4087) div 4088 \<and>
     frags = fragments dir skb \<and>
     head_produced (kd_head (kr_control (rs' i))) = head_produced (kd_head (kr_control (rs i))) + of_nat (length frags)"
  using kwrite_loop_unread [of i u rid rs vs 0 skb dir] assms
  by (simp add: kdata_kwrite_def concat_fragments length_fragments)

lemma kdata_kwrite_fragments_witness:
  "\<exists>rs' frags. kdata_kwrite (user_handle 1 0 KRING_WRITE) KDATA_DIR_OUTSIDE (replicate 5000 7) (entered_rings 2) = Some rs'
     \<and> packets_unread 1 2 rs' frags \<and> length frags = 2"
proof -
  have "user_on 1 (user_handle 1 0 KRING_WRITE)" by (simp add: user_on_def user_handle_def)
  moreover have "packets_unread 1 2 (entered_rings 2) []"
    using entered_inv [of 2 1] entered_unread [of 2 1] by (simp add: packets_unread_def)
  ultimately show ?thesis
    using kdata_kwrite_fragments [of 1 "user_handle 1 0 KRING_WRITE" 2 "entered_rings 2" "[]" "replicate 5000 7" KDATA_DIR_OUTSIDE]
    by auto
qed

text \<open>
  (C36) A write to a ring always returns, with any set of active readers: it takes the first page after
  the write head that no reader holds, at most six pages on, changes no other page, and keeps the
  invariant of the ownership bits. Each page passed over is held by an active reader, and each reader
  is charged one skip for each page of its own that was passed over.
\<close>

theorem kdata_write_total:
  assumes inv: "kdata_inv A (kr_control (rs i))" and on: "user_on i u" and len: "0 \<le> len"
  shows "\<exists>k \<le> 6. \<exists>r'. kdata_write_plain u data len rs = Some (0, rs(i := r')) \<and> kdata_inv A (kr_control r') \<and>
     (let c = kr_control (rs i); loc = write_pos c k in
      head_whead (kd_head (kr_control r')) = loc \<and> page_free (kd_desc c loc) \<and>
      (\<forall>y \<in> set (write_skips c k). \<exists>rid \<in> A. r_entered (kd_reader c rid) \<noteq> 0 \<and> r_rhead (kd_reader c rid) = y) \<and>
      (\<forall>off. off \<noteq> loc \<longrightarrow> kr_page r' off = kr_page (rs i) off) \<and>
      get_sint 4 0 (kr_page r' loc) = min len kdata_plain_max_data \<and>
      (\<forall>rid \<in> {0..<6}. kd_reader (kr_control r') rid =
         add_skip (length (filter (\<lambda>x. reader_has rid (kd_desc c x)) (write_skips c k))) (kd_reader c rid)))"
proof -
  define c where "c = kr_control (rs i)"
  obtain k where k: "k \<le> 6" "first_free_after c k" using first_free_few [OF inv] by (auto simp: c_def)
  define loc where "loc = write_pos c k"
  define n where "n = min len kdata_plain_max_data"
  define pg where "pg = put_bytes 4 (take (nat n) data) (put_int 4 0 n (kr_page (rs i) loc))"
  define r' where "r' = (rs i)\<lparr>kr_control := written c k, kr_page := (kr_page (rs i))(loc := pg)\<rparr>"
  have ix: "ring_ix u 0 = i" by (rule user_on_ix [OF on])
  have n: "(if len > kdata_plain_max_data then kdata_plain_max_data else len) = n" by (simp add: n_def min_def)
  have w: "kdata_write_plain u data len rs = Some (0, rs(i := r'))"
    using write_with_first [of rs u k] k unfolding kdata_write_plain_def n
    by (simp add: ix c_def [symmetric] Let_def loc_def pg_def r'_def)
  have held: "\<exists>rid \<in> A. r_entered (kd_reader c rid) \<noteq> 0 \<and> r_rhead (kd_reader c rid) = y"
    if y: "y \<in> set (write_skips c k)" for y
  proof -
    have "\<not> page_free (kd_desc c y)" using k y by (simp add: first_free_after_def)
    moreover have "y < 2048" using y by (auto simp: write_skips_def in_set_scan kdata_next_pow_less)
    ultimately show ?thesis using inv_free [OF inv [folded c_def]] by auto
  qed
  have "get_sint 4 0 pg = n"
    using len unfolding pg_def n_def by (simp add: page_access kdata_plain_max_data_def)
  then show ?thesis
    using k w held written_inv [OF inv, of k] unfolding c_def [symmetric] n_def [symmetric]
    by (intro exI [of _ k] conjI exI [of _ r'])
       (auto simp: Let_def loc_def [symmetric] r'_def first_free_after_def written_reader)
qed

lemma kdata_write_total_witness:
  "\<exists>r'. kdata_write_plain (user_handle 0 0 KRING_WRITE) [1, 2, 3] 3 (entered_rings 2)
      = Some (0, (entered_rings 2)(0 := r')) \<and> kdata_inv {2} (kr_control r')"
proof -
  have "user_on 0 (user_handle 0 0 KRING_WRITE)" by (simp add: user_on_def user_handle_def)
  with entered_inv [of 2 0] show ?thesis
    using kdata_write_total [of "{2}" "entered_rings 2" 0 "user_handle 0 0 KRING_WRITE" 3 "[1, 2, 3]"] by auto
qed

text \<open>
  Reading: with a page unread, \<open>kdata_next_generic\<close> returns the oldest unread page of the reader,
  which the reader then holds; the page it held before is released, its other unread pages and the
  unread pages of all other readers stay, no page changes, and the ownership bits stay consistent.
\<close>

lemma kdata_next_ok:
  assumes inv: "kdata_inv A (kr_control (rs i))" and on: "user_on i u"
    and rid: "u_reader_id u \<in> {0..<6}" "u_reader_id u \<in> A"
    and unread: "kdata_pending (kr_control (rs i)) (u_reader_id u) = off # rest"
  shows "\<exists>c'. kdata_next_generic u rs = Some ((i, off), upd_control i (\<lambda>_. c') rs) \<and> kdata_inv A c' \<and>
     kdata_pending c' (u_reader_id u) = rest \<and>
     (\<forall>r. r \<noteq> u_reader_id u \<longrightarrow> kdata_pending c' r = kdata_pending (kr_control (rs i)) r) \<and>
     (\<forall>x < 2048. reader_has (u_reader_id u) (kd_desc c' x) \<longleftrightarrow> x = off)"
proof -
  define c where "c = kr_control (rs i)"
  have p: "kdata_pending c (u_reader_id u) =
      kdata_next (r_rhead (kd_reader c (u_reader_id u))) # kdata_pending (taken c (u_reader_id u)) (u_reader_id u)"
    using pending_taken [OF inv rid(1)] unread by (simp add: c_def)
  then have off: "off = kdata_next (r_rhead (kd_reader c (u_reader_id u)))"
      "rest = kdata_pending (taken c (u_reader_id u)) (u_reader_id u)"
    using unread by (simp_all add: c_def)
  have "kdata_next_generic u rs = Some ((i, off), upd_control i (\<lambda>_. taken c (u_reader_id u)) rs)"
    using next_generic_on [of i u A rs] on inv rid by (simp add: off c_def upd_control_def)
  moreover have "\<forall>x < 2048. reader_has (u_reader_id u) (kd_desc (taken c (u_reader_id u)) x) \<longleftrightarrow> x = off"
    using taken_has [OF inv [folded c_def] rid rid(1)] by (simp add: off)
  ultimately show ?thesis
    using taken_inv [OF inv [folded c_def] rid] pending_taken_other off
    by (intro exI [of _ "taken c (u_reader_id u)"]) (auto simp: c_def)
qed

lemma kdata_next_ok_witness:
  "\<exists>rs c'. kdata_next_generic (user_handle 0 2 KRING_READ) rs = Some ((0, 0), upd_control 0 (\<lambda>_. c') rs) \<and> kdata_inv {2} c'"
proof -
  define c where "c = written (kr_control (entered_rings 2 0)) 0"
  define rs where "rs = (entered_rings 2)(0 := (entered_rings 2 0)\<lparr>kr_control := c\<rparr>)"
  have inv: "kdata_inv {2} c" unfolding c_def by (rule written_inv [OF entered_inv]) simp
  have wh: "head_whead (kd_head (kr_control (entered_rings 2 0))) = 2047" "r_rhead (kd_reader (kr_control (entered_rings 2 0)) 2) = 2047"
    by (simp_all add: entered_rings_def kdata_prep_enter_def kdata_fresh_def kdata_init_control_def kdata_prev_def)
  have "kdata_pending (kr_control (entered_rings 2 0)) 2 = []"
    using entered_unread [of 2 0] by (simp add: kdata_unread_def)
  then have p: "kdata_pending c 2 = [0]"
    using pending_written(1) [OF entered_inv [of 2 0]] wh by (simp add: c_def kdata_next_def)
  show ?thesis
    using kdata_next_ok [of "{2}" rs 0 "user_handle 0 2 KRING_READ" 0 "[]"] inv p
    by (intro exI [of _ rs]) (auto simp: user_on_def user_handle_def rs_def)
qed

lemma scan_add: "scan off (a + b) = scan off a @ scan ((kdata_next ^^ a) off) b"
proof (induction b)
  case (Suc b)
  then show ?case by (simp add: scan_snoc funpow_add [symmetric, THEN fun_cong, unfolded o_def] add.commute)
qed simp

lemma pending_written_skip:
  assumes inv: "kdata_inv A c" and rid: "rid \<in> {0..<6}" and k: "k \<le> 6"
    and room: "length (kdata_pending c rid) + k < 2047"
  shows "kdata_pending (written c k) rid = kdata_pending c rid @ write_skips c k @ [write_pos c k]"
proof -
  have lt: "head_whead (kd_head c) < 2048" "r_rhead (kd_reader c rid) < 2048"
    using inv rid by (auto simp: kdata_inv_def reader_ok_def)
  define n where "n = pend_count c rid"
  define w where "w = unat (head_whead (kd_head c))"
  define r where "r = unat (r_rhead (kd_reader c rid))"
  have rd: "r_rhead (kd_reader (written c k) rid) = r_rhead (kd_reader c rid)"
    using k by (simp add: written_reader)
  have "unat (write_pos c k) = (w + Suc k) mod 2048"
    using unat_kdata_next_pow [OF lt(1), of "Suc k"] by (simp add: write_pos_def funpow_swap1 w_def)
  then have "pend_count (written c k) rid = ((w + Suc k) mod 2048 + (2048 - r)) mod 2048"
    by (simp add: pend_count_def rd r_def)
  also have "\<dots> = ((w + (2048 - r)) mod 2048 + Suc k) mod 2048"
    by (simp only: mod_add_left_eq) (simp only: ac_simps)
  also have "\<dots> = n + Suc k"
    using room by (simp add: n_def pend_count_def w_def r_def kdata_pending_def)
  finally have n': "pend_count (written c k) rid = n + Suc k" .
  have "(kdata_next ^^ n) (kdata_next (r_rhead (kd_reader c rid))) = kdata_next (head_whead (kd_head c))"
    using whead_from_rhead [OF lt] by (simp add: funpow_swap1 n_def)
  then show ?thesis
    unfolding kdata_pending_def n' rd scan_add n_def [symmetric]
    by (simp add: scan_snoc write_skips_def write_pos_def)
qed

text \<open>
  A reader that follows a writer that passed over \<open>k\<close> held pages reads those pages too, with the
  data they had before: its unread pages are extended by the skipped ones and only then by the new
  one. \<open>kdata_advance_rhead\<close> does not look at the skipped bit.
\<close>

lemma skipped_pages_replayed:
  assumes inv: "kdata_inv A (kr_control (rs i))" and on: "user_on i u" and len: "0 \<le> len"
    and rid: "rid \<in> {0..<6}" and k: "k \<le> 6" "first_free_after (kr_control (rs i)) k"
    and room: "length (kdata_pending (kr_control (rs i)) rid) + k < 2047"
  shows "\<exists>r' pg. kdata_write_plain u data len rs = Some (0, rs(i := r')) \<and>
     kdata_unread r' rid = kdata_unread (rs i) rid @ map (kr_page (rs i)) (write_skips (kr_control (rs i)) k) @ [pg]"
proof -
  define c where "c = kr_control (rs i)"
  define loc where "loc = write_pos c k"
  define n where "n = min len kdata_plain_max_data"
  define pg where "pg = put_bytes 4 (take (nat n) data) (put_int 4 0 n (kr_page (rs i) loc))"
  define r' where "r' = (rs i)\<lparr>kr_control := written c k, kr_page := (kr_page (rs i))(loc := pg)\<rparr>"
  have n: "(if len > kdata_plain_max_data then kdata_plain_max_data else len) = n" by (simp add: n_def min_def)
  have w: "kdata_write_plain u data len rs = Some (0, rs(i := r'))"
    using write_with_first [of rs u k] k unfolding kdata_write_plain_def n
    by (simp add: user_on_ix [OF on] c_def [symmetric] Let_def loc_def pg_def r'_def)
  have p: "kdata_pending (written c k) rid = kdata_pending c rid @ write_skips c k @ [loc]"
    unfolding loc_def by (rule pending_written_skip [OF inv [folded c_def] rid k(1)]) (use room in \<open>simp add: c_def\<close>)
  have "distinct (kdata_pending (written c k) rid)"
    unfolding kdata_pending_def by (rule distinct_scan) (simp_all add: pend_count_def less_imp_le)
  then have "loc \<notin> set (kdata_pending c rid @ write_skips c k)" by (simp add: p)
  then have "kdata_unread r' rid = kdata_unread (rs i) rid @ map (kr_page (rs i)) (write_skips c k) @ [pg]"
    using p by (auto simp: kdata_unread_def r'_def c_def)
  with w show ?thesis by (auto simp: c_def)
qed

text \<open>A ring where reader 2 holds the page after the write head and reader 3 has read everything.\<close>

definition held_next :: kdata_control where
  "held_next = taken (snd (kdata_prep_enter (kr_control (entered_rings 2 0)) 3)) 2"

lemma held_next_inv: "kdata_inv {2, 3} held_next"
proof -
  have "kdata_inv (insert 3 {2}) (snd (kdata_prep_enter (kr_control (entered_rings 2 0)) 3))"
    by (rule prep_enter_inv(1) [OF entered_inv]) simp
  from taken_inv [OF this, of 2] show ?thesis by (simp add: held_next_def insert_commute)
qed

lemma held_next_simps:
  "head_whead (kd_head held_next) = 2047" "r_rhead (kd_reader held_next 2) = 0" "r_rhead (kd_reader held_next 3) = 2047"
  "r_entered (kd_reader held_next 2) = 1" "r_entered (kd_reader held_next 3) = 0"
  by (simp_all add: held_next_def kdata_prep_enter_def entered_rings_def kdata_fresh_def kdata_init_control_def
      kdata_prev_def kdata_next_def)

lemma held_next_first: "first_free_after held_next 1"
proof -
  have nx: "kdata_next 2047 = 0" "kdata_next 0 = 1" by (simp_all add: kdata_next_def word_le_nat_alt)
  have "\<not> page_free (kd_desc held_next 0)"
    by (subst inv_free [OF held_next_inv]) (auto simp: held_next_simps intro!: bexI [of _ 2])
  moreover have "page_free (kd_desc held_next 1)"
    by (subst inv_free [OF held_next_inv]) (auto simp: held_next_simps)
  ultimately show ?thesis
    by (simp add: first_free_after_def write_pos_def write_skips_def scan_def held_next_simps nx)
qed

definition held_rings :: kdata_rings where
  "held_rings = (\<lambda>_. kdata_zeroed\<lparr>kr_control := held_next\<rparr>)"

lemma skipped_pages_replayed_witness:
  "\<exists>r' pg. kdata_write_plain (user_handle 0 0 KRING_WRITE) [9] 1 held_rings = Some (0, held_rings(0 := r'))
     \<and> kdata_unread r' 3 = [(\<lambda>_. 0), pg]"
proof -
  have c: "kr_control (held_rings 0) = held_next" "kr_page (held_rings 0) = (\<lambda>_ _. 0)"
    by (simp_all add: held_rings_def kdata_zeroed_def)
  have p: "kdata_pending held_next 3 = []"
    by (simp add: kdata_pending_def pend_count_def held_next_simps)
  have sk: "write_skips held_next 1 = [0]"
    by (simp add: write_skips_def scan_def held_next_simps kdata_next_def)
  have on: "user_on 0 (user_handle 0 0 KRING_WRITE)" by (simp add: user_on_def user_handle_def)
  have un: "kdata_unread (held_rings 0) 3 = []" by (simp add: kdata_unread_def c p)
  have mp: "map (kr_page (held_rings 0)) (write_skips (kr_control (held_rings 0)) 1) = [\<lambda>_. 0]"
    unfolding c sk by simp
  have room: "length (kdata_pending (kr_control (held_rings 0)) 3) + 1 < 2047" by (simp add: c p)
  have inv: "kdata_inv {2, 3} (kr_control (held_rings 0))" and first: "first_free_after (kr_control (held_rings 0)) 1"
    unfolding c by (rule held_next_inv, rule held_next_first)
  have "\<exists>r' pg. kdata_write_plain (user_handle 0 0 KRING_WRITE) [9] 1 held_rings = Some (0, held_rings(0 := r')) \<and>
     kdata_unread r' 3 = kdata_unread (held_rings 0) 3 @
       map (kr_page (held_rings 0)) (write_skips (kr_control (held_rings 0)) 1) @ [pg]"
    by (rule skipped_pages_replayed [where A = "{2, 3}"]) (rule inv, rule on, simp, simp, simp, rule first, rule room)
  then show ?thesis unfolding un mp by simp
qed

text \<open>
  (C39) The search for a page to write to returns exactly when some page is free; with every page taken
  it runs forever.
\<close>

theorem find_write_loc_returns:
  "kdata_find_write_loc c \<noteq> None \<longleftrightarrow> (\<exists>off < 2048. page_free (kd_desc c off))"
proof
  assume some: "kdata_find_write_loc c \<noteq> None"
  show "\<exists>off < 2048. page_free (kd_desc c off)"
  proof (rule ccontr)
    assume "\<not> ?thesis"
    then have "\<forall>off < 2048. \<not> page_free (kd_desc c off)" by auto
    from kdata_find_write_loc_none [OF this] some show False by contradiction
  qed
next
  assume "\<exists>off < 2048. page_free (kd_desc c off)"
  then obtain x where "x < 2048" "page_free (kd_desc c x)" by auto
  from first_free_ex [OF this] obtain k where "k < 2048" "first_free_after c k" by auto
  then show "kdata_find_write_loc c \<noteq> None" using find_write_loc_first by simp
qed

text \<open>
  Entering and leaving: a reader id that is not in use may enter, starts with nothing unread and
  keeps the ring consistent; when the socket of an active reader is destructed the page it holds is
  released, so that no page stays marked for it.
\<close>

lemma reader_enter_leave:
  assumes inv: "kdata_inv A (kr_control d)" and rid: "rid \<in> {0..<6}" and mem: "rg_mem ring = Data_Mem d"
  shows "(rid \<notin> A \<longrightarrow> kdata_inv (insert rid A) (snd (kdata_prep_enter (kr_control d) rid)) \<and>
            kdata_pending (snd (kdata_prep_enter (kr_control d) rid)) rid = []) \<and>
     (rid \<in> A \<longrightarrow> (\<exists>ring' d'. kdata_destruct_ring rid ring = Some ring' \<and> rg_mem ring' = Data_Mem d' \<and>
            kdata_inv (A - {rid}) (kr_control d') \<and> kr_page d' = kr_page d \<and> \<not> rg_reader ring' rid \<and>
            (\<forall>off < 2048. \<not> reader_has rid (kd_desc (kr_control d') off))))"
proof (intro conjI impI)
  assume "rid \<notin> A"
  then show "kdata_inv (insert rid A) (snd (kdata_prep_enter (kr_control d) rid))"
      "kdata_pending (snd (kdata_prep_enter (kr_control d) rid)) rid = []"
    using prep_enter_inv [OF inv] by auto
next
  assume act: "rid \<in> A"
  define c' where "c' = (if r_entered (kd_reader (kr_control d) rid) \<noteq> 0
       then the (kdata_reader_release rid (kr_control d) (r_rhead (kd_reader (kr_control d) rid))) else kr_control d)"
  have inv': "kdata_inv (A - {rid}) c'" by (rule released_inv [OF inv rid act c'_def])
  then have none: "\<forall>off < 2048. \<not> reader_has rid (kd_desc c' off)"
    using rid by (auto simp: kdata_inv_def reader_ok_def)
  have "kdata_destruct_ring rid ring = Some (ring\<lparr>rg_reader := (rg_reader ring)(rid := False),
      rg_mem := Data_Mem (d\<lparr>kr_control := c'\<rparr>)\<rparr>)"
    using mem by (simp add: kdata_destruct_ring_def Let_def c'_def reader_release_eq)
  with inv' none show "\<exists>ring' d'. kdata_destruct_ring rid ring = Some ring' \<and> rg_mem ring' = Data_Mem d' \<and>
            kdata_inv (A - {rid}) (kr_control d') \<and> kr_page d' = kr_page d \<and> \<not> rg_reader ring' rid \<and>
            (\<forall>off < 2048. \<not> reader_has rid (kd_desc (kr_control d') off))" by auto
qed

lemma reader_enter_leave_witness:
  "\<exists>ring' d'. kdata_destruct_ring 2 ((kring_ring_alloc kdata_params)\<lparr>rg_mem := Data_Mem (entered_rings 2 0)\<rparr>) = Some ring'
     \<and> rg_mem ring' = Data_Mem d' \<and> kdata_inv {} (kr_control d')"
  using reader_enter_leave [OF entered_inv [of 2 0], of 2
      "(kring_ring_alloc kdata_params)\<lparr>rg_mem := Data_Mem (entered_rings 2 0)\<rparr>"] by auto

text \<open>
  A release counts as consumed by reader 0, whoever released: the counter of the reader that
  released the page does not move.
\<close>

lemma release_counts_reader_0:
  assumes "rid \<noteq> 0"
  shows "\<exists>c'. kdata_reader_release rid c prev = Some c' \<and>
     r_consumed (kd_reader c' rid) = r_consumed (kd_reader c rid) \<and>
     r_consumed (kd_reader c' 0) = r_consumed (kd_reader c 0) + 1"
  using assms by (simp add: reader_release_eq)

lemma release_counts_reader_0_witness:
  "\<exists>c'. kdata_reader_release 3 (kr_control kdata_fresh) 0 = Some c' \<and> r_consumed (kd_reader c' 3) = 0"
  using release_counts_reader_0 [of 3 "kr_control kdata_fresh" 0] by (auto simp: kdata_fresh_def kdata_zeroed_def kdata_init_control_def)

section \<open>Decrypted records and opening\<close>

lemma length_host_bytes [simp]: "length (host_bytes h) = 63"
  by (simp add: host_bytes_def Let_def)

lemma host_bytes_string: "takeWhile (\<lambda>b. b \<noteq> 0) (host_bytes h) = take 62 (takeWhile (\<lambda>b. b \<noteq> 0) h)"
proof -
  define s where "s = takeWhile (\<lambda>b. b \<noteq> 0) h"
  have nz: "\<forall>b \<in> set s. b \<noteq> 0" using set_takeWhileD by (fastforce simp: s_def)
  have hb: "host_bytes h = (take 63 s @ replicate (63 - length (take 63 s)) 0)[62 := 0]"
    by (simp add: host_bytes_def s_def Let_def)
  have "host_bytes h = take 62 s @ replicate (63 - length (take 62 s)) 0"
    by (rule nth_equalityI) (auto simp: hb nth_list_update nth_append min_def)
  moreover have "0 < 63 - length (take 62 s)" by simp
  then obtain n where "63 - length (take 62 s) = Suc n" by (cases "63 - length (take 62 s)") auto
  moreover have "\<forall>b \<in> set (take 62 s). b \<noteq> 0" using nz set_take_subset by fastforce
  ultimately show ?thesis by (simp add: takeWhile_append2 s_def [symmetric])
qed

definition host_string :: "u8 list option \<Rightarrow> u8 list" where
  "host_string host = (case host of None \<Rightarrow> [] | Some h \<Rightarrow> take 62 (takeWhile (\<lambda>b. b \<noteq> 0) h))"

lemma get_host: "takeWhile (\<lambda>b. b \<noteq> 0) (get_bytes 17 63 (put_host host pg)) = host_string host"
proof (cases host)
  case None
  have "get_bytes 17 63 (put_bytes 17 [0] pg) = 0 # map (\<lambda>i. put_bytes 17 [0] pg (17 + i)) [1..<63]"
    by (simp add: get_bytes_def upt_conv_Cons put_bytes_def del: upt_Suc upt_rec_numeral)
  with None show ?thesis by (simp add: put_host_def host_string_def)
next
  case (Some h)
  then show ?thesis by (simp add: put_host_def host_string_def get_bytes_put_bytes host_bytes_string)
qed

lemma put_host_other: "i < 17 \<or> 80 \<le> i \<Longrightarrow> put_host host pg i = pg i"
  by (cases host) (auto simp: put_host_def)

lemma decrypted_page_fields:
  assumes pg: "pg = put_bytes 80 (take (nat n) data)
     (put_host host (put_int 1 16 type (put_int 8 8 did (put_int 4 0 n pg0))))"
    and nr: "0 \<le> n" "n \<le> 4016" "nat n \<le> length data"
    and did: "- (2 ^ 63) \<le> did" "did < 2 ^ 63" and type: "0 \<le> type" "type < 256"
  shows "get_sint 4 0 pg = n" "get_sint 8 8 pg = did" "get_uint 1 16 pg = type"
    "get_bytes 80 (nat n) pg = take (nat n) data" "takeWhile (\<lambda>b. b \<noteq> 0) (get_bytes 17 63 pg) = host_string host"
proof -
  define p3 where "p3 = put_int 1 16 type (put_int 8 8 did (put_int 4 0 n pg0))"
  have other: "pg x = p3 x" if "x < 17" for x
    using that by (simp add: pg p3_def put_host_other)
  show "get_sint 4 0 pg = n"
    using nr by (subst get_sint_cong [where pg' = p3]) (auto simp: other p3_def page_access)
  show "get_sint 8 8 pg = did"
    using did by (subst get_sint_cong [where pg' = p3]) (auto simp: other p3_def page_access)
  show "get_uint 1 16 pg = type"
    using type by (subst get_uint_cong [where pg' = p3]) (auto simp: other p3_def page_access)
  show "get_bytes 80 (nat n) pg = take (nat n) data"
    using nr by (simp add: pg get_bytes_put_bytes)
  have "get_bytes 17 63 pg = get_bytes 17 63 (put_host host p3)"
    by (rule get_bytes_cong) (simp add: pg p3_def)
  then show "takeWhile (\<lambda>b. b \<noteq> 0) (get_bytes 17 63 pg) = host_string host" by (simp add: get_host)
qed

text \<open>
  What \<open>kdata_write_decrypted\<close> writes, a reader that has nothing else unread gets back from
  \<open>kdata_next_decrypted\<close>: the id, the type, the host name cut to 62 bytes, and the data cut to what
  fits a page, with its length.
\<close>

lemma decrypted_roundtrip:
  assumes inv: "kdata_inv A (kr_control (rs i))" and on: "user_on i uw" "user_on i ur"
    and rid: "u_reader_id ur \<in> {0..<6}" "u_reader_id ur \<in> A"
    and empty: "kdata_pending (kr_control (rs i)) (u_reader_id ur) = []"
    and free: "page_free (kd_desc (kr_control (rs i)) (kdata_next (head_whead (kd_head (kr_control (rs i))))))"
    and len: "0 \<le> len" "len \<le> int (length data)"
    and did: "- (2 ^ 63) \<le> did" "did < 2 ^ 63" and type: "0 \<le> type" "type < 256"
  shows "\<exists>rs1 d rs2. kdata_write_decrypted uw did type host data len rs = Some (0, rs1) \<and>
     kdata_next_decrypted ur rs1 = Some (d, rs2) \<and> dcy_id d = did \<and> dcy_type d = type \<and>
     dcy_len d = min len kdata_decrypted_max_data \<and>
     (case dcy_bytes d of (j, off, at) \<Rightarrow> get_bytes at (nat (dcy_len d)) (kr_page (rs2 j) off))
       = take (nat (min len kdata_decrypted_max_data)) data \<and>
     (case dcy_host d of (j, off, at) \<Rightarrow> takeWhile (\<lambda>b. b \<noteq> 0) (get_bytes at 63 (kr_page (rs2 j) off))) = host_string host"
proof -
  define c where "c = kr_control (rs i)"
  define rd where "rd = u_reader_id ur"
  define loc where "loc = kdata_next (head_whead (kd_head c))"
  define n where "n = min len kdata_decrypted_max_data"
  define pg where "pg = put_bytes 80 (take (nat n) data)
     (put_host host (put_int 1 16 type (put_int 8 8 did (put_int 4 0 n (kr_page (rs i) loc)))))"
  define r1 where "r1 = (rs i)\<lparr>kr_control := written c 0, kr_page := (kr_page (rs i))(loc := pg)\<rparr>"
  have nr: "0 \<le> n" "n \<le> 4016" "nat n \<le> length data" and mx: "kdata_decrypted_max_data = 4016"
    using len by (auto simp: n_def kdata_decrypted_max_data_def)
  have nif: "(if len > kdata_decrypted_max_data then kdata_decrypted_max_data else len) = n"
    by (simp add: n_def min_def)
  have w: "kdata_write_decrypted uw did type host data len rs = Some (0, rs(i := r1))"
    using write_with_next [of i uw rs] on(1) free unfolding kdata_write_decrypted_def nif
    by (simp add: c_def loc_def pg_def r1_def Let_def)
  have room: "room_for c rd" using pend_count_room [OF inv rid(1)] empty by (simp add: c_def rd_def)
  have inv1: "kdata_inv A (kr_control r1)" using written_inv [OF inv, of 0] by (simp add: r1_def c_def)
  have rh: "kdata_next (r_rhead (kd_reader (kr_control r1) rd)) = loc"
  proof -
    have "kdata_pending (written c 0) rd = [loc]"
      using pending_written(1) [OF inv [folded c_def] rid(1) [folded rd_def]] room empty
      by (simp add: room_for_def c_def rd_def loc_def)
    then have "kdata_pending (kr_control r1) rd = [loc]" by (simp add: r1_def)
    with pending_taken [OF inv1 rid(1) [folded rd_def]] show ?thesis by simp
  qed
  note g = decrypted_page_fields [OF pg_def nr did type]
  have "kdata_next_generic ur (rs(i := r1)) = Some ((i, loc), upd_control i (\<lambda>c. taken c rd) (rs(i := r1)))"
    using next_generic_on [of i ur A "rs(i := r1)"] on(2) inv1 rid rh by (simp add: rd_def)
  moreover have "kr_page (upd_control i (\<lambda>c. taken c rd) (rs(i := r1)) i) loc = pg" by (simp add: r1_def)
  ultimately show ?thesis
    using w g mx by (simp add: kdata_next_decrypted_def Let_def n_def [symmetric] nr)
qed

lemma decrypted_roundtrip_witness:
  "\<exists>rs1 d rs2. kdata_write_decrypted (user_handle 0 0 KRING_WRITE) 7 1 (Some [104, 105]) [1, 2, 3] 3 (entered_rings 2) = Some (0, rs1)
     \<and> kdata_next_decrypted (user_handle 0 2 KRING_READ) rs1 = Some (d, rs2) \<and> dcy_id d = 7 \<and> dcy_len d = 3"
proof -
  have e: "kdata_pending (kr_control (entered_rings 2 0)) 2 = []"
    using entered_unread [of 2 0] by (simp add: kdata_unread_def)
  have "room_for (kr_control (entered_rings 2 0)) 2"
    by (rule pend_count_room [OF entered_inv]) (simp_all add: e)
  from page_free_single [OF entered_inv this] entered_inv [of 2 0] e show ?thesis
    using decrypted_roundtrip [of "{2}" "entered_rings 2" 0 "user_handle 0 0 KRING_WRITE" "user_handle 0 2 KRING_READ"
        3 "[1, 2, 3]" 7 1 "Some [104, 105]"]
    by (auto simp: user_on_def user_handle_def kdata_decrypted_max_data_def)
qed

lemma pgoff_inverse:
  assumes "ring_id < 32" and "region < 2"
  shows "decon_pgoff (cons_pgoff ring_id region div of_nat KRING_PAGE_SIZE) = (ring_id, region)"
proof -
  have ids: "ring_id \<in> {0, 1, 2, 3, 4, 5, 6, 7, 8, 9, 10, 11, 12, 13, 14, 15, 16, 17, 18, 19, 20, 21, 22, 23,
      24, 25, 26, 27, 28, 29, 30, 31}"
  proof -
    have "unat ring_id < 32" using assms(1) by (simp add: word_less_nat_alt)
    then have "unat ring_id \<in> {0..<32}" by simp
    also have "{0..<32::nat} = {0, 1, 2, 3, 4, 5, 6, 7, 8, 9, 10, 11, 12, 13, 14, 15, 16, 17, 18, 19, 20, 21, 22, 23,
      24, 25, 26, 27, 28, 29, 30, 31}" by (simp add: atLeast0_lessThan_Suc eval_nat_numeral insert_commute)
    finally show ?thesis by (auto simp: word_unat_eq_iff)
  qed
  have "region = 0 \<or> region = 1"
  proof -
    have "unat region = 0 \<or> unat region = 1" using assms(2) by (auto simp: word_less_nat_alt)
    then show ?thesis by (auto simp: word_unat_eq_iff)
  qed
  with ids show ?thesis
    by (elim disjE insertE emptyE) (simp_all add: decon_pgoff_def cons_pgoff_def)
qed

text \<open>
  The ring id and the region that the library puts into the offset of a mapping are the ones the
  kernel takes out of it, for every ring id of a set and both regions.
\<close>

lemma pgoff_roundtrip:
  assumes "ring_id < 32" and "region < 2"
  shows "decon_pgoff (cons_pgoff ring_id region div of_nat KRING_PAGE_SIZE) = (ring_id, region)"
  using assms by (rule pgoff_inverse)

lemma pgoff_roundtrip_witness: "decon_pgoff (cons_pgoff 17 1 div of_nat KRING_PAGE_SIZE) = (17, 1)"
  by (rule pgoff_roundtrip) simp_all

lemma user_mmap_ok:
  assumes s: "krs_ringset krs = Some s" and n: "rs_nrings (head ! s) = n" "n \<le> 32"
    and i: "0 \<le> ring_id" "ring_id < n" and g: "region < 2"
  shows "user_mmap head krs (cons_pgoff (word_of_int ring_id) region) =
     Some (Inr (if region = KRING_PGOFF_CTRL then Map_Ctrl s ring_id
                else Map_Data s ring_id (p_npages (rs_params (head ! s)))))"
proof -
  have u: "uint (word_of_int ring_id :: u64) = ring_id" "uint (word_of_int n :: u64) = n"
    using n i by (simp_all add: unsigned_of_int take_bit_int_eq_self)
  then have "(word_of_int ring_id :: u64) < 32" using n i by (simp add: word_less_def)
  note d = pgoff_inverse [OF this g]
  have "\<not> word_of_int ring_id > (word_of_int n :: u64)" using i u by (simp add: word_less_def)
  then show ?thesis
    using s n i u by (simp add: user_mmap_def kring_sock_mmap_def d [simplified])
qed

lemma kdata_map_enter_ok:
  assumes "krs_ringset krs = Some s" "rs_nrings (head ! s) \<le> 32" "0 \<le> ring_id" "ring_id < rs_nrings (head ! s)"
  shows "kdata_map_enter head krs u ring_id = Some (0, u,
     if u_mode u = KRING_READ then upd_mem s ring_id (\<lambda>c. snd (kdata_prep_enter c (u_reader_id u))) head else head)"
  using assms by (simp add: kdata_map_enter_def user_mmap_ok)

text \<open>
  Opening one ring of a data ring set for reading: when the socket can be bound, \<open>kring_open\<close>
  returns 0 with the ids the kernel gave out, and the reader has entered the ring: it has nothing
  unread and the ring stays consistent with one more active reader.
\<close>

lemma kring_open_reader:
  assumes bind: "kring_bind head krs_new \<lparr>addr_name = kring_copy_name name, addr_ring_id = ring_id,
      addr_mode = KRING_READ\<rparr> sizeof_kring_addr = Some (0, head1, krs)"
    and s: "kring_find_ring (kring_copy_name name) head = Some s" "rs_nrings (head ! s) \<le> 32"
    and id: "ring_id \<noteq> KRING_RING_ID_ALL"
    and mem: "rg_mem (rs_ring (head ! s) ring_id) = Data_Mem d" "kdata_inv A (kr_control d)" "krs_reader_id krs \<notin> A"
  shows "\<exists>u head2 d'. kring_open True True fd head KRING_DATA name ring_id KRING_READ = Some (0, u, Some krs, head2) \<and>
     u_socket u = fd \<and> u_ring_id u = ring_id \<and> u_nrings u = rs_nrings (head ! s) \<and> u_reader_id u = krs_reader_id krs \<and>
     rg_mem (rs_ring (head2 ! s) ring_id) = Data_Mem d' \<and> kr_page d' = kr_page d \<and>
     kdata_inv (insert (u_reader_id u) A) (kr_control d') \<and> kdata_pending (kr_control d') (u_reader_id u) = []"
  using bind
proof (cases rule: bind_cases)
  case error
  then show ?thesis by simp
next
  case (bound s' r')
  then have s': "s' = s" and len: "s < length head" using s by auto
  have r': "rs_nrings r' = rs_nrings (head ! s)" "rg_mem (rs_ring r' ring_id) = Data_Mem d" "head1 ! s = r'"
    using bound mem len by (auto simp: grant_def s')
  have rid: "0 \<le> ring_id" "ring_id < rs_nrings (head1 ! s)" using bound(10) id s' r' by auto
  have ks: "krs_ringset krs = Some s" using bound s' by simp
  define u where "u = \<lparr>u_socket = fd, u_ring_id = ring_id, u_nrings = rs_nrings (head ! s), u_writer_id = krs_writer_id krs,
      u_reader_id = krs_reader_id krs, u_mode = KRING_READ, u_krerr = 0, u_errno = 0\<rparr>"
  define head2 where "head2 = upd_mem s ring_id (\<lambda>c. snd (kdata_prep_enter c (krs_reader_id krs))) head1"
  have "kdata_map_enter head1 krs u ring_id = Some (0, u, head2)"
    using kdata_map_enter_ok [OF ks _ rid] s r' by (simp add: u_def head2_def)
  then have "kring_open True True fd head KRING_DATA name ring_id KRING_READ = Some (0, u, Some krs, head2)"
    unfolding kring_open_def
    using bind id ks r' by (simp add: kdata_sock_create_def Let_def user_getsockopt_def kring_getsockopt_def u_def)
  moreover define d' where "d' = d\<lparr>kr_control := snd (kdata_prep_enter (kr_control d) (krs_reader_id krs))\<rparr>"
  have "rg_mem (rs_ring (head2 ! s) ring_id) = Data_Mem d'"
    using r' len bound(8) by (simp add: head2_def upd_mem_def d'_def s')
  ultimately show ?thesis
    using prep_enter_inv [OF mem(2,3)]
    by (intro exI [of _ u] exI [of _ head2] exI [of _ d']) (simp add: u_def d'_def)
qed

lemma kring_open_reader_witness:
  "\<exists>u head2 krs. kring_open True True 3 two_rings KRING_DATA ''ring'' 0 KRING_READ = Some (0, u, Some krs, head2) \<and> u_nrings u = 2"
proof -
  have f: "kring_find_ring (kring_copy_name ''ring'') two_rings = Some 0"
    by (simp add: kring_find_ring_def two_rings_def kring_ringset_alloc_def kring_copy_name_def cstr_def)
  have m: "rg_mem (rs_ring (two_rings ! 0) 0) = Data_Mem kdata_fresh" "rs_nrings (two_rings ! 0) = 2"
    by (simp_all add: two_rings_def kring_ringset_alloc_def kring_ring_alloc_def kdata_params_def kdata_fresh_def)
  from kring_open_reader [OF bind_one [unfolded ring_addr_def, folded sizeof_kring_addr_def] f _ _ m(1) kdata_fresh_inv, of 3] m(2)
  show ?thesis by auto
qed

text \<open>
  Opening a ring set that does not exist: \<open>bind\<close> reports the error, and closing the unbound socket
  on the error path faults in the kernel.
\<close>

lemma kring_open_missing_faults:
  assumes "kring_find_ring (kring_copy_name name) head = None"
  shows "kring_open True True fd head type name ring_id mode = None"
proof -
  define addr where "addr = \<lparr>addr_name = kring_copy_name name, addr_ring_id = ring_id, addr_mode = mode\<rparr>"
  have "kring_bind head krs_new addr sizeof_kring_addr = Some (- EINVAL, head, krs_new)"
    using assms by (simp add: kring_bind_def addr_def Let_def)
  then show ?thesis
    by (simp add: kring_open_def kdata_sock_create_def addr_def err_close_def kring_sock_destruct_def krs_new_def)
qed

lemma kring_open_missing_faults_witness: "kring_open True True 3 [] KRING_DATA ''none'' 0 KRING_READ = None"
  by (rule kring_open_missing_faults) (simp add: kring_find_ring_def)

section \<open>Several writers\<close>

lemma Max_insert_max: "finite S \<Longrightarrow> Max (insert (max a b) S) = Max (insert a (insert (b :: 'a::linorder) S))"
  by (cases "S = {}") (simp_all add: max.assoc)

lemma Min_insert_min: "finite S \<Longrightarrow> Min (insert (min a b) S) = Min (insert a (insert (b :: 'a::linorder) S))"
  by (cases "S = {}") (simp_all add: min.assoc)

lemma fold_max:
  "fold (\<lambda>w a. if g w > a then g w else a) ws a = Max (insert (a :: 'a::linorder) (g ` set ws))"
proof (induction ws arbitrary: a)
  case (Cons w ws)
  have "(if g w > a then g w else a) = max a (g w)" by (auto simp: max_def)
  with Cons show ?case by (simp only: fold_simps list.simps image_insert) (simp add: Max_insert_max)
qed simp

lemma fold_min_nz:
  "fold (\<lambda>w a. if g w \<noteq> 0 then (if g w < a then g w else a) else a) ws a =
     Min (insert (a :: 'a::{linorder, zero}) (g ` {w \<in> set ws. g w \<noteq> 0}))"
proof (induction ws arbitrary: a)
  case (Cons w ws)
  show ?case
  proof (cases "g w = 0")
    case True
    then have "{v \<in> set (w # ws). g v \<noteq> 0} = {v \<in> set ws. g v \<noteq> 0}" by auto
    with True Cons show ?thesis by simp
  next
    case False
    then have st: "{v \<in> set (w # ws). g v \<noteq> 0} = insert w {v \<in> set ws. g v \<noteq> 0}" by auto
    have "(if g w < a then g w else a) = min a (g w)" by (auto simp: min_def)
    then have "fold (\<lambda>w a. if g w \<noteq> 0 then (if g w < a then g w else a) else a) (w # ws) a =
        Min (insert (min a (g w)) (g ` {v \<in> set ws. g v \<noteq> 0}))"
      using False Cons by simp
    also have "\<dots> = Min (insert a (g ` {v \<in> set (w # ws). g v \<noteq> 0}))"
      unfolding st image_insert by (rule Min_insert_min) simp
    finally show ?thesis .
  qed
qed simp

text \<open>
  With several writers on a ring the write head becomes the highest head of any writer, but no
  more than the lowest barrier a writer has set.
\<close>

lemma update_whead_value:
  "kdata_update_whead c =
     Some (set_whead
       (min (Max (insert 0 ((\<lambda>w. w_whead (kd_writer c w)) ` {0..5})))
            (Min (insert (NOT 0) ((\<lambda>w. w_wbar (kd_writer c w)) ` {w \<in> {0..5}. w_wbar (kd_writer c w) \<noteq> 0})))) c)"
proof -
  define M where "M = Max (insert 0 ((\<lambda>w. w_whead (kd_writer c w)) ` set [0..KDATA_WRITERS - 1]))"
  define B where "B = Min (insert (NOT 0) ((\<lambda>w. w_wbar (kd_writer c w)) ` {w \<in> set [0..KDATA_WRITERS - 1]. w_wbar (kd_writer c w) \<noteq> 0}))"
  have st: "set [0..KDATA_WRITERS - 1] = {0..5}" by auto
  have "kdata_update_whead c = Some (set_whead (if B < M then B else M) c)"
    unfolding kdata_update_whead_def update_whead_retry.simps [of c 0] Let_def fold_max fold_min_nz
      M_def [symmetric] B_def [symmetric] kdata_whead_write_back_def
    by simp
  moreover have "(if B < M then B else M) = min M B" by (auto simp: min_def)
  ultimately show ?thesis by (simp only: M_def B_def st)
qed

end
