(* ===== verification/Kdata_Concurrent.thy ===== *)
theory Kdata_Concurrent
  imports Kdata_Ring
begin

text \<open>
  The data ring with threads running side by side: one writer (\<open>kdata_write_FIRST\<close>, the stores into
  the page, \<open>kdata_write_SECOND\<close>) and the six readers (\<open>kdata_next_generic\<close>, and the release of
  \<open>kdata_destruct\<close>), each step being one access to shared memory. A thread keeps its program counter
  and its local variables; between a read of a descriptor and the compare-and-swap that follows,
  every other thread may run. \<open>kdata_write_SECOND\<close> takes the page to publish from the one shared
  \<open>wresv\<close>, so the model has one writer; \<open>two_writers_lose_page\<close> shows what happens with two.
\<close>

section \<open>Threads\<close>

text \<open>
  The writer: about to read a descriptor (label \<open>retry\<close>), about to mark it skipped or to claim it with
  the value it read, having claimed a page (about to store \<open>wresv\<close>), owning it, about to publish it
  with the value it read, about to store \<open>whead\<close>.
\<close>

datatype wpc = W_Idle | W_Read kdata_off_t | W_Skip kdata_off_t kdata_desc_t | W_Claim kdata_off_t kdata_desc_t
  | W_Resv kdata_off_t | W_Own kdata_off_t | W_Publish kdata_off_t kdata_desc_t | W_Head

text \<open>
  A reader: between calls, with its \<open>rhead\<close> and \<open>entered\<close>; looking for the next page from \<open>prev\<close>
  (about to read the descriptor, about to take the page with the value read); about to release
  \<open>prev\<close>, the new \<open>rhead\<close> being taken (about to read, about to write back the value); the same when
  its socket is destructed, with no new page.
\<close>

datatype rpc = R_Rest kdata_off_t bool | R_Look kdata_off_t kdata_off_t bool
  | R_Take kdata_off_t kdata_off_t bool kdata_desc_t
  | R_Drop kdata_off_t kdata_off_t | R_Drop_Back kdata_off_t kdata_off_t kdata_desc_t
  | R_Leave kdata_off_t | R_Leave_Back kdata_off_t kdata_desc_t

record conc =
  cs_whead :: kdata_off_t
  cs_wresv :: kdata_off_t
  cs_desc :: "kdata_off_t \<Rightarrow> kdata_desc_t"
  cs_page :: "kdata_off_t \<Rightarrow> page"
  cs_writer :: wpc
  cs_reader :: "int \<Rightarrow> rpc"

inductive writer_step :: "conc \<Rightarrow> conc \<Rightarrow> bool" where
  w_start: "cs_writer st = W_Idle \<Longrightarrow> writer_step st (st\<lparr>cs_writer := W_Read (kdata_next (cs_whead st))\<rparr>)"
| w_held: "cs_writer st = W_Read off \<Longrightarrow> page_held (cs_desc st off) \<Longrightarrow>
    writer_step st (st\<lparr>cs_writer := W_Skip off (cs_desc st off)\<rparr>)"
| w_owned: "cs_writer st = W_Read off \<Longrightarrow> \<not> page_held (cs_desc st off) \<Longrightarrow>
    cs_desc st off AND KDATA_DSC_WRITER_OWNED \<noteq> 0 \<Longrightarrow>
    writer_step st (st\<lparr>cs_writer := W_Read (kdata_next off)\<rparr>)"
| w_free: "cs_writer st = W_Read off \<Longrightarrow> page_free (cs_desc st off) \<Longrightarrow>
    writer_step st (st\<lparr>cs_writer := W_Claim off (cs_desc st off)\<rparr>)"
| w_skip: "cs_writer st = W_Skip off d \<Longrightarrow> cs_desc st off = d \<Longrightarrow>
    writer_step st (st\<lparr>cs_desc := (cs_desc st)(off := d OR KDATA_DSC_SKIPPED), cs_writer := W_Read (kdata_next off)\<rparr>)"
| w_skip_retry: "cs_writer st = W_Skip off d \<Longrightarrow> cs_desc st off \<noteq> d \<Longrightarrow> writer_step st (st\<lparr>cs_writer := W_Read off\<rparr>)"
| w_claim: "cs_writer st = W_Claim off d \<Longrightarrow> cs_desc st off = d \<Longrightarrow>
    writer_step st (st\<lparr>cs_desc := (cs_desc st)(off := d OR KDATA_DSC_WRITER_OWNED), cs_writer := W_Resv off\<rparr>)"
| w_claim_retry: "cs_writer st = W_Claim off d \<Longrightarrow> cs_desc st off \<noteq> d \<Longrightarrow> writer_step st (st\<lparr>cs_writer := W_Read off\<rparr>)"
| w_resv: "cs_writer st = W_Resv off \<Longrightarrow> writer_step st (st\<lparr>cs_wresv := off, cs_writer := W_Own off\<rparr>)"
| w_store: "cs_writer st = W_Own off \<Longrightarrow> writer_step st (st\<lparr>cs_page := (cs_page st)(off := pg)\<rparr>)"
| w_second: "cs_writer st = W_Own off \<Longrightarrow>
    writer_step st (st\<lparr>cs_writer := W_Publish (cs_wresv st) (cs_desc st (cs_wresv st))\<rparr>)"
| w_publish: "cs_writer st = W_Publish off d \<Longrightarrow> cs_desc st off = d \<Longrightarrow>
    writer_step st (st\<lparr>cs_desc := (cs_desc st)(off := d AND NOT KDATA_DSC_WRITER_OWNED), cs_writer := W_Head\<rparr>)"
| w_publish_fail: "cs_writer st = W_Publish off d \<Longrightarrow> cs_desc st off \<noteq> d \<Longrightarrow>
    writer_step st (st\<lparr>cs_writer := W_Head\<rparr>)"
| w_head: "cs_writer st = W_Head \<Longrightarrow> writer_step st (st\<lparr>cs_whead := cs_wresv st, cs_writer := W_Idle\<rparr>)"

text \<open>
  Reader \<open>r\<close>. A reader that fails to take a page goes on to the next one, as the source does. The last
  five rules are the release of \<open>kdata_destruct\<close> and entering anew.
\<close>

inductive reader_step :: "int \<Rightarrow> conc \<Rightarrow> conc \<Rightarrow> bool" for r where
  r_start: "cs_reader st r = R_Rest rhead entered \<Longrightarrow>
    reader_step r st (st\<lparr>cs_reader := (cs_reader st)(r := R_Look (kdata_next rhead) rhead entered)\<rparr>)"
| r_owned: "cs_reader st r = R_Look off prev entered \<Longrightarrow> cs_desc st off AND KDATA_DSC_WRITER_OWNED \<noteq> 0 \<Longrightarrow>
    reader_step r st (st\<lparr>cs_reader := (cs_reader st)(r := R_Look (kdata_next off) prev entered)\<rparr>)"
| r_found: "cs_reader st r = R_Look off prev entered \<Longrightarrow> cs_desc st off AND KDATA_DSC_WRITER_OWNED = 0 \<Longrightarrow>
    reader_step r st (st\<lparr>cs_reader := (cs_reader st)(r := R_Take off prev entered (cs_desc st off))\<rparr>)"
| r_take: "cs_reader st r = R_Take off prev entered d \<Longrightarrow> cs_desc st off = d \<Longrightarrow>
    reader_step r st (st\<lparr>cs_desc := (cs_desc st)(off := d OR KDATA_DSC_READER_BIT r),
       cs_reader := (cs_reader st)(r := if entered then R_Drop off prev else R_Rest off True)\<rparr>)"
| r_take_fail: "cs_reader st r = R_Take off prev entered d \<Longrightarrow> cs_desc st off \<noteq> d \<Longrightarrow>
    reader_step r st (st\<lparr>cs_reader := (cs_reader st)(r := R_Look (kdata_next off) prev entered)\<rparr>)"
| r_drop: "cs_reader st r = R_Drop rhead prev \<Longrightarrow>
    reader_step r st (st\<lparr>cs_reader := (cs_reader st)(r := R_Drop_Back rhead prev (cs_desc st prev))\<rparr>)"
| r_drop_back: "cs_reader st r = R_Drop_Back rhead prev d \<Longrightarrow> cs_desc st prev = d \<Longrightarrow>
    reader_step r st (st\<lparr>cs_desc := (cs_desc st)(prev := reader_release_val r d),
       cs_reader := (cs_reader st)(r := R_Rest rhead True)\<rparr>)"
| r_drop_again: "cs_reader st r = R_Drop_Back rhead prev d \<Longrightarrow> cs_desc st prev \<noteq> d \<Longrightarrow>
    reader_step r st (st\<lparr>cs_reader := (cs_reader st)(r := R_Drop rhead prev)\<rparr>)"
| r_leave: "cs_reader st r = R_Rest rhead True \<Longrightarrow>
    reader_step r st (st\<lparr>cs_reader := (cs_reader st)(r := R_Leave rhead)\<rparr>)"
| r_leave_read: "cs_reader st r = R_Leave prev \<Longrightarrow>
    reader_step r st (st\<lparr>cs_reader := (cs_reader st)(r := R_Leave_Back prev (cs_desc st prev))\<rparr>)"
| r_leave_back: "cs_reader st r = R_Leave_Back prev d \<Longrightarrow> cs_desc st prev = d \<Longrightarrow>
    reader_step r st (st\<lparr>cs_desc := (cs_desc st)(prev := reader_release_val r d),
       cs_reader := (cs_reader st)(r := R_Rest prev False)\<rparr>)"
| r_leave_again: "cs_reader st r = R_Leave_Back prev d \<Longrightarrow> cs_desc st prev \<noteq> d \<Longrightarrow>
    reader_step r st (st\<lparr>cs_reader := (cs_reader st)(r := R_Leave prev)\<rparr>)"
| r_enter: "cs_reader st r = R_Rest rhead False \<Longrightarrow>
    reader_step r st (st\<lparr>cs_reader := (cs_reader st)(r := R_Rest (cs_whead st) False)\<rparr>)"

inductive conc_step :: "conc \<Rightarrow> conc \<Rightarrow> bool" where
  writer: "writer_step st st' \<Longrightarrow> conc_step st st'"
| reader: "r \<in> {0..<6} \<Longrightarrow> reader_step r st st' \<Longrightarrow> conc_step st st'"

text \<open>A fresh ring: nobody owns a page, nobody runs, no reader has entered.\<close>

definition conc_start :: "conc \<Rightarrow> bool" where
  "conc_start st = (cs_whead st < 2048 \<and> (\<forall>off. cs_desc st off = 0) \<and> cs_writer st = W_Idle \<and>
     (\<forall>r. \<exists>rhead < 2048. cs_reader st r = R_Rest rhead False))"

inductive conc_reach :: "conc \<Rightarrow> bool" where
  start: "conc_start st \<Longrightarrow> conc_reach st"
| step: "conc_reach st \<Longrightarrow> conc_step st st' \<Longrightarrow> conc_reach st'"

section \<open>Who owns what\<close>

definition writer_owns :: "conc \<Rightarrow> kdata_off_t \<Rightarrow> bool" where
  "writer_owns st off = (case cs_writer st of W_Resv o' \<Rightarrow> off = o' | W_Own o' \<Rightarrow> off = o' | W_Publish o' d \<Rightarrow> off = o' | _ \<Rightarrow> False)"




inductive_cases reader_stepE: "reader_step r st st'"

section \<open>The writer's page is its own\<close>

definition w_inv :: "conc \<Rightarrow> bool" where
  "w_inv st = ((\<forall>off. cs_desc st off AND KDATA_DSC_WRITER_OWNED \<noteq> 0 \<longleftrightarrow> writer_owns st off) \<and>
     (\<forall>off. cs_desc st off AND KDATA_DSC_WRITER_OWNED \<noteq> 0 \<longrightarrow> \<not> page_held (cs_desc st off)) \<and>
     (\<forall>off. cs_desc st off AND KDATA_DSC_SKIPPED \<noteq> 0 \<longrightarrow> cs_desc st off AND KDATA_DSC_READER_OWNED \<noteq> 0) \<and>
     (case cs_writer st of W_Skip off d \<Rightarrow> page_held d | W_Claim off d \<Rightarrow> page_free d
        | W_Own off \<Rightarrow> cs_wresv st = off | W_Publish off d \<Rightarrow> cs_wresv st = off \<and> cs_desc st off = d | _ \<Rightarrow> True) \<and>
     (\<forall>r off prev e d. cs_reader st r = R_Take off prev e d \<longrightarrow> d AND KDATA_DSC_WRITER_OWNED = 0))"

text \<open>What the updates of a descriptor do to the writer bit, the skipped bit and the reader bits.\<close>

lemma obs_skip [desc_bits]:
  "(d OR KDATA_DSC_SKIPPED) AND KDATA_DSC_WRITER_OWNED \<noteq> 0 \<longleftrightarrow> d AND KDATA_DSC_WRITER_OWNED \<noteq> 0"
  "(d OR KDATA_DSC_SKIPPED) AND KDATA_DSC_READER_OWNED \<noteq> 0 \<longleftrightarrow> d AND KDATA_DSC_READER_OWNED \<noteq> 0"
proof -
  show "(d OR KDATA_DSC_SKIPPED) AND KDATA_DSC_READER_OWNED \<noteq> 0 \<longleftrightarrow> d AND KDATA_DSC_READER_OWNED \<noteq> 0"
    unfolding reader_owned_ex using reader_has_or_skip by blast
qed (simp only: writer_owned_or_skip)

lemma obs_own:
  "(d OR KDATA_DSC_WRITER_OWNED) AND KDATA_DSC_WRITER_OWNED \<noteq> 0"
  "(d OR KDATA_DSC_WRITER_OWNED) AND KDATA_DSC_SKIPPED \<noteq> 0 \<longleftrightarrow> d AND KDATA_DSC_SKIPPED \<noteq> 0"
  "r \<in> {0..<6} \<Longrightarrow> reader_has r (d OR KDATA_DSC_WRITER_OWNED) \<longleftrightarrow> reader_has r d"
  "(d OR KDATA_DSC_WRITER_OWNED) AND KDATA_DSC_READER_OWNED \<noteq> 0 \<longleftrightarrow> d AND KDATA_DSC_READER_OWNED \<noteq> 0"
proof -
  show *: "reader_has r (d OR KDATA_DSC_WRITER_OWNED) \<longleftrightarrow> reader_has r d" if "r \<in> {0..<6}" for r
  proof -
    have "nat (2 + r) \<noteq> 0" using that by auto
    then have "\<not> bit (1::16 word) (nat (2 + r))" by (simp add: bit_1_iff)
    then show ?thesis using that by (simp only: reader_has_bit bit_or_iff KDATA_DSC_WRITER_OWNED_def simp_thms)
  qed
  show "(d OR KDATA_DSC_WRITER_OWNED) AND KDATA_DSC_READER_OWNED \<noteq> 0 \<longleftrightarrow> d AND KDATA_DSC_READER_OWNED \<noteq> 0"
    unfolding reader_owned_ex using * by blast
  show "(d OR KDATA_DSC_WRITER_OWNED) AND KDATA_DSC_WRITER_OWNED \<noteq> 0"
    by (simp add: and_1 bit_or_iff)
  show "(d OR KDATA_DSC_WRITER_OWNED) AND KDATA_DSC_SKIPPED \<noteq> 0 \<longleftrightarrow> d AND KDATA_DSC_SKIPPED \<noteq> 0"
    by (simp add: and_2 bit_or_iff bit_simps)
qed

lemma obs_disown:
  "(d AND NOT KDATA_DSC_WRITER_OWNED) AND KDATA_DSC_WRITER_OWNED = 0"
  "(d AND NOT KDATA_DSC_WRITER_OWNED) AND KDATA_DSC_SKIPPED \<noteq> 0 \<longleftrightarrow> d AND KDATA_DSC_SKIPPED \<noteq> 0"
  "r \<in> {0..<6} \<Longrightarrow> reader_has r (d AND NOT KDATA_DSC_WRITER_OWNED) \<longleftrightarrow> reader_has r d"
  "(d AND NOT KDATA_DSC_WRITER_OWNED) AND KDATA_DSC_READER_OWNED \<noteq> 0 \<longleftrightarrow> d AND KDATA_DSC_READER_OWNED \<noteq> 0"
proof -
  show *: "reader_has r (d AND NOT KDATA_DSC_WRITER_OWNED) \<longleftrightarrow> reader_has r d" if "r \<in> {0..<6}" for r
  proof -
    have "nat (2 + r) \<noteq> 0" "nat (2 + r) < 16" using that by auto
    then have "bit (NOT (1::16 word)) (nat (2 + r))" by (simp only: bit_not_iff bit_1_iff) simp
    then show ?thesis using that by (simp only: reader_has_bit bit_and_iff KDATA_DSC_WRITER_OWNED_def simp_thms)
  qed
  show "(d AND NOT KDATA_DSC_WRITER_OWNED) AND KDATA_DSC_READER_OWNED \<noteq> 0 \<longleftrightarrow> d AND KDATA_DSC_READER_OWNED \<noteq> 0"
    unfolding reader_owned_ex using * by blast
  show "(d AND NOT KDATA_DSC_WRITER_OWNED) AND KDATA_DSC_WRITER_OWNED = 0"
    by (rule bit_word_eqI) (auto simp: bit_simps)
  show "(d AND NOT KDATA_DSC_WRITER_OWNED) AND KDATA_DSC_SKIPPED \<noteq> 0 \<longleftrightarrow> d AND KDATA_DSC_SKIPPED \<noteq> 0"
    unfolding KDATA_DSC_SKIPPED_def and_2 by (simp add: bit_simps)
qed

lemma obs_take:
  assumes "r \<in> {0..<6}"
  shows "(d OR KDATA_DSC_READER_BIT r) AND KDATA_DSC_READER_OWNED \<noteq> 0"
  using assms reader_take_has [OF assms assms, of d] unfolding reader_owned_ex by blast

lemma release_none:
  assumes "r \<in> {0..<6}" "\<not> page_held d"
  shows "reader_release_val r d = d"
proof (rule bit_word_eqI)
  fix n :: nat assume "n < LENGTH(16)"
  have "\<not> bit d 1" "\<And>r. r \<in> {0..<6} \<Longrightarrow> \<not> reader_has r d"
    using assms(2) reader_owned_ex [of d] by (auto simp: page_held_def and_2)
  with assms(1) show "bit (reader_release_val r d) n = bit d n"
    using \<open>n < LENGTH(16)\<close> by (auto simp: bit_reader_release reader_has_bit)
qed

lemma obs_release:
  assumes r: "r \<in> {0..<6}"
  shows "reader_release_val r d AND KDATA_DSC_WRITER_OWNED \<noteq> 0 \<longleftrightarrow> d AND KDATA_DSC_WRITER_OWNED \<noteq> 0"
    and "page_held (reader_release_val r d) \<Longrightarrow> page_held d"
    and "reader_release_val r d AND KDATA_DSC_SKIPPED \<noteq> 0 \<Longrightarrow> reader_release_val r d AND KDATA_DSC_READER_OWNED \<noteq> 0"
proof -
  show "reader_release_val r d AND KDATA_DSC_WRITER_OWNED \<noteq> 0 \<longleftrightarrow> d AND KDATA_DSC_WRITER_OWNED \<noteq> 0"
    using reader_release_writer [OF r] by simp
  show "page_held (reader_release_val r d) \<Longrightarrow> page_held d"
    using release_none [OF r] by metis
  show "reader_release_val r d AND KDATA_DSC_READER_OWNED \<noteq> 0"
    if s: "reader_release_val r d AND KDATA_DSC_SKIPPED \<noteq> 0"
  proof -
    obtain r' where r': "r' \<in> {0..<6}" "r' \<noteq> r" "reader_has r' d"
      using s unfolding reader_release_skip [OF r] by blast
    then have "reader_has r' (reader_release_val r d)" using reader_release_has [OF r r'(1)] by simp
    with r'(1) show ?thesis unfolding reader_owned_ex by blast
  qed
qed

text \<open>The changes a reader makes to a descriptor: none, taking it, releasing it.\<close>

lemma reader_step_desc:
  assumes "reader_step r st st'" and "w_inv st" and "r \<in> {0..<6}"
  obtains (same) "cs_desc st' = cs_desc st"
  | (taken) off where "cs_desc st off AND KDATA_DSC_WRITER_OWNED = 0"
      "cs_desc st' = (cs_desc st)(off := cs_desc st off OR KDATA_DSC_READER_BIT r)"
  | (released) off where "cs_desc st' = (cs_desc st)(off := reader_release_val r (cs_desc st off))"
  using assms(1)
proof (cases rule: reader_step.cases)
  case (r_take off prev entered d)
  then show ?thesis using assms(2) by (intro taken [of off]) (auto simp: w_inv_def)
next
  case (r_drop_back rhead prev d)
  then show ?thesis by (intro released [of prev]) auto
next
  case (r_leave_back prev d)
  then show ?thesis by (intro released [of prev]) auto
qed (auto intro: same)

lemma reader_step_frame:
  assumes "reader_step r st st'"
  shows "cs_writer st' = cs_writer st" "cs_wresv st' = cs_wresv st" "cs_page st' = cs_page st" "cs_whead st' = cs_whead st"
    "r' \<noteq> r \<Longrightarrow> cs_reader st' r' = cs_reader st r'"
    "cs_reader st' r = R_Take off prev e d \<Longrightarrow> cs_reader st r = R_Take off prev e d \<or> d = cs_desc st off \<and> d AND KDATA_DSC_WRITER_OWNED = 0"
  using assms by (auto elim!: reader_stepE split: if_splits)

lemma reader_step_w_inv:
  assumes step: "reader_step r st st'" and inv: "w_inv st" and r: "r \<in> {0..<6}"
  shows "w_inv st'"
proof -
  note fr = reader_step_frame [OF step]
  have owns: "writer_owns st' off = writer_owns st off" for off by (simp add: writer_owns_def fr)
  have take: "d AND KDATA_DSC_WRITER_OWNED = 0" if "cs_reader st' r' = R_Take off prev e d" for r' off prev e d
    using inv that fr(5) [of r'] fr(6) [of off prev e d] by (cases "r' = r") (auto simp: w_inv_def)
  have desc: "(cs_desc st' off AND KDATA_DSC_WRITER_OWNED \<noteq> 0 \<longleftrightarrow> cs_desc st off AND KDATA_DSC_WRITER_OWNED \<noteq> 0) \<and>
     (cs_desc st' off AND KDATA_DSC_WRITER_OWNED \<noteq> 0 \<longrightarrow> cs_desc st' off = cs_desc st off) \<and>
     (cs_desc st' off AND KDATA_DSC_SKIPPED \<noteq> 0 \<longrightarrow> cs_desc st' off AND KDATA_DSC_READER_OWNED \<noteq> 0)" for off
    using step inv r
  proof (cases rule: reader_step_desc)
    case same
    then show ?thesis using inv by (auto simp: w_inv_def)
  next
    case (taken o')
    show ?thesis
    proof (cases "off = o'")
      case True
      then show ?thesis using taken obs_take [OF r] reader_take_low(1) [OF r] by simp
    next
      case False
      then show ?thesis using taken inv by (auto simp: w_inv_def)
    qed
  next
    case (released o')
    show ?thesis
    proof (cases "off = o'")
      case True
      then have d: "cs_desc st' off = reader_release_val r (cs_desc st off)" using released by simp
      have "\<not> page_held (cs_desc st off)" if "cs_desc st off AND KDATA_DSC_WRITER_OWNED \<noteq> 0"
        using inv that by (simp add: w_inv_def)
      then show ?thesis using obs_release [OF r, of "cs_desc st off"] release_none [OF r] unfolding d by blast
    next
      case False
      then show ?thesis using released inv by (auto simp: w_inv_def)
    qed
  qed
  have held: "\<not> page_held (cs_desc st' off)" if "cs_desc st' off AND KDATA_DSC_WRITER_OWNED \<noteq> 0" for off
  proof -
    have "cs_desc st' off = cs_desc st off" using desc [of off] that by blast
    with that inv show ?thesis by (simp add: w_inv_def)
  qed
  have own: "cs_desc st' off AND KDATA_DSC_WRITER_OWNED \<noteq> 0 \<longleftrightarrow> writer_owns st off" for off
  proof -
    have "cs_desc st off AND KDATA_DSC_WRITER_OWNED \<noteq> 0 \<longleftrightarrow> writer_owns st off"
      using inv unfolding w_inv_def by blast
    then show ?thesis using desc [of off] by blast
  qed
  have pub: "cs_desc st' off = d" if "cs_writer st = W_Publish off d" for off d
  proof -
    have "writer_owns st off" using that by (simp add: writer_owns_def)
    moreover have "cs_desc st off = d" using that inv by (simp add: w_inv_def)
    ultimately show ?thesis using desc [of off] own [of off] by blast
  qed
  have wr: "case cs_writer st of W_Skip off d \<Rightarrow> page_held d | W_Claim off d \<Rightarrow> page_free d
      | W_Own off \<Rightarrow> cs_wresv st = off | W_Publish off d \<Rightarrow> cs_wresv st = off \<and> cs_desc st' off = d | _ \<Rightarrow> True"
    using inv pub by (cases "cs_writer st") (simp_all add: w_inv_def)
  show ?thesis
    unfolding w_inv_def owns fr(1,2)
  proof (intro conjI allI impI)
    show "cs_desc st' off AND KDATA_DSC_READER_OWNED \<noteq> 0" if "cs_desc st' off AND KDATA_DSC_SKIPPED \<noteq> 0" for off
      using desc [of off] that by blast
  qed (fact own held wr take)+
qed

lemma w_invD:
  assumes "w_inv st"
  shows "cs_desc st off AND KDATA_DSC_WRITER_OWNED \<noteq> 0 \<longleftrightarrow> writer_owns st off"
    and "writer_owns st off \<Longrightarrow> \<not> page_held (cs_desc st off)"
    and "cs_desc st off AND KDATA_DSC_SKIPPED \<noteq> 0 \<Longrightarrow> cs_desc st off AND KDATA_DSC_READER_OWNED \<noteq> 0"
    and "cs_writer st = W_Skip off d \<Longrightarrow> page_held d"
    and "cs_writer st = W_Claim off d \<Longrightarrow> page_free d"
    and "cs_writer st = W_Own off \<Longrightarrow> cs_wresv st = off"
    and "cs_writer st = W_Publish off d \<Longrightarrow> cs_wresv st = off \<and> cs_desc st off = d"
    and "cs_reader st r = R_Take off prev e d \<Longrightarrow> d AND KDATA_DSC_WRITER_OWNED = 0"
proof -
  show own: "cs_desc st off AND KDATA_DSC_WRITER_OWNED \<noteq> 0 \<longleftrightarrow> writer_owns st off" for off
    using assms unfolding w_inv_def by blast
  show "\<not> page_held (cs_desc st off)" if "writer_owns st off"
    using assms own that unfolding w_inv_def by blast
  show "cs_desc st off AND KDATA_DSC_READER_OWNED \<noteq> 0" if "cs_desc st off AND KDATA_DSC_SKIPPED \<noteq> 0"
    using assms that unfolding w_inv_def by blast
  show "d AND KDATA_DSC_WRITER_OWNED = 0" if "cs_reader st r = R_Take off prev e d"
    using assms that unfolding w_inv_def by blast
qed (use assms in \<open>simp_all add: w_inv_def\<close>)

text \<open>To show \<open>w_inv\<close> after a step of the writer, only its own descriptor has to be looked at.\<close>

lemma w_invI:
  assumes inv: "w_inv st" and desc: "cs_desc st' = (cs_desc st)(off := d)" and rd: "cs_reader st' = cs_reader st"
    and other: "\<And>x. x \<noteq> off \<Longrightarrow> writer_owns st' x = writer_owns st x"
    and own: "d AND KDATA_DSC_WRITER_OWNED \<noteq> 0 \<longleftrightarrow> writer_owns st' off"
    and held: "d AND KDATA_DSC_WRITER_OWNED \<noteq> 0 \<Longrightarrow> \<not> page_held d"
    and skip: "d AND KDATA_DSC_SKIPPED \<noteq> 0 \<Longrightarrow> d AND KDATA_DSC_READER_OWNED \<noteq> 0"
    and pc: "case cs_writer st' of W_Skip off d \<Rightarrow> page_held d | W_Claim off d \<Rightarrow> page_free d
        | W_Own off \<Rightarrow> cs_wresv st' = off | W_Publish off d \<Rightarrow> cs_wresv st' = off \<and> cs_desc st' off = d | _ \<Rightarrow> True"
  shows "w_inv st'"
  unfolding w_inv_def
proof (intro conjI allI impI)
  fix x
  show "cs_desc st' x AND KDATA_DSC_WRITER_OWNED \<noteq> 0 \<longleftrightarrow> writer_owns st' x"
    using w_invD(1) [OF inv, of x] other [of x] own by (cases "x = off") (simp_all add: desc)
  show "\<not> page_held (cs_desc st' x)" if "cs_desc st' x AND KDATA_DSC_WRITER_OWNED \<noteq> 0"
    using that w_invD(1,2) [OF inv, of x] held by (cases "x = off") (simp_all add: desc)
  show "cs_desc st' x AND KDATA_DSC_READER_OWNED \<noteq> 0" if "cs_desc st' x AND KDATA_DSC_SKIPPED \<noteq> 0"
    using that w_invD(3) [OF inv, of x] skip by (cases "x = off") (simp_all add: desc)
next
  fix r x prev e d'
  assume "cs_reader st' r = R_Take x prev e d'"
  then show "d' AND KDATA_DSC_WRITER_OWNED = 0" using w_invD(8) [OF inv, of r x prev e d'] by (simp only: rd)
qed (fact pc)

lemma w_invI_same:
  assumes inv: "w_inv st" and "cs_desc st' = cs_desc st" "cs_reader st' = cs_reader st"
    and "\<And>x. writer_owns st' x = writer_owns st x"
    and "case cs_writer st' of W_Skip off d \<Rightarrow> page_held d | W_Claim off d \<Rightarrow> page_free d
        | W_Own off \<Rightarrow> cs_wresv st' = off | W_Publish off d \<Rightarrow> cs_wresv st' = off \<and> cs_desc st' off = d | _ \<Rightarrow> True"
  shows "w_inv st'"
proof (rule w_invI [OF inv, where off = 0 and d = "cs_desc st 0"])
  show "cs_desc st 0 AND KDATA_DSC_WRITER_OWNED \<noteq> 0 \<longleftrightarrow> writer_owns st' 0"
    using w_invD(1) [OF inv, of 0] assms(4) by blast
  show "\<not> page_held (cs_desc st 0)" if "cs_desc st 0 AND KDATA_DSC_WRITER_OWNED \<noteq> 0"
    using that w_invD(1,2) [OF inv, of 0] by blast
  show "cs_desc st 0 AND KDATA_DSC_READER_OWNED \<noteq> 0" if "cs_desc st 0 AND KDATA_DSC_SKIPPED \<noteq> 0"
    by (rule w_invD(3) [OF inv that])
qed (use assms in simp_all)

lemma writer_step_w_inv:
  assumes step: "writer_step st st'" and inv: "w_inv st"
  shows "w_inv st'"
  using step
proof (cases rule: writer_step.cases)
  case (w_skip off d)
  have held: "page_held d" by (rule w_invD(4) [OF inv w_skip(2)])
  have nw: "\<not> d AND KDATA_DSC_WRITER_OWNED \<noteq> 0"
    using w_invD(1,2) [OF inv, of off] held w_skip(3) by blast
  have "d AND KDATA_DSC_READER_OWNED \<noteq> 0" using held w_invD(3) [OF inv, of off] w_skip(3) unfolding page_held_def by blast
  then show ?thesis
    using w_skip nw obs_skip [of d]
    by (intro w_invI [OF inv, where off = off and d = "d OR KDATA_DSC_SKIPPED"])
       (simp_all add: writer_owns_def)
next
  case (w_claim off d)
  have free: "page_free d" by (rule w_invD(5) [OF inv w_claim(2)])
  then show ?thesis
    using w_claim obs_own(1,2,4) [of d]
    by (intro w_invI [OF inv, where off = off and d = "d OR KDATA_DSC_WRITER_OWNED"])
       (auto simp: writer_owns_def page_free_def page_held_def)
next
  case (w_publish off d)
  have "\<not> page_held d" using w_invD(2) [OF inv, of off] w_publish by (simp add: writer_owns_def)
  then show ?thesis
    using w_publish obs_disown(1,2,4) [of d]
    by (intro w_invI [OF inv, where off = off and d = "d AND NOT KDATA_DSC_WRITER_OWNED"])
       (simp_all add: writer_owns_def page_held_def)
next
  case (w_publish_fail off d)
  then show ?thesis using w_invD(7) [OF inv] by blast
next
  case (w_second off)
  then show ?thesis using w_invD(6) [OF inv] by (intro w_invI_same [OF inv]) (simp_all add: writer_owns_def)
next
  case (w_store off pg)
  then show ?thesis using w_invD(6) [OF inv] by (intro w_invI_same [OF inv]) (simp_all add: writer_owns_def)
qed (intro w_invI_same [OF inv]; simp add: writer_owns_def)+

lemma conc_start_w_inv: "conc_start st \<Longrightarrow> w_inv st"
proof -
  assume start: "conc_start st"
  then have no: "cs_reader st r \<noteq> R_Take off prev e d" for r off prev e d
    by (metis conc_start_def rpc.distinct(3))
  from start show ?thesis using no by (simp add: w_inv_def conc_start_def writer_owns_def)
qed

lemma conc_step_w_inv: "conc_step st st' \<Longrightarrow> w_inv st \<Longrightarrow> w_inv st'"
  by (erule conc_step.cases) (auto intro: writer_step_w_inv reader_step_w_inv)

lemma conc_reach_w_inv: "conc_reach st \<Longrightarrow> w_inv st"
proof (induction rule: conc_reach.induct)
  case (start st)
  then show ?case by (rule conc_start_w_inv)
next
  case (step st st')
  then show ?case using conc_step_w_inv by blast
qed


section \<open>Readers hold what they think they hold\<close>









section \<open>Properties\<close>

text \<open>An example: a fresh ring, the steps of the writer up to the publication, the first read of reader 2.\<close>

definition conc0 :: conc where
  "conc0 = \<lparr>cs_whead = 2047, cs_wresv = 0, cs_desc = (\<lambda>_. 0), cs_page = (\<lambda>_ _. 0), cs_writer = W_Idle,
     cs_reader = (\<lambda>_. R_Rest 0 False)\<rparr>"

lemma conc0_start: "conc_start conc0"
  by (simp add: conc_start_def conc0_def)

lemma reach_publish: "\<exists>st. conc_reach st \<and> cs_writer st = W_Publish 0 1"
proof -
  define s1 where "s1 = conc0\<lparr>cs_writer := W_Read (kdata_next (cs_whead conc0))\<rparr>"
  define s2 where "s2 = s1\<lparr>cs_writer := W_Claim 0 (cs_desc s1 0)\<rparr>"
  define sr where "sr = s2\<lparr>cs_desc := (cs_desc s2)(0 := 0 OR KDATA_DSC_WRITER_OWNED), cs_writer := W_Resv 0\<rparr>"
  define s3 where "s3 = sr\<lparr>cs_wresv := 0, cs_writer := W_Own 0\<rparr>"
  define s4 where "s4 = s3\<lparr>cs_writer := W_Publish (cs_wresv s3) (cs_desc s3 (cs_wresv s3))\<rparr>"
  note step = conc_reach.step [OF _ conc_step.writer]
  have r1: "conc_reach s1"
    unfolding s1_def by (rule step [OF conc_reach.start [OF conc0_start] writer_step.w_start]) (simp add: conc0_def)
  have r2: "conc_reach s2"
    unfolding s2_def by (rule step [OF r1 writer_step.w_free]) (simp_all add: s1_def conc0_def kdata_next_def page_free_def)
  have rr: "conc_reach sr"
    unfolding sr_def by (rule step [OF r2 writer_step.w_claim]) (simp_all add: s2_def s1_def conc0_def)
  have r3: "conc_reach s3"
    unfolding s3_def by (rule step [OF rr writer_step.w_resv]) (simp add: sr_def)
  have r4: "conc_reach s4"
    unfolding s4_def by (rule step [OF r3 writer_step.w_second]) (simp add: s3_def)
  then show ?thesis by (intro exI [of _ s4]) (simp add: s4_def s3_def sr_def)
qed


text \<open>
  Whatever the interleaving, when the writer publishes its page the descriptor still has the value
  it read: the compare-and-swap of \<open>kdata_writer_release\<close> cannot fail, as its comment expects, and
  the page published is the one the writer filled in.
\<close>

lemma publish_never_fails:
  assumes "conc_reach st" and "cs_writer st = W_Publish off d"
  shows "cs_desc st off = d \<and> cs_wresv st = off \<and> d AND KDATA_DSC_WRITER_OWNED \<noteq> 0 \<and> \<not> page_held d"
proof -
  have inv: "w_inv st" by (rule conc_reach_w_inv [OF assms(1)])
  have "writer_owns st off" using assms(2) by (simp add: writer_owns_def)
  then show ?thesis using w_invD(1,2) [OF inv, of off] w_invD(7) [OF inv assms(2)] by blast
qed

lemma publish_never_fails_witness: "\<exists>st. conc_reach st \<and> cs_writer st = W_Publish 0 1 \<and> cs_desc st 0 = 1"
  using reach_publish publish_never_fails by blast





text \<open>
  Two writers on one ring lose a page: when the second reserves before the first publishes, the
  first call of \<open>kdata_write_SECOND\<close> publishes the page of the second writer, which is still filling
  it in, and the page of the first stays marked as owned by a writer after both have finished.
\<close>

lemma two_writers_lose_page:
  assumes a: "ring_ix ua 0 = i" "ring_ix ub 0 = i"
    and free: "page_free (kd_desc (kr_control (rs i)) p)" "page_free (kd_desc (kr_control (rs i)) q)"
    and pq: "p = kdata_next (head_whead (kd_head (kr_control (rs i))))" "q = kdata_next p" "p < 2048"
  shows "\<exists>rs1 rs2. kdata_write_FIRST ua rs = Some (kdata_page_data ua 0 p, rs1) \<and>
     kdata_write_FIRST ub rs1 = Some (kdata_page_data ub 0 q, rs2) \<and>
     (let rs3 = kdata_write_SECOND ua rs2; rs4 = kdata_write_SECOND ub rs3 in
      head_whead (kd_head (kr_control (rs3 i))) = q \<and>
      kd_desc (kr_control (rs3 i)) q AND KDATA_DSC_WRITER_OWNED = 0 \<and>
      kd_desc (kr_control (rs4 i)) p AND KDATA_DSC_WRITER_OWNED \<noteq> 0)"
proof -
  define c where "c = kr_control (rs i)"
  define c1 where "c1 = set_wresv p (set_desc p (kd_desc c p OR KDATA_DSC_WRITER_OWNED) c)"
  define c2 where "c2 = set_wresv q (set_desc q (kd_desc c q OR KDATA_DSC_WRITER_OWNED) c1)"
  have ne: "q \<noteq> p" using kdata_next_neq [OF pq(3)] pq(2) by simp
  have "kdata_find_write_loc c = find_write_retry c p" by (simp add: kdata_find_write_loc_def c_def pq(1))
  also have "\<dots> = Some (p, set_desc p (kd_desc c p OR KDATA_DSC_WRITER_OWNED) c)"
    using free(1) by (subst find_write_retry_unfold) (simp add: c_def)
  finally have "kdata_find_write_loc c = Some (p, set_desc p (kd_desc c p OR KDATA_DSC_WRITER_OWNED) c)" .
  then have w1: "kdata_write_FIRST ua rs = Some (kdata_page_data ua 0 p, upd_control i (\<lambda>_. c1) rs)"
    by (simp add: kdata_write_FIRST_def a c_def c1_def)
  have nf: "\<not> page_free (kd_desc c1 p)" "\<not> page_held (kd_desc c1 p)"
    using free(1) obs_own(1,2,4) [of "kd_desc c p"] by (auto simp: c1_def c_def page_free_def page_held_def)
  then have "passed c1 p = c1" by (simp add: passed_def)
  then have "find_write_retry c1 p = find_write_retry c1 q"
    using nf pq(2) by (subst find_write_retry_unfold) simp
  also have "\<dots> = Some (q, set_desc q (kd_desc c q OR KDATA_DSC_WRITER_OWNED) c1)"
    using free(2) ne by (subst find_write_retry_unfold) (simp add: c1_def c_def)
  finally have "kdata_find_write_loc c1 = Some (q, set_desc q (kd_desc c q OR KDATA_DSC_WRITER_OWNED) c1)"
    using pq(1) by (simp add: kdata_find_write_loc_def c1_def c_def)
  then have w2: "kdata_write_FIRST ub (upd_control i (\<lambda>_. c1) rs) = Some (kdata_page_data ub 0 q, upd_control i (\<lambda>_. c2) rs)"
    by (simp add: kdata_write_FIRST_def a c2_def upd_control_def)
  have sec: "kdata_write_SECOND u (upd_control i (\<lambda>_. c') rs) = upd_control i
      (\<lambda>_. set_whead (head_wresv (kd_head c')) (set_desc (head_wresv (kd_head c')) (kd_desc c' (head_wresv (kd_head c')) AND NOT KDATA_DSC_WRITER_OWNED) c')) rs"
    if "ring_ix u 0 = i" for u c'
    using that by (simp add: kdata_write_SECOND_def kdata_writer_release_def kdata_read_desc_def Let_def upd_control_def)
  have "head_wresv (kd_head c2) = q" by (simp add: c2_def)
  with ne show ?thesis
    using w1 w2 obs_own(1) [of "kd_desc c p"] obs_disown(1) [of "kd_desc c2 q"]
    by (intro exI [of _ "upd_control i (\<lambda>_. c1) rs"] exI [of _ "upd_control i (\<lambda>_. c2) rs"])
       (simp add: Let_def sec a, simp add: c2_def c1_def)
qed

definition writer_handle :: "int \<Rightarrow> kring_user" where
  "writer_handle w = \<lparr>u_socket = 3, u_ring_id = 0, u_nrings = 1, u_writer_id = w, u_reader_id = -1,
     u_mode = KRING_WRITE, u_krerr = 0, u_errno = 0\<rparr>"

lemma two_writers_lose_page_witness:
  "\<exists>rs1 rs2. kdata_write_FIRST (writer_handle 0) (\<lambda>_. kdata_zeroed) = Some (kdata_page_data (writer_handle 0) 0 1, rs1) \<and>
     kdata_write_FIRST (writer_handle 1) rs1 = Some (kdata_page_data (writer_handle 1) 0 2, rs2) \<and>
     (let rs3 = kdata_write_SECOND (writer_handle 0) rs2; rs4 = kdata_write_SECOND (writer_handle 1) rs3 in
      head_whead (kd_head (kr_control (rs3 0))) = 2 \<and>
      kd_desc (kr_control (rs3 0)) 2 AND KDATA_DSC_WRITER_OWNED = 0 \<and>
      kd_desc (kr_control (rs4 0)) 1 AND KDATA_DSC_WRITER_OWNED \<noteq> 0)"
proof (rule two_writers_lose_page)
  have nx: "kdata_next 0 = 1" "kdata_next 1 = 2" by (simp_all add: kdata_next_def word_le_nat_alt)
  show "1 = kdata_next (head_whead (kd_head (kr_control kdata_zeroed)))" by (simp add: kdata_zeroed_def nx)
  show "2 = kdata_next 1" by (simp add: nx)
  show "page_free (kd_desc (kr_control kdata_zeroed) 1)" "page_free (kd_desc (kr_control kdata_zeroed) 2)"
    by (simp_all add: kdata_zeroed_def page_free_def)
qed (simp_all add: ring_ix_def writer_handle_def word_less_nat_alt)

end
