(* ===== verification/Avl.thy ===== *)
theory Avl
  imports Main "HOL-Library.Tree"
begin

text \<open>
  The intrusive AVL tree of the shuttle module: \<open>shuttle/avl.h\<close> and \<open>shuttle/avl.c\<close>. The elements
  live in a heap that maps addresses to \<open>struct avl_el\<close>; address 0 is the null pointer. The
  operations below are the C functions, pointer assignment by pointer assignment; the value \<open>None\<close>
  says that the code follows a null pointer or does not return. \<open>Avl_Tree\<close> shows that on a
  well-formed tree neither happens.
\<close>

section \<open>Elements and trees\<close>

type_synonym ptr = nat

record avl_el =
  el_left :: ptr
  el_right :: ptr
  el_parent :: ptr
  el_prev :: ptr
  el_next :: ptr
  el_height :: int

type_synonym avl_heap = "ptr \<Rightarrow> avl_el"

record avl_tree =
  avl_root :: ptr
  avl_head :: ptr
  avl_tail :: ptr
  avl_size :: int

definition set_left :: "ptr \<Rightarrow> ptr \<Rightarrow> avl_heap \<Rightarrow> avl_heap" where
  "set_left p v h = h(p := (h p)\<lparr>el_left := v\<rparr>)"

definition set_right :: "ptr \<Rightarrow> ptr \<Rightarrow> avl_heap \<Rightarrow> avl_heap" where
  "set_right p v h = h(p := (h p)\<lparr>el_right := v\<rparr>)"

definition set_parent :: "ptr \<Rightarrow> ptr \<Rightarrow> avl_heap \<Rightarrow> avl_heap" where
  "set_parent p v h = h(p := (h p)\<lparr>el_parent := v\<rparr>)"

definition set_height :: "ptr \<Rightarrow> int \<Rightarrow> avl_heap \<Rightarrow> avl_heap" where
  "set_height p v h = h(p := (h p)\<lparr>el_height := v\<rparr>)"

text \<open>\<open>p ? p->height : 0\<close>, and \<open>(lheight > rheight ? lheight : rheight) + 1\<close> over the children of \<open>p\<close>.\<close>

definition height_at :: "avl_heap \<Rightarrow> ptr \<Rightarrow> int" where
  "height_at h p = (if p \<noteq> 0 then el_height (h p) else 0)"

definition height_above :: "avl_heap \<Rightarrow> ptr \<Rightarrow> int" where
  "height_above h p =
     (let lheight = height_at h (el_left (h p)); rheight = height_at h (el_right (h p)) in
      (if lheight > rheight then lheight else rheight) + 1)"

section \<open>Rebalancing\<close>

partial_function (option) unbal_gp_loop :: "avl_heap \<Rightarrow> ptr \<Rightarrow> ptr \<Rightarrow> ptr option" where
  [code]: "unbal_gp_loop h element gp =
     (if gp = 0 then Some 0
      else let balanceProp = height_at h (el_left (h gp)) - height_at h (el_right (h gp)) in
        if balanceProp < -1 \<or> balanceProp > 1 then Some element
        else unbal_gp_loop h (el_parent (h element)) (el_parent (h gp)))"

definition find_first_unbal_gp :: "avl_heap \<Rightarrow> ptr \<Rightarrow> ptr option" where
  "find_first_unbal_gp h element =
     (if element = 0 \<or> el_parent (h element) = 0 \<or> el_parent (h (el_parent (h element))) = 0 then Some 0
      else unbal_gp_loop h element (el_parent (h (el_parent (h element)))))"

partial_function (option) recalc_heights :: "avl_heap \<Rightarrow> ptr \<Rightarrow> avl_heap option" where
  [code]: "recalc_heights h element =
     (if element = 0 then Some h
      else let new_height = height_above h element in
        if new_height = el_height (h element) then Some h
        else recalc_heights (set_height element new_height h) (el_parent (h element)))"

text \<open>The nodes \<open>a\<close>, \<open>b\<close>, \<open>c\<close> and the subtrees \<open>t1\<close> to \<open>t4\<close> of the rotation, by the shape of \<open>n\<close>, \<open>p\<close>, \<open>gp\<close>.\<close>

definition rotation :: "avl_heap \<Rightarrow> ptr \<Rightarrow> ptr \<Rightarrow> ptr \<Rightarrow> (ptr \<times> ptr \<times> ptr) \<times> (ptr \<times> ptr \<times> ptr \<times> ptr)" where
  "rotation h n p gp =
     (if el_right (h gp) = p then
        if el_right (h p) = n
        then ((gp, p, n), (el_left (h gp), el_left (h p), el_left (h n), el_right (h n)))
        else ((gp, n, p), (el_left (h gp), el_left (h n), el_right (h n), el_right (h p)))
      else
        if el_right (h p) = n
        then ((p, n, gp), (el_left (h p), el_left (h n), el_right (h n), el_right (h gp)))
        else ((n, p, gp), (el_left (h n), el_right (h n), el_right (h p), el_right (h gp))))"

definition tie_parent :: "ptr \<Rightarrow> ptr \<Rightarrow> avl_heap \<Rightarrow> avl_heap" where
  "tie_parent t v h = (if t \<noteq> 0 then set_parent t v h else h)"

text \<open>The rotation: \<open>b\<close> takes the place of \<open>gp\<close> below \<open>ggp\<close>, \<open>a\<close> and \<open>c\<close> become its children.\<close>

definition tie_top :: "ptr \<Rightarrow> ptr \<Rightarrow> ptr \<Rightarrow> avl_tree \<times> avl_heap \<Rightarrow> avl_tree \<times> avl_heap" where
  "tie_top ggp gp b s =
     (case s of (tree, h) \<Rightarrow>
        if ggp = 0 then (tree\<lparr>avl_root := b\<rparr>, h)
        else if el_left (h ggp) = gp then (tree, set_left ggp b h)
        else (tree, set_right ggp b h))"

definition tie_nodes :: "ptr \<Rightarrow> ptr \<times> ptr \<times> ptr \<Rightarrow> ptr \<times> ptr \<times> ptr \<times> ptr \<Rightarrow> avl_heap \<Rightarrow> avl_heap" where
  "tie_nodes ggp abc ts h =
     (case (abc, ts) of ((a, b, c), (t1, t2, t3, t4)) \<Rightarrow>
      let h = set_parent b ggp h;
          h = set_left b a h; h = set_parent a b h;
          h = set_right b c h; h = set_parent c b h;
          h = set_left a t1 h; h = tie_parent t1 a h;
          h = set_right a t2 h; h = tie_parent t2 a h;
          h = set_left c t3 h; h = tie_parent t3 c h;
          h = set_right c t4 h; h = tie_parent t4 c h;
          h = set_height a (height_above h a) h;
          h = set_height c (height_above h c) h;
          lheight = el_height (h a); rheight = el_height (h c)
      in set_height b ((if lheight > rheight then lheight else rheight) + 1) h)"

definition rebalance :: "avl_tree \<Rightarrow> avl_heap \<Rightarrow> ptr \<Rightarrow> (ptr \<times> avl_tree \<times> avl_heap) option" where
  "rebalance tree h n =
     (let p = el_parent (h n); gp = el_parent (h p) in
      if n = 0 \<or> p = 0 \<or> gp = 0 then None
      else
        let ggp = el_parent (h gp);
            (abc, ts) = rotation h n p gp;
            (tree, h) = tie_top ggp gp (fst (snd abc)) (tree, h);
            h = tie_nodes ggp abc ts h
        in case recalc_heights h ggp of None \<Rightarrow> None | Some h \<Rightarrow> Some (ggp, tree, h))"

section \<open>Insertion and search\<close>

text \<open>Linking the new leaf and, in the build without \<open>WALKABLE\<close>, maintaining the first and the last element.\<close>

definition attach_leaf :: "avl_tree \<Rightarrow> avl_heap \<Rightarrow> ptr \<Rightarrow> ptr \<Rightarrow> ptr \<Rightarrow> (avl_tree \<times> avl_heap) option" where
  "attach_leaf tree h element parentEl lastLess =
     (let tree = tree\<lparr>avl_size := avl_size tree + 1\<rparr>;
          h = set_height element 1 (set_right element 0 (set_left element 0 (set_parent element parentEl h)))
      in if parentEl \<noteq> 0 then
           let h = (if lastLess = parentEl then set_left parentEl element h else set_right parentEl element h) in
           if avl_head tree = 0 \<or> avl_tail tree = 0 then None
           else
             let tree = (if el_left (h (avl_head tree)) = element then tree\<lparr>avl_head := element\<rparr> else tree);
                 tree = (if el_right (h (avl_tail tree)) = element then tree\<lparr>avl_tail := element\<rparr> else tree)
             in Some (tree, h)
         else Some (tree\<lparr>avl_root := element, avl_head := element, avl_tail := element\<rparr>, h))"

definition avl_attach_rebal :: "avl_tree \<Rightarrow> avl_heap \<Rightarrow> ptr \<Rightarrow> ptr \<Rightarrow> ptr \<Rightarrow> (avl_tree \<times> avl_heap) option" where
  "avl_attach_rebal tree h element parentEl lastLess =
     (case attach_leaf tree h element parentEl lastLess of None \<Rightarrow> None
      | Some (tree, h) \<Rightarrow>
        (case recalc_heights h parentEl of None \<Rightarrow> None
         | Some h \<Rightarrow>
           (case find_first_unbal_gp h element of None \<Rightarrow> None
            | Some ub \<Rightarrow>
              if ub \<noteq> 0 then map_option snd (rebalance tree h ub) else Some (tree, h))))"

text \<open>
  The functions that the macro \<open>avl_declare\<close> generates, for the comparison \<open>cmp\<close> of the type that
  contains the element; \<open>key p\<close> is the object that contains the element at \<open>p\<close> (\<open>container_of\<close>).
\<close>

partial_function (option) find_loop ::
  "('k \<Rightarrow> 'k \<Rightarrow> int) \<Rightarrow> (ptr \<Rightarrow> 'k) \<Rightarrow> avl_heap \<Rightarrow> 'k \<Rightarrow> ptr \<Rightarrow> ptr option" where
  [code]: "find_loop cmp key h k curEl =
     (if curEl = 0 then Some 0
      else let keyRelation = cmp k (key curEl) in
        if keyRelation < 0 then find_loop cmp key h k (el_left (h curEl))
        else if keyRelation > 0 then find_loop cmp key h k (el_right (h curEl))
        else Some curEl)"

definition avl_find :: "('k \<Rightarrow> 'k \<Rightarrow> int) \<Rightarrow> (ptr \<Rightarrow> 'k) \<Rightarrow> avl_tree \<Rightarrow> avl_heap \<Rightarrow> 'k \<Rightarrow> ptr option" where
  "avl_find cmp key tree h k = find_loop cmp key h k (avl_root tree)"

text \<open>The loop of \<open>insert\<close> ends at the place to attach (parent, last element that was greater) or at an equal key.\<close>

datatype descent = Attach ptr ptr | Hit ptr

partial_function (option) insert_loop ::
  "('k \<Rightarrow> 'k \<Rightarrow> int) \<Rightarrow> (ptr \<Rightarrow> 'k) \<Rightarrow> avl_heap \<Rightarrow> 'k \<Rightarrow> ptr \<Rightarrow> ptr \<Rightarrow> ptr \<Rightarrow> descent option" where
  [code]: "insert_loop cmp key h k curEl parentEl lastLess =
     (if curEl = 0 then Some (Attach parentEl lastLess)
      else let keyRelation = cmp k (key curEl) in
        if keyRelation < 0 then insert_loop cmp key h k (el_left (h curEl)) curEl curEl
        else if keyRelation > 0 then insert_loop cmp key h k (el_right (h curEl)) curEl lastLess
        else Some (Hit curEl))"

text \<open>The result is the value returned, what goes to \<open>*lastFound\<close>, the tree and the heap.\<close>

definition avl_insert :: "('k \<Rightarrow> 'k \<Rightarrow> int) \<Rightarrow> (ptr \<Rightarrow> 'k) \<Rightarrow> avl_tree \<Rightarrow> avl_heap \<Rightarrow> ptr \<Rightarrow>
    (ptr \<times> ptr \<times> avl_tree \<times> avl_heap) option" where
  "avl_insert cmp key tree h element =
     (case insert_loop cmp key h (key element) (avl_root tree) 0 0 of None \<Rightarrow> None
      | Some (Hit curEl) \<Rightarrow> Some (0, curEl, tree, h)
      | Some (Attach parentEl lastLess) \<Rightarrow>
        (case avl_attach_rebal tree h element parentEl lastLess of None \<Rightarrow> None
         | Some (tree, h) \<Rightarrow> Some (element, element, tree, h)))"

end
