(* ===== verification/Avl_Tree.thy ===== *)
theory Avl_Tree
  imports Avl
begin

text \<open>
  Correctness of the AVL tree. A tree of addresses stands for the links in the heap (\<open>tree_at\<close>); a
  position in it is a context, the list of frames from the position up to the root, which is the
  path the loops of the code take along the parent pointers. \<open>rot\<close> is the rotation on trees.
\<close>

section \<open>Balanced trees and contexts\<close>

fun balanced :: "'a tree \<Rightarrow> bool" where
  "balanced Leaf = True"
| "balanced (Node l x r) = (\<bar>int (height l) - int (height r)\<bar> \<le> 1 \<and> balanced l \<and> balanced r)"

datatype 'a frame = Below_Left 'a "'a tree" | Below_Right "'a tree" 'a

primrec plug1 :: "'a frame \<Rightarrow> 'a tree \<Rightarrow> 'a tree" where
  "plug1 (Below_Left x r) t = Node t x r"
| "plug1 (Below_Right l x) t = Node l x t"

primrec plug :: "'a frame list \<Rightarrow> 'a tree \<Rightarrow> 'a tree" where
  "plug [] t = t"
| "plug (f # c) t = plug c (plug1 f t)"

lemma plug_append: "plug (c @ c') t = plug c' (plug c t)"
  by (induction c arbitrary: t) auto

primrec frame_ptr :: "'a frame \<Rightarrow> 'a" where
  "frame_ptr (Below_Left x r) = x"
| "frame_ptr (Below_Right l x) = x"

primrec frame_tree :: "'a frame \<Rightarrow> 'a tree" where
  "frame_tree (Below_Left x r) = r"
| "frame_tree (Below_Right l x) = l"

primrec before_hole :: "'a frame list \<Rightarrow> 'a list" where
  "before_hole [] = []"
| "before_hole (f # c) = before_hole c @ (case f of Below_Left x r \<Rightarrow> [] | Below_Right l x \<Rightarrow> inorder l @ [x])"

primrec after_hole :: "'a frame list \<Rightarrow> 'a list" where
  "after_hole [] = []"
| "after_hole (f # c) = (case f of Below_Left x r \<Rightarrow> x # inorder r | Below_Right l x \<Rightarrow> []) @ after_hole c"

lemma inorder_plug: "inorder (plug c t) = before_hole c @ inorder t @ after_hole c"
  by (induction c arbitrary: t) (auto split: frame.splits)

lemma size_plug: "size (plug c t) = size (plug c Leaf) + size t"
proof -
  have "length (inorder (plug c t)) = length (inorder (plug c Leaf)) + length (inorder t)"
    by (simp add: inorder_plug)
  then show ?thesis by simp
qed

lemma height_plug1: "height (plug1 f t) = max (height t) (height (frame_tree f)) + 1"
  by (cases f) auto

lemma balanced_plug1:
  "balanced (plug1 f t) \<longleftrightarrow> \<bar>int (height t) - int (height (frame_tree f))\<bar> \<le> 1 \<and> balanced t \<and> balanced (frame_tree f)"
  by (cases f) auto

lemma balanced_plug_hole: "balanced (plug c t) \<Longrightarrow> balanced t"
  by (induction c arbitrary: t) (simp, metis plug.simps(2) balanced_plug1)

text \<open>A tree of the same height in the same place does not disturb the balance.\<close>

lemma balanced_plug_same:
  "balanced (plug c t) \<Longrightarrow> balanced t' \<Longrightarrow> height t' = height t \<Longrightarrow> balanced (plug c t')"
proof (induction c arbitrary: t t')
  case (Cons f c)
  have "balanced (plug1 f t)" using Cons.prems(1) balanced_plug_hole by (simp, blast)
  then show ?case
    using Cons.prems by (auto intro!: Cons.IH [of "plug1 f t"] simp: balanced_plug1 height_plug1)
qed simp

section \<open>The rotation\<close>

text \<open>\<open>rot f1 f2 t\<close>: the subtree of the grandparent of \<open>t\<close> after the rotation.\<close>

fun rot :: "'a frame \<Rightarrow> 'a frame \<Rightarrow> 'a tree \<Rightarrow> 'a tree" where
  "rot (Below_Right t2 p) (Below_Right t1 gp) (Node t3 n t4) = Node (Node t1 gp t2) p (Node t3 n t4)"
| "rot (Below_Left p t4) (Below_Right t1 gp) (Node t2 n t3) = Node (Node t1 gp t2) n (Node t3 p t4)"
| "rot (Below_Right t1 p) (Below_Left gp t4) (Node t2 n t3) = Node (Node t1 p t2) n (Node t3 gp t4)"
| "rot (Below_Left p t3) (Below_Left gp t4) (Node t1 n t2) = Node (Node t1 n t2) p (Node t3 gp t4)"
| "rot f1 f2 Leaf = plug1 f2 (plug1 f1 Leaf)"

lemma inorder_rot: "inorder (rot f1 f2 t) = inorder (plug1 f2 (plug1 f1 t))"
  by (cases "(f1, f2, t)" rule: rot.cases) auto

lemma inorder_plug_rot: "inorder (plug c (rot f1 f2 t)) = inorder (plug (f1 # f2 # c) t)"
  by (simp add: inorder_plug inorder_rot)

text \<open>
  When \<open>t\<close> has grown by one and its grandparent is the first ancestor out of balance, the rotation
  balances it and gives it the height it had before.
\<close>

lemma rot_restores:
  assumes old: "balanced (plug1 f2 (plug1 f1 t0))" and grown: "height t = height t0 + 1" and bal: "balanced (plug1 f1 t)"
    and grown1: "height (plug1 f1 t) = height (plug1 f1 t0) + 1" and unbal: "\<not> balanced (plug1 f2 (plug1 f1 t))"
  shows "balanced (rot f1 f2 t) \<and> height (rot f1 f2 t) = height (plug1 f2 (plug1 f1 t0))"
proof -
  obtain l x r where t: "t = Node l x r" using grown by (cases t) auto
  have "balanced t" "balanced t0" "balanced (frame_tree f1)" "balanced (frame_tree f2)"
    using old bal by (simp_all add: balanced_plug1)
  then show ?thesis
    using assms unfolding t
    by (cases f1; cases f2) (auto simp: max_def split: if_splits)
qed

text \<open>
  After \<open>t0\<close> has grown into \<open>t\<close>, either the whole tree is balanced, or there is a first ancestor out
  of balance, and the rotation there balances the whole tree.
\<close>

lemma first_unbalanced:
  assumes "balanced (plug (f1 # f2 # c) t0)" "height t = height t0 + 1" "balanced (plug1 f1 t)"
  shows "balanced (plug (f1 # f2 # c) t) \<or>
    (\<exists>pre g1 g2 c'. f1 # f2 # c = pre @ g1 # g2 # c' \<and> balanced (plug1 g1 (plug pre t)) \<and>
       \<not> balanced (plug1 g2 (plug1 g1 (plug pre t))) \<and> balanced (plug c' (rot g1 g2 (plug pre t))))"
  using assms
proof (induction c arbitrary: f1 f2 t t0)
  case Nil
  have "balanced (rot f1 f2 t)" if "\<not> balanced (plug1 f2 (plug1 f1 t))"
  proof (cases "height (plug1 f1 t) = height (plug1 f1 t0)")
    case True
    then show ?thesis using Nil that by (simp add: balanced_plug1)
  next
    case False
    then have "height (plug1 f1 t) = height (plug1 f1 t0) + 1" using Nil(2) by (auto simp: height_plug1)
    then show ?thesis using rot_restores [of f2 f1 t0 t] Nil that by simp
  qed
  then show ?case using Nil(3) by (metis append_Nil plug.simps)
next
  case (Cons f3 c)
  let ?P = "plug1 f1 t" and ?Q = "plug1 f1 t0"
  have "height ?P = height ?Q \<or> height ?P = height ?Q + 1"
    using Cons.prems(2) by (auto simp: height_plug1)
  then consider (same) "height ?P = height ?Q" | (rotate) "height ?P = height ?Q + 1" "\<not> balanced (plug1 f2 ?P)"
    | (up) "height ?P = height ?Q + 1" "balanced (plug1 f2 ?P)"
    by blast
  then show ?case
  proof cases
    case same
    have "balanced (plug (f2 # f3 # c) ?P)"
      by (rule balanced_plug_same [of _ ?Q]) (use Cons.prems same in simp_all)
    then show ?thesis by simp
  next
    case rotate
    have "balanced (plug1 f2 ?Q)" using Cons.prems(1) balanced_plug_hole [of "f3 # c"] by simp
    then have "balanced (rot f1 f2 t) \<and> height (rot f1 f2 t) = height (plug1 f2 ?Q)"
      using rot_restores [of f2 f1 t0 t] Cons.prems rotate by blast
    then have "balanced (plug (f3 # c) (rot f1 f2 t))"
      using Cons.prems(1) balanced_plug_same [of "f3 # c" "plug1 f2 ?Q"] by simp
    then show ?thesis using Cons.prems(3) rotate(2) by (metis append_Nil plug.simps(1))
  next
    case up
    then have "balanced (plug (f2 # f3 # c) ?P) \<or>
      (\<exists>pre g1 g2 c'. f2 # f3 # c = pre @ g1 # g2 # c' \<and> balanced (plug1 g1 (plug pre ?P)) \<and>
         \<not> balanced (plug1 g2 (plug1 g1 (plug pre ?P))) \<and> balanced (plug c' (rot g1 g2 (plug pre ?P))))"
      using Cons.prems(1) by (intro Cons.IH) simp_all
    then show ?thesis by (metis append_Cons plug.simps(2))
  qed
qed

section \<open>Trees in the heap\<close>

fun tree_at :: "avl_heap \<Rightarrow> ptr \<Rightarrow> ptr \<Rightarrow> ptr tree \<Rightarrow> bool" where
  "tree_at h par p Leaf = (p = 0)"
| "tree_at h par p (Node l x r) = (p = x \<and> x \<noteq> 0 \<and> el_parent (h x) = par \<and>
     el_height (h x) = int (height (Node l x r)) \<and>
     tree_at h x (el_left (h x)) l \<and> tree_at h x (el_right (h x)) r)"

text \<open>The links around a position: \<open>p\<close> is linked there and \<open>par\<close> is the element above it, or null at the root \<open>rt\<close>.\<close>

primrec ctx_at :: "avl_heap \<Rightarrow> ptr \<Rightarrow> ptr frame list \<Rightarrow> ptr \<Rightarrow> ptr \<Rightarrow> bool" where
  "ctx_at h rt [] par p = (par = 0 \<and> rt = p)"
| "ctx_at h rt (f # c) par p =
     (par = frame_ptr f \<and> par \<noteq> 0 \<and> ctx_at h rt c (el_parent (h par)) par \<and>
      (case f of Below_Left x r \<Rightarrow> el_left (h x) = p \<and> tree_at h x (el_right (h x)) r
       | Below_Right l x \<Rightarrow> el_right (h x) = p \<and> tree_at h x (el_left (h x)) l))"

text \<open>The heights stored on the way up are right for a subtree of height \<open>n\<close> in the position.\<close>

primrec ctx_heights :: "avl_heap \<Rightarrow> nat \<Rightarrow> ptr frame list \<Rightarrow> bool" where
  "ctx_heights h n [] = True"
| "ctx_heights h n (f # c) =
     (let m = max n (height (frame_tree f)) + 1 in el_height (h (frame_ptr f)) = int m \<and> ctx_heights h m c)"

primrec ctx_ptrs :: "'a frame list \<Rightarrow> 'a list" where
  "ctx_ptrs [] = []"
| "ctx_ptrs (f # c) = frame_ptr f # inorder (frame_tree f) @ ctx_ptrs c"

lemma set_ctx_ptrs: "set (ctx_ptrs c) = set (before_hole c) \<union> set (after_hole c)"
proof (induction c)
  case (Cons f c)
  then show ?case by (cases f) auto
qed simp

lemma distinct_plug: "distinct (inorder (plug c t)) \<longleftrightarrow> distinct (inorder t) \<and> distinct (ctx_ptrs c) \<and> set_tree t \<inter> set (ctx_ptrs c) = {}"
proof (induction c arbitrary: t)
  case (Cons f c)
  show ?case by (cases f) (auto simp: Cons.IH)
qed simp

lemma set_plug: "set_tree (plug c t) = set_tree t \<union> set (ctx_ptrs c)"
  unfolding set_inorder [symmetric] inorder_plug by (auto simp: set_ctx_ptrs)

lemma tree_at_plug:
  "tree_at h 0 rt (plug c t) \<longleftrightarrow> (\<exists>par p. ctx_at h rt c par p \<and> tree_at h par p t \<and> ctx_heights h (height t) c)"
proof (induction c arbitrary: t)
  case (Cons f c)
  show ?case
  proof (cases f)
    case (Below_Left x r)
    show ?thesis unfolding plug.simps Cons.IH Below_Left by (auto simp: Let_def)
  next
    case (Below_Right l x)
    show ?thesis unfolding plug.simps Cons.IH Below_Right by (auto simp: Let_def max.commute)
  qed
qed auto

lemma tree_at_cong: "(\<And>x. x \<in> set_tree t \<Longrightarrow> h' x = h x) \<Longrightarrow> tree_at h' par p t = tree_at h par p t"
  by (induction t arbitrary: par p) auto

lemma tree_at_null: "tree_at h par p t \<Longrightarrow> 0 \<notin> set_tree t"
  by (induction t arbitrary: par p) auto

lemma tree_at_root: "tree_at h par p t \<Longrightarrow> p = (case t of Leaf \<Rightarrow> 0 | Node l x r \<Rightarrow> x)"
  by (cases t) auto

lemma tree_at_height: "tree_at h par p t \<Longrightarrow> height_at h p = int (height t)"
  by (cases t) (auto simp: height_at_def)

text \<open>Moving a tree below another element only takes a change of the parent of its root.\<close>

lemma tree_at_reparent:
  assumes "tree_at h par p t" "distinct (inorder t)"
    and "\<And>x. x \<in> set_tree t \<Longrightarrow> h' x = (if x = p then (h x)\<lparr>el_parent := par'\<rparr> else h x)"
  shows "tree_at h' par' p t"
proof (cases t)
  case (Node l x r)
  then have "x \<notin> set_tree l" "x \<notin> set_tree r" using assms(2) by auto
  then have "tree_at h' q s l = tree_at h q s l" "tree_at h' q s r = tree_at h q s r" for q s
    using assms(1,3) Node by (auto intro!: tree_at_cong)
  then show ?thesis using assms(1) assms(3) [of x] Node by auto
qed (use assms in simp)

lemma ctx_at_cong:
  "(\<And>x. x \<in> set (ctx_ptrs c) \<Longrightarrow> h' x = h x) \<Longrightarrow> ctx_at h' rt c par p = ctx_at h rt c par p"
proof (induction c arbitrary: par p)
  case (Cons f c)
  have "tree_at h' q s (frame_tree f) = tree_at h q s (frame_tree f)" for q s
    using Cons.prems by (intro tree_at_cong) auto
  moreover have "h' (frame_ptr f) = h (frame_ptr f)" using Cons.prems by simp
  ultimately show ?case using Cons by (cases f) auto
qed simp

lemma ctx_heights_cong:
  "(\<And>x. x \<in> set (ctx_ptrs c) \<Longrightarrow> h' x = h x) \<Longrightarrow> ctx_heights h' n c = ctx_heights h n c"
  by (induction c arbitrary: n) (auto simp: Let_def)

section \<open>The loops along the parent pointers\<close>

text \<open>
  \<open>recalc_heights\<close>: when the subtree in the position has changed its height, the heights on the way
  up are made right again, although the walk stops at the first one that does not change.
\<close>

lemma height_above_ctx:
  assumes "ctx_at h rt (f # c) par p" "height_at h p = int n"
  shows "height_above h par = int (max n (height (frame_tree f)) + 1)"
  using assms by (cases f) (auto simp: height_above_def tree_at_height Let_def)

lemma recalc_heights_ok:
  assumes "ctx_at h rt c par p" "ctx_heights h m c" "height_at h p = int n" "p \<notin> set (ctx_ptrs c)" "distinct (ctx_ptrs c)"
  shows "\<exists>h'. recalc_heights h par = Some h' \<and> ctx_at h' rt c par p \<and> ctx_heights h' n c \<and>
     (\<forall>x. x \<notin> set (ctx_ptrs c) \<longrightarrow> h' x = h x)"
  using assms
proof (induction c arbitrary: h par p m n)
  case Nil
  then show ?case by (simp add: recalc_heights.simps)
next
  case (Cons f c)
  let ?k = "max n (height (frame_tree f)) + 1"
  have par: "par = frame_ptr f" "par \<noteq> 0" using Cons.prems(1) by simp_all
  have above: "height_above h par = int ?k" by (rule height_above_ctx [OF Cons.prems(1,3)])
  show ?case
  proof (cases "height_above h par = el_height (h par)")
    case True
    then have "recalc_heights h par = Some h" using par by (subst recalc_heights.simps) (simp add: Let_def)
    moreover have "ctx_heights h n (f # c)"
      using True above Cons.prems(2) par by (simp add: Let_def)
    ultimately show ?thesis using Cons.prems(1) by blast
  next
    case False
    define g where "g = set_height par (int ?k) h"
    have step: "recalc_heights h par = recalc_heights g (el_parent (h par))"
      using False par above by (subst recalc_heights.simps) (simp add: Let_def g_def)
    have same: "g x = h x" if "x \<noteq> par" for x using that by (simp add: g_def set_height_def)
    have links: "el_left (g x) = el_left (h x)" "el_right (g x) = el_right (h x)" "el_parent (g x) = el_parent (h x)" for x
      by (simp_all add: g_def set_height_def)
    have away: "par \<notin> set (ctx_ptrs c)" "par \<notin> set_tree (frame_tree f)" using Cons.prems(5) par by auto
    have sib: "tree_at g q s (frame_tree f) = tree_at h q s (frame_tree f)" for q s
      by (rule tree_at_cong) (metis away(2) same)
    have "ctx_at g rt c (el_parent (h par)) par" "ctx_heights g (max m (height (frame_tree f)) + 1) c"
      using Cons.prems(1,2) away(1) same ctx_at_cong [of c g h] ctx_heights_cong [of c g h] by (simp_all add: Let_def) metis+
    moreover have "height_at g par = int ?k" using par by (simp add: height_at_def g_def set_height_def)
    ultimately obtain h' where h': "recalc_heights g (el_parent (h par)) = Some h'"
      "ctx_at h' rt c (el_parent (h par)) par" "ctx_heights h' ?k c" "\<forall>x. x \<notin> set (ctx_ptrs c) \<longrightarrow> h' x = g x"
      using Cons.IH [of g "el_parent (h par)" par "max m (height (frame_tree f)) + 1" ?k] away Cons.prems(5) by auto
    have hp: "h' par = g par" using h'(4) away(1) by blast
    have sib': "tree_at h' q s (frame_tree f) = tree_at h q s (frame_tree f)" for q s
      using h'(4) Cons.prems(5) sib [of q s] tree_at_cong [of "frame_tree f" h' g q s] by auto
    have "ctx_at h' rt (f # c) par p"
      using Cons.prems(1) h'(2) hp sib' links by (cases f) auto
    moreover have "ctx_heights h' n (f # c)"
      using h'(3) hp par by (simp add: Let_def g_def set_height_def)
    ultimately show ?thesis using step h'(1,4) same par by auto
  qed
qed

text \<open>\<open>find_first_unbal_gp\<close> finds the first ancestor out of balance, and returns null when there is none.\<close>

lemma unbal_step:
  assumes "tree_at h 0 rt (plug (f1 # f2 # c) (Node l n r))"
  shows "el_parent (h n) = frame_ptr f1" "el_parent (h (frame_ptr f1)) = frame_ptr f2" "n \<noteq> 0" "frame_ptr f1 \<noteq> 0" "frame_ptr f2 \<noteq> 0"
    and "el_parent (h (frame_ptr f2)) = (case c of [] \<Rightarrow> 0 | f3 # _ \<Rightarrow> frame_ptr f3)"
    and "\<bar>height_at h (el_left (h (frame_ptr f2))) - height_at h (el_right (h (frame_ptr f2)))\<bar> =
      \<bar>int (height (plug1 f1 (Node l n r))) - int (height (frame_tree f2))\<bar>"
proof -
  obtain par p where at: "ctx_at h rt (f1 # f2 # c) par p" "tree_at h par p (Node l n r)"
    and ht: "ctx_heights h (height (Node l n r)) (f1 # f2 # c)"
    using assms unfolding tree_at_plug by blast
  then show "el_parent (h n) = frame_ptr f1" "el_parent (h (frame_ptr f1)) = frame_ptr f2" "n \<noteq> 0" "frame_ptr f1 \<noteq> 0" "frame_ptr f2 \<noteq> 0"
    by auto
  show "el_parent (h (frame_ptr f2)) = (case c of [] \<Rightarrow> 0 | f3 # _ \<Rightarrow> frame_ptr f3)"
    using at by (cases c) auto
  have "height_at h (frame_ptr f1) = int (height (plug1 f1 (Node l n r)))"
    using at(1) ht by (simp add: height_at_def height_plug1 Let_def)
  then show "\<bar>height_at h (el_left (h (frame_ptr f2))) - height_at h (el_right (h (frame_ptr f2)))\<bar> =
      \<bar>int (height (plug1 f1 (Node l n r))) - int (height (frame_tree f2))\<bar>"
    using at(1) by (cases f2) (auto simp: tree_at_height)
qed

lemma unbal_none:
  assumes "tree_at h 0 rt (plug (f1 # f2 # c) (Node l n r))" "balanced (plug (f1 # f2 # c) (Node l n r))"
  shows "unbal_gp_loop h n (frame_ptr f2) = Some 0"
  using assms
proof (induction c arbitrary: f1 f2 l n r)
  case Nil
  note st = unbal_step [OF Nil(1)]
  have "\<bar>int (height (plug1 f1 (Node l n r))) - int (height (frame_tree f2))\<bar> \<le> 1" using Nil(2) by (simp add: balanced_plug1)
  then show ?case using st by (subst unbal_gp_loop.simps) (auto simp: Let_def unbal_gp_loop.simps [of h _ 0])
next
  case (Cons f3 c)
  note st = unbal_step [OF Cons.prems(1)]
  obtain l' x' r' where p: "plug1 f1 (Node l n r) = Node l' x' r'" "x' = frame_ptr f1" by (cases f1) auto
  have "balanced (plug1 f2 (plug1 f1 (Node l n r)))" using Cons.prems(2) balanced_plug_hole [of "f3 # c"] by simp
  then have "\<bar>int (height (plug1 f1 (Node l n r))) - int (height (frame_tree f2))\<bar> \<le> 1" by (simp add: balanced_plug1)
  moreover have "unbal_gp_loop h x' (frame_ptr f3) = Some 0"
    using Cons.prems p(1) by (intro Cons.IH) simp_all
  ultimately show ?case using st p(2) by (subst unbal_gp_loop.simps) (auto simp: Let_def)
qed

lemma unbal_found:
  assumes "tree_at h 0 rt (plug (pre @ g1 # g2 # c) (Node l n r))" "balanced (plug1 g1 (plug pre (Node l n r)))"
    "\<not> balanced (plug1 g2 (plug1 g1 (plug pre (Node l n r))))" "balanced (frame_tree g2)"
    "plug pre (Node l n r) = Node l' n' r'" "pre @ g1 # g2 # c = f1 # f2 # c'"
  shows "unbal_gp_loop h n (frame_ptr f2) = Some n'"
  using assms
proof (induction pre arbitrary: f1 f2 c' l n r)
  case Nil
  note st = unbal_step [of h rt f1 f2 c' l n r]
  have "\<not> \<bar>int (height (plug1 g1 (Node l n r))) - int (height (frame_tree g2))\<bar> \<le> 1"
    using Nil(2,3,4) by (simp add: balanced_plug1)
  then show ?case using st Nil by (subst unbal_gp_loop.simps) (auto simp: Let_def)
next
  case (Cons f pre)
  have f1: "f1 = f" using Cons.prems(6) by simp
  obtain f3 c'' where c': "c' = f3 # c''" using Cons.prems(6) by (cases pre; cases c') auto
  have tl: "pre @ g1 # g2 # c = f2 # f3 # c''" using Cons.prems(6) c' by simp
  have at: "tree_at h 0 rt (plug (f1 # f2 # f3 # c'') (Node l n r))" using Cons.prems(1,6) c' by simp
  note st = unbal_step [OF at]
  obtain l1 x1 r1 where p: "plug1 f (Node l n r) = Node l1 x1 r1" "x1 = frame_ptr f" by (cases f) auto
  have "tree_at h 0 rt (plug (pre @ g1 # g2 # c) (Node l1 x1 r1))" using Cons.prems(1) p(1) by simp
  then have rest: "unbal_gp_loop h x1 (frame_ptr f3) = Some n'"
    by (rule Cons.IH [OF _ _ _ _ _ tl]) (use Cons.prems(2-5) p(1) in simp_all)
  obtain z where z: "pre @ [g1] = f2 # z" using tl by (cases pre) auto
  have "balanced (plug (pre @ [g1]) (plug1 f (Node l n r)))" using Cons.prems(2) by (simp add: plug_append)
  then have "balanced (plug1 f2 (plug1 f (Node l n r)))" unfolding z using balanced_plug_hole by (simp, blast)
  then have "\<bar>int (height (plug1 f1 (Node l n r))) - int (height (frame_tree f2))\<bar> \<le> 1" using f1 by (simp add: balanced_plug1)
  then show ?case using st rest p(2) f1 by (subst unbal_gp_loop.simps) (auto simp: Let_def)
qed

section \<open>The rotation in the heap\<close>

lemma set_same [simp]:
  "set_left p v h p = (h p)\<lparr>el_left := v\<rparr>" "set_right p v h p = (h p)\<lparr>el_right := v\<rparr>"
  "set_parent p v h p = (h p)\<lparr>el_parent := v\<rparr>" "set_height p n h p = (h p)\<lparr>el_height := n\<rparr>"
  by (simp_all add: set_left_def set_right_def set_parent_def set_height_def)

lemma set_other [simp]:
  assumes "x \<noteq> p"
  shows "set_left p v h x = h x" "set_right p v h x = h x" "set_parent p v h x = h x" "set_height p n h x = h x"
    "tie_parent p v h x = h x"
  using assms by (simp_all add: set_left_def set_right_def set_parent_def set_height_def tie_parent_def)

lemma tie_same [simp]: "p \<noteq> 0 \<Longrightarrow> tie_parent p v h p = (h p)\<lparr>el_parent := v\<rparr>"
  by (simp add: tie_parent_def)

lemma tie_null [simp]: "tie_parent 0 v h = h"
  by (simp add: tie_parent_def)

lemma tree_at_in: "tree_at h par p t \<Longrightarrow> p \<noteq> 0 \<Longrightarrow> p \<in> set_tree t"
  by (cases t) auto

text \<open>The elements after all ties, before the heights are set.\<close>

definition tied :: "ptr \<Rightarrow> ptr \<times> ptr \<times> ptr \<Rightarrow> ptr \<times> ptr \<times> ptr \<times> ptr \<Rightarrow> avl_heap \<Rightarrow> avl_heap" where
  "tied ggp abc ts h =
     (case (abc, ts) of ((a, b, c), (t1, t2, t3, t4)) \<Rightarrow>
          tie_parent t4 c (set_right c t4 (tie_parent t3 c (set_left c t3 (tie_parent t2 a (set_right a t2 (tie_parent t1 a
     (set_left a t1 (set_parent c b (set_right b c (set_parent a b (set_left b a (set_parent b ggp h)))))))))))))"

lemma tie_nodes_tied:
  "tie_nodes ggp (a, b, c) ts h =
     (let h = tied ggp (a, b, c) ts h; h = set_height a (height_above h a) h; h = set_height c (height_above h c) h
      in set_height b (max (el_height (h a)) (el_height (h c)) + 1) h)"
  by (cases ts) (simp add: tie_nodes_def tied_def Let_def max_def)

lemma tied_nodes:
  assumes "distinct [a, b, c]" "{t1, t2, t3, t4} \<inter> {a, b, c} = {}"
  shows "tied ggp (a, b, c) (t1, t2, t3, t4) h a = (h a)\<lparr>el_parent := b, el_left := t1, el_right := t2\<rparr>"
    and "tied ggp (a, b, c) (t1, t2, t3, t4) h b = (h b)\<lparr>el_parent := ggp, el_left := a, el_right := c\<rparr>"
    and "tied ggp (a, b, c) (t1, t2, t3, t4) h c = (h c)\<lparr>el_parent := b, el_left := t3, el_right := t4\<rparr>"
  using assms by (auto simp: tied_def)

lemma tied_sub:
  assumes "x \<notin> {a, b, c}" "x \<noteq> 0"
  shows "tied ggp (a, b, c) (t1, t2, t3, t4) h x =
    (if x = t3 \<or> x = t4 then (h x)\<lparr>el_parent := c\<rparr> else if x = t1 \<or> x = t2 then (h x)\<lparr>el_parent := a\<rparr> else h x)"
  using assms by (cases "x = t4"; cases "x = t3"; cases "x = t2"; cases "x = t1") (simp_all add: tied_def)

lemma tie_nodes_ok:
  assumes at: "tree_at h q1 t1 T1" "tree_at h q2 t2 T2" "tree_at h q3 t3 T3" "tree_at h q4 t4 T4"
    and nz: "a \<noteq> 0" "b \<noteq> 0" "c \<noteq> 0"
    and dist: "distinct (a # b # c # inorder T1 @ inorder T2 @ inorder T3 @ inorder T4)"
  shows "tree_at (tie_nodes ggp (a, b, c) (t1, t2, t3, t4) h) ggp b (Node (Node T1 a T2) b (Node T3 c T4))"
    and "x \<notin> {a, b, c} \<union> set_tree T1 \<union> set_tree T2 \<union> set_tree T3 \<union> set_tree T4 \<Longrightarrow> x \<noteq> 0 \<Longrightarrow>
      tie_nodes ggp (a, b, c) (t1, t2, t3, t4) h x = h x"
proof -
  let ?g = "tied ggp (a, b, c) (t1, t2, t3, t4) h" and ?h = "tie_nodes ggp (a, b, c) (t1, t2, t3, t4) h"
  have root: "t1 = 0 \<or> t1 \<in> set_tree T1" "t2 = 0 \<or> t2 \<in> set_tree T2" "t3 = 0 \<or> t3 \<in> set_tree T3" "t4 = 0 \<or> t4 \<in> set_tree T4"
    using at tree_at_in by blast+
  have disj: "set_tree T1 \<inter> set_tree T2 = {}" "set_tree T1 \<inter> set_tree T3 = {}" "set_tree T1 \<inter> set_tree T4 = {}"
    "set_tree T2 \<inter> set_tree T3 = {}" "set_tree T2 \<inter> set_tree T4 = {}" "set_tree T3 \<inter> set_tree T4 = {}"
    "{a, b, c} \<inter> (set_tree T1 \<union> set_tree T2 \<union> set_tree T3 \<union> set_tree T4) = {}"
    using dist by auto
  have abc: "distinct [a, b, c]" "{t1, t2, t3, t4} \<inter> {a, b, c} = {}" using dist root nz disj(7) by auto
  note node = tied_nodes [OF abc, of ggp h]
  have away: "?h x = ?g x" if "x \<notin> {a, b, c}" for x using that by (simp add: tie_nodes_tied Let_def)
  have only: "x = t1 \<Longrightarrow> x \<in> set_tree T1" "x = t2 \<Longrightarrow> x \<in> set_tree T2" "x = t3 \<Longrightarrow> x \<in> set_tree T3" "x = t4 \<Longrightarrow> x \<in> set_tree T4"
    if "x \<noteq> 0" for x using that root by auto
  have g: "?h x = (if x = t3 \<or> x = t4 then (h x)\<lparr>el_parent := c\<rparr> else if x = t1 \<or> x = t2 then (h x)\<lparr>el_parent := a\<rparr> else h x)"
    "x \<noteq> 0" if "x \<in> set_tree T1 \<union> set_tree T2 \<union> set_tree T3 \<union> set_tree T4" for x
  proof -
    have "x \<notin> {a, b, c}" using that disj(7) by blast
    moreover show "x \<noteq> 0" using that tree_at_null [OF at(1)] tree_at_null [OF at(2)] tree_at_null [OF at(3)] tree_at_null [OF at(4)] by (intro notI) auto
    ultimately show "?h x = (if x = t3 \<or> x = t4 then (h x)\<lparr>el_parent := c\<rparr> else if x = t1 \<or> x = t2 then (h x)\<lparr>el_parent := a\<rparr> else h x)"
      using away tied_sub by simp
  qed
  have s: "x \<in> set_tree T1 \<Longrightarrow> ?h x = (if x = t1 then (h x)\<lparr>el_parent := a\<rparr> else h x)"
    "x \<in> set_tree T2 \<Longrightarrow> ?h x = (if x = t2 then (h x)\<lparr>el_parent := a\<rparr> else h x)"
    "x \<in> set_tree T3 \<Longrightarrow> ?h x = (if x = t3 then (h x)\<lparr>el_parent := c\<rparr> else h x)"
    "x \<in> set_tree T4 \<Longrightarrow> ?h x = (if x = t4 then (h x)\<lparr>el_parent := c\<rparr> else h x)" for x
    using g only disj by (metis Un_iff disjoint_iff)+
  have d: "distinct (inorder T1)" "distinct (inorder T2)" "distinct (inorder T3)" "distinct (inorder T4)"
    using dist by auto
  have sub: "tree_at ?h a t1 T1" "tree_at ?h a t2 T2" "tree_at ?h c t3 T3" "tree_at ?h c t4 T4"
    using tree_at_reparent [OF at(1) d(1) s(1)] tree_at_reparent [OF at(2) d(2) s(2)]
      tree_at_reparent [OF at(3) d(3) s(3)] tree_at_reparent [OF at(4) d(4) s(4)] by auto
  have ht: "height_at ?g t = height_at ?h t" if "t \<notin> {a, b, c}" for t
    using away [OF that] by (simp add: height_at_def)
  have ha: "height_above ?g a = int (height (Node T1 a T2))" "height_above ?g c = int (height (Node T3 c T4))"
    using sub node(1,3) ht abc(2) by (auto simp: height_above_def tree_at_height Let_def)
  have abc': "a \<noteq> b" "a \<noteq> c" "c \<noteq> b" "c \<noteq> a" "b \<noteq> a" "b \<noteq> c" using abc(1) by auto
  have hc: "height_above (set_height a n ?g) c = height_above ?g c" for n
    using abc(2) abc' node(3) by (auto simp: height_above_def height_at_def Let_def)
  have "el_height (?h a) = int (height (Node T1 a T2))" "el_height (?h c) = int (height (Node T3 c T4))"
    "el_height (?h b) = max (int (height (Node T1 a T2))) (int (height (Node T3 c T4))) + 1"
    using abc' ha hc by (simp_all add: tie_nodes_tied Let_def)
  moreover have "el_parent (?h x) = el_parent (?g x)" "el_left (?h x) = el_left (?g x)" "el_right (?h x) = el_right (?g x)" for x
    by (simp_all add: tie_nodes_tied Let_def set_height_def)
  ultimately show "tree_at ?h ggp b (Node (Node T1 a T2) b (Node T3 c T4))"
    using sub node nz by (auto simp: of_nat_max max_add_distrib_right max_add_distrib_left)
  show "?h x = h x" if "x \<notin> {a, b, c} \<union> set_tree T1 \<union> set_tree T2 \<union> set_tree T3 \<union> set_tree T4" "x \<noteq> 0"
    using that only [of x] away [of x] tied_sub [of x a b c ggp t1 t2 t3 t4 h] by auto
qed

lemma tie_top_ok:
  assumes at: "ctx_at h (avl_root tree) c ggp gp" and hts: "ctx_heights h n c"
    and dist: "distinct (ctx_ptrs c)" and gp: "gp \<notin> set (ctx_ptrs c)" "gp \<noteq> 0" and top: "tie_top ggp gp b (tree, h) = (tree', h')"
  shows "ctx_at h' (avl_root tree') c ggp b \<and> ctx_heights h' n c \<and> tree' = tree\<lparr>avl_root := avl_root tree'\<rparr> \<and>
    (\<forall>x. x \<notin> set (ctx_ptrs c) \<longrightarrow> h' x = h x)"
proof (cases c)
  case Nil
  then show ?thesis using assms by (auto simp: tie_top_def)
next
  case (Cons f c')
  have ggp: "ggp = frame_ptr f" "ggp \<noteq> 0" "ggp \<notin> set (ctx_ptrs c')" "ggp \<notin> set_tree (frame_tree f)"
    using at dist Cons by auto
  have rest: "(\<And>x. x \<noteq> ggp \<Longrightarrow> h' x = h x) \<Longrightarrow> tree_at h' q s (frame_tree f) = tree_at h q s (frame_tree f) \<and>
      ctx_at h' rt c' q s = ctx_at h rt c' q s \<and> ctx_heights h' m c' = ctx_heights h m c'" for q s rt m
    by (intro conjI tree_at_cong ctx_at_cong ctx_heights_cong) (metis ggp(3,4))+
  show ?thesis
  proof (cases f)
    case (Below_Left x r)
    then have "h' = set_left ggp b h" "tree' = tree" using top at Cons by (auto simp: tie_top_def)
    then show ?thesis using rest at hts Cons Below_Left ggp by (auto simp: Let_def)
  next
    case (Below_Right l x)
    have "tree_at h ggp (el_left (h ggp)) l" using at Cons Below_Right by simp
    then have "el_left (h ggp) \<noteq> gp" using gp Cons Below_Right tree_at_in by auto
    then have "h' = set_right ggp b h" "tree' = tree" using top ggp(2) by (auto simp: tie_top_def)
    then show ?thesis using rest at hts Cons Below_Right ggp by (auto simp: Let_def)
  qed
qed

lemma rotation_ok:
  assumes at: "tree_at h gpp gp (plug1 f2 (plug1 f1 (Node l n r)))" and dist: "distinct (inorder (plug1 f2 (plug1 f1 (Node l n r))))"
  obtains a b c t1 t2 t3 t4 T1 T2 T3 T4 q1 q2 q3 q4
  where "rotation h n (frame_ptr f1) (frame_ptr f2) = ((a, b, c), (t1, t2, t3, t4))"
    and "rot f1 f2 (Node l n r) = Node (Node T1 a T2) b (Node T3 c T4)"
    and "tree_at h q1 t1 T1" "tree_at h q2 t2 T2" "tree_at h q3 t3 T3" "tree_at h q4 t4 T4"
    and "a \<noteq> 0" "b \<noteq> 0" "c \<noteq> 0"
proof (cases f2)
  case f2: (Below_Right t1 g)
  show ?thesis
  proof (cases f1)
    case f1: (Below_Right t2 p)
    then show ?thesis using at f2 by (intro that) (auto simp: rotation_def)
  next
    case f1: (Below_Left p t4)
    have "el_right (h p) \<noteq> n" using at dist f1 f2 tree_at_in by fastforce
    then show ?thesis using at f1 f2 by (intro that) (auto simp: rotation_def)
  qed
next
  case f2: (Below_Left g t4)
  have g: "el_right (h g) \<noteq> frame_ptr f1" using at dist f2 tree_at_in by (cases f1) fastforce+
  show ?thesis
  proof (cases f1)
    case f1: (Below_Right t1 p)
    then show ?thesis using at f2 g by (intro that) (auto simp: rotation_def)
  next
    case f1: (Below_Left p t3)
    have "el_right (h p) \<noteq> n" using at dist f1 f2 tree_at_in by fastforce
    then show ?thesis using at f1 f2 g by (intro that) (auto simp: rotation_def)
  qed
qed

text \<open>The whole of \<open>rebalance\<close>: the rotation below \<open>ggp\<close>, then the heights above.\<close>

lemma rebalance_ok:
  assumes at: "tree_at h 0 (avl_root tree) (plug (f1 # f2 # c) (Node l n r))"
    and dist: "distinct (inorder (plug (f1 # f2 # c) (Node l n r)))"
  shows "\<exists>ggp tree' h'. rebalance tree h n = Some (ggp, tree', h') \<and>
    tree_at h' 0 (avl_root tree') (plug c (rot f1 f2 (Node l n r))) \<and> tree' = tree\<lparr>avl_root := avl_root tree'\<rparr>"
proof -
  let ?t = "plug1 f2 (plug1 f1 (Node l n r))" and ?gp = "frame_ptr f2"
  note up = unbal_step(1-5) [OF at]
  define ggp where "ggp = el_parent (h ?gp)"
  have "tree_at h 0 (avl_root tree) (plug c ?t)" using at by simp
  then obtain q p where q: "ctx_at h (avl_root tree) c q p" "tree_at h q p ?t" "ctx_heights h (height ?t) c"
    unfolding tree_at_plug by blast
  have qp: "p = ?gp" "q = ggp" "?gp \<in> set_tree ?t" using q(2) by (cases f2; auto simp: ggp_def)+
  have d: "distinct (inorder ?t)" "distinct (ctx_ptrs c)" "set_tree ?t \<inter> set (ctx_ptrs c) = {}"
    using dist distinct_plug [of c ?t] by auto
  obtain a b c' t1 t2 t3 t4 T1 T2 T3 T4 q1 q2 q3 q4
    where rn: "rotation h n (frame_ptr f1) ?gp = ((a, b, c'), (t1, t2, t3, t4))"
      and rt: "rot f1 f2 (Node l n r) = Node (Node T1 a T2) b (Node T3 c' T4)"
      and ts: "tree_at h q1 t1 T1" "tree_at h q2 t2 T2" "tree_at h q3 t3 T3" "tree_at h q4 t4 T4"
      and nz: "a \<noteq> 0" "b \<noteq> 0" "c' \<noteq> 0"
    using q(2) d(1) qp by (elim rotation_ok) auto
  have io: "inorder (Node (Node T1 a T2) b (Node T3 c' T4)) = inorder ?t" using inorder_rot [of f1 f2 "Node l n r"] rt by simp
  have sets: "{a, b, c'} \<union> set_tree T1 \<union> set_tree T2 \<union> set_tree T3 \<union> set_tree T4 = set_tree ?t"
    using arg_cong [OF io, of set] by auto
  obtain tree1 h1 where top: "tie_top ggp ?gp b (tree, h) = (tree1, h1)" by fastforce
  have ctx1: "ctx_at h1 (avl_root tree1) c ggp b" "ctx_heights h1 (height ?t) c" "tree1 = tree\<lparr>avl_root := avl_root tree1\<rparr>"
    and same1: "\<And>x. x \<notin> set (ctx_ptrs c) \<Longrightarrow> h1 x = h x"
    using tie_top_ok [OF _ _ d(2) _ _ top, of "height ?t"] q qp d(3) up by auto
  let ?h2 = "tie_nodes ggp (a, b, c') (t1, t2, t3, t4) h1"
  have "x \<notin> set (ctx_ptrs c)" if "x \<in> set_tree T1 \<union> set_tree T2 \<union> set_tree T3 \<union> set_tree T4" for x
    using that sets d(3) by blast
  then have ts1: "tree_at h1 q1 t1 T1" "tree_at h1 q2 t2 T2" "tree_at h1 q3 t3 T3" "tree_at h1 q4 t4 T4"
    using ts same1 tree_at_cong by (metis UnCI)+
  have dd: "distinct (a # b # c' # inorder T1 @ inorder T2 @ inorder T3 @ inorder T4)"
    using d(1) unfolding io [symmetric] by auto
  have t2: "tree_at ?h2 ggp b (rot f1 f2 (Node l n r))" unfolding rt by (rule tie_nodes_ok(1) [OF ts1 nz dd])
  have out: "x \<noteq> 0 \<Longrightarrow> x \<in> set (ctx_ptrs c) \<Longrightarrow> ?h2 x = h1 x" for x
    using tie_nodes_ok(2) [OF ts1 nz dd] sets d(3) by blast
  have nul: "0 \<notin> set (ctx_ptrs c)"
    using at tree_at_null [of h 0 "avl_root tree" "plug c ?t"] by (simp add: set_plug)
  then have ctx2: "ctx_at ?h2 (avl_root tree1) c ggp b" "ctx_heights ?h2 (height ?t) c"
    using ctx1(1,2) ctx_at_cong [of c ?h2 h1] ctx_heights_cong [of c ?h2 h1] out by metis+
  have st: "set_tree (rot f1 f2 (Node l n r)) = set_tree ?t"
    unfolding set_inorder [symmetric] by (simp add: inorder_rot)
  then have "b \<notin> set (ctx_ptrs c)" using d(3) rt by auto
  then obtain h3 where h3: "recalc_heights ?h2 ggp = Some h3" "ctx_at h3 (avl_root tree1) c ggp b"
    "ctx_heights h3 (height (rot f1 f2 (Node l n r))) c" "\<And>x. x \<notin> set (ctx_ptrs c) \<Longrightarrow> h3 x = ?h2 x"
    using recalc_heights_ok [OF ctx2 tree_at_height [OF t2] _ d(2)] by blast
  have "tree_at h3 ggp b (rot f1 f2 (Node l n r))"
    using t2 h3(4) st d(3) tree_at_cong [of "rot f1 f2 (Node l n r)" h3 ?h2] by blast
  then have "tree_at h3 0 (avl_root tree1) (plug c (rot f1 f2 (Node l n r)))"
    unfolding tree_at_plug using h3(2,3) by blast
  moreover have "rebalance tree h n = Some (ggp, tree1, h3)"
    using up rn top h3(1) by (simp add: rebalance_def Let_def ggp_def)
  ultimately show ?thesis using ctx1(3) by blast
qed

section \<open>How high a balanced tree is\<close>

lemma balanced_size: "balanced t \<Longrightarrow> 2 ^ (height t div 2) \<le> size1 t"
proof (induction "height t" arbitrary: t rule: less_induct)
  case less
  show ?case
  proof (cases "height t < 2")
    case True
    then have "height t div 2 = 0" by simp
    then show ?thesis by (simp add: size1_size)
  next
    case False
    then obtain l x r where t: "t = Node l x r" by (cases t) auto
    obtain n where n: "height t = n + 2" using False by (metis add.commute le_add_diff_inverse not_less)
    have part: "2 ^ (n div 2) \<le> size1 s" if "s = l \<or> s = r" for s
    proof -
      have "balanced s" "height s < height t" "n \<le> height s" using that less.prems t n by auto
      then have "(2::nat) ^ (n div 2) \<le> 2 ^ (height s div 2)" "2 ^ (height s div 2) \<le> size1 s"
        using less.hyps by (simp_all add: div_le_mono)
      then show ?thesis by linarith
    qed
    show ?thesis using part [of l] part [of r] n t by simp
  qed
qed

end
