(* ===== verification/Avl_Insert.thy ===== *)
theory Avl_Insert
  imports Avl_Tree
begin

text \<open>
  Insertion into the AVL tree and search in it, from the loops of \<open>avl_declare\<close> to the invariant
  \<open>avl_ok\<close>: attaching the leaf, the walk up, the rotation, and the descent, for every comparison that
  is a three-way comparison of a linear order (locale \<open>three_way\<close>).
\<close>

section \<open>Attaching a leaf\<close>

text \<open>The first and the last element of the tree are kept in \<open>head\<close> and \<open>tail\<close>.\<close>

definition ends_ok :: "avl_tree \<Rightarrow> ptr tree \<Rightarrow> bool" where
  "ends_ok tree t =
     (if t = Leaf then avl_head tree = 0 \<and> avl_tail tree = 0
      else avl_head tree = hd (inorder t) \<and> avl_tail tree = last (inorder t))"

text \<open>\<open>lastLess\<close> tells on which side of the parent the position is.\<close>

definition side_ok :: "ptr frame list \<Rightarrow> ptr \<Rightarrow> bool" where
  "side_ok c lastLess =
     (case c of [] \<Rightarrow> True | f # _ \<Rightarrow> (lastLess = frame_ptr f \<longleftrightarrow> (case f of Below_Left x r \<Rightarrow> True | Below_Right l x \<Rightarrow> False)))"

lemma tree_at_child:
  assumes "tree_at h par p t" "x \<in> set_tree t"
  shows "el_left (h x) = 0 \<or> el_left (h x) \<in> set_tree t" "el_right (h x) = 0 \<or> el_right (h x) \<in> set_tree t"
proof -
  have "(el_left (h x) = 0 \<or> el_left (h x) \<in> set_tree t) \<and> (el_right (h x) = 0 \<or> el_right (h x) \<in> set_tree t)"
    using assms
  proof (induction t arbitrary: par p)
    case (Node l y r)
    then have "x = y \<or> x \<in> set_tree l \<or> x \<in> set_tree r" "tree_at h y (el_left (h y)) l" "tree_at h y (el_right (h y)) r" by auto
    then show ?case using Node.IH tree_at_in by (metis UnCI tree.set_intros(1,3))
  qed simp
  then show "el_left (h x) = 0 \<or> el_left (h x) \<in> set_tree t" "el_right (h x) = 0 \<or> el_right (h x) \<in> set_tree t" by blast+
qed

lemma before_nil: "before_hole (f # c) = [] \<Longrightarrow> \<exists>x r. f = Below_Left x r"
  by (cases f) auto

lemma after_nil: "after_hole (f # c) = [] \<Longrightarrow> \<exists>l x. f = Below_Right l x"
  by (cases f) auto

text \<open>The new leaf is the left child of the first element exactly when nothing comes before it.\<close>

lemma first_iff:
  assumes at: "tree_at h 0 rt (plug c Leaf)" and c: "c = f # c'" and dist: "distinct (ctx_ptrs c)" and e: "e \<noteq> 0" "e \<notin> set (ctx_ptrs c)"
    and away: "\<And>x. x \<noteq> e \<Longrightarrow> x \<noteq> frame_ptr f \<Longrightarrow> h1 x = h x"
    and link: "h1 (frame_ptr f) = (case f of Below_Left x r \<Rightarrow> (h x)\<lparr>el_left := e\<rparr> | Below_Right l x \<Rightarrow> (h x)\<lparr>el_right := e\<rparr>)"
  shows "el_left (h1 (hd (before_hole c @ after_hole c))) = e \<longleftrightarrow> before_hole c = []"
    and "el_right (h1 (last (before_hole c @ after_hole c))) = e \<longleftrightarrow> after_hole c = []"
proof -
  have mem: "set_tree (plug c Leaf) = set (ctx_ptrs c)" by (simp add: set_plug)
  have old: "el_left (h x) \<noteq> e" "el_right (h x) \<noteq> e" if "x \<in> set (ctx_ptrs c)" for x
    using tree_at_child [OF at, of x] that e unfolding mem by metis+
  have par: "frame_ptr f \<notin> set (ctx_ptrs c')" using dist c by simp
  show "el_left (h1 (hd (before_hole c @ after_hole c))) = e \<longleftrightarrow> before_hole c = []"
  proof
    assume "before_hole c = []"
    then show "el_left (h1 (hd (before_hole c @ after_hole c))) = e" using c link by (cases f) auto
  next
    assume l: "el_left (h1 (hd (before_hole c @ after_hole c))) = e"
    show "before_hole c = []"
    proof (rule ccontr)
      assume ne: "before_hole c \<noteq> []"
      let ?x = "hd (before_hole c)"
      have x: "?x \<in> set (before_hole c)" "?x \<in> set (ctx_ptrs c)" using ne by (auto simp: set_ctx_ptrs)
      then have "h1 ?x = h ?x \<or> ?x = frame_ptr f" using away e(2) by metis
      moreover have "el_left (h1 ?x) = el_left (h ?x)" if "?x = frame_ptr f"
        using that x(1) par c link by (cases f) (auto simp: set_ctx_ptrs)
      ultimately show False using l ne old(1) [OF x(2)] by auto
    qed
  qed
  show "el_right (h1 (last (before_hole c @ after_hole c))) = e \<longleftrightarrow> after_hole c = []"
  proof
    assume "after_hole c = []"
    then show "el_right (h1 (last (before_hole c @ after_hole c))) = e" using c link by (cases f) auto
  next
    assume l: "el_right (h1 (last (before_hole c @ after_hole c))) = e"
    show "after_hole c = []"
    proof (rule ccontr)
      assume ne: "after_hole c \<noteq> []"
      let ?x = "last (after_hole c)"
      have x: "?x \<in> set (after_hole c)" "?x \<in> set (ctx_ptrs c)" using ne by (auto simp: set_ctx_ptrs)
      then have "h1 ?x = h ?x \<or> ?x = frame_ptr f" using away e(2) by metis
      moreover have "el_right (h1 ?x) = el_right (h ?x)" if "?x = frame_ptr f"
        using that x(1) par c link by (cases f) (auto simp: set_ctx_ptrs)
      ultimately show False using l ne old(2) [OF x(2)] by auto
    qed
  qed
qed

lemma attach_leaf_ok:
  assumes at: "tree_at h 0 (avl_root tree) (plug c Leaf)" and ctx: "ctx_at h (avl_root tree) c par 0" and hts: "ctx_heights h 0 c"
    and dist: "distinct (ctx_ptrs c)" and fresh: "e \<noteq> 0" "e \<notin> set (ctx_ptrs c)"
    and ends: "ends_ok tree (plug c Leaf)" and side: "side_ok c lastLess"
  shows "\<exists>tree1 h1. attach_leaf tree h e par lastLess = Some (tree1, h1) \<and>
    ctx_at h1 (avl_root tree1) c par e \<and> ctx_heights h1 0 c \<and> tree_at h1 par e (Node Leaf e Leaf) \<and>
    ends_ok tree1 (plug c (Node Leaf e Leaf)) \<and> avl_size tree1 = avl_size tree + 1"
proof (cases c)
  case Nil
  then show ?thesis using ctx fresh by (auto simp: attach_leaf_def Let_def ends_ok_def)
next
  case (Cons f c')
  define h0 where "h0 = set_height e 1 (set_right e 0 (set_left e 0 (set_parent e par h)))"
  define h1 where "h1 = (if lastLess = par then set_left par e h0 else set_right par e h0)"
  have par: "par = frame_ptr f" "par \<noteq> 0" "par \<noteq> e" "par \<notin> set (ctx_ptrs c')" "par \<notin> set_tree (frame_tree f)"
    using ctx dist fresh Cons by auto
  have away: "h1 x = h x" if "x \<noteq> e" "x \<noteq> par" for x using that by (simp add: h1_def h0_def)
  have node: "h1 e = \<lparr>el_left = 0, el_right = 0, el_parent = par, el_prev = el_prev (h e), el_next = el_next (h e), el_height = 1\<rparr>"
    using par(3) by (simp add: h1_def h0_def)
  have links: "h1 par = (if lastLess = par then (h par)\<lparr>el_left := e\<rparr> else (h par)\<lparr>el_right := e\<rparr>)"
    using par(3) by (simp add: h1_def h0_def)
  have sub: "tree_at h1 q s (frame_tree f) = tree_at h q s (frame_tree f)" "ctx_at h1 rt c' q s = ctx_at h rt c' q s"
    "ctx_heights h1 m c' = ctx_heights h m c'" for q s rt m
    using fresh(2) Cons par(4,5) by (intro tree_at_cong ctx_at_cong ctx_heights_cong away; auto)+
  have c1: "ctx_at h1 (avl_root tree) c par e" "ctx_heights h1 0 c" "tree_at h1 par e (Node Leaf e Leaf)"
    using ctx hts side links node sub par fresh Cons by (cases f; auto simp: side_ok_def Let_def)+
  let ?io = "before_hole c @ after_hole c"
  have ne: "?io \<noteq> []" "plug c Leaf \<noteq> Leaf" "plug c (Node Leaf e Leaf) \<noteq> Leaf"
    using Cons inorder_plug [of c "Leaf"] inorder_plug [of c "Node Leaf e Leaf"] by (cases f; force)+
  have hd_tl: "avl_head tree = hd ?io" "avl_tail tree = last ?io" using ends ne by (simp_all add: ends_ok_def inorder_plug)
  have "hd ?io \<in> set (ctx_ptrs c)" "last ?io \<in> set (ctx_ptrs c)" using ne(1) by (metis hd_in_set last_in_set set_append set_ctx_ptrs)+
  moreover have "0 \<notin> set (ctx_ptrs c)" using tree_at_null [OF at] by (simp add: set_plug)
  ultimately have nz: "avl_head tree \<noteq> 0" "avl_tail tree \<noteq> 0" using hd_tl by metis+
  have link: "h1 (frame_ptr f) = (case f of Below_Left x r \<Rightarrow> (h x)\<lparr>el_left := e\<rparr> | Below_Right l x \<Rightarrow> (h x)\<lparr>el_right := e\<rparr>)"
    using links par(1) side Cons by (cases f) (auto simp: side_ok_def)
  note iff = first_iff [OF at Cons dist fresh away [unfolded par(1)] link]
  let ?tree = "tree\<lparr>avl_size := avl_size tree + 1, avl_head := (if before_hole c = [] then e else avl_head tree),
     avl_tail := (if after_hole c = [] then e else avl_tail tree)\<rparr>"
  have "attach_leaf tree h e par lastLess = Some (?tree, h1)"
    using iff [folded hd_tl] nz par(2) unfolding attach_leaf_def Let_def h0_def [symmetric] h1_def [symmetric]
    by (cases tree) auto
  moreover have "ends_ok ?tree (plug c (Node Leaf e Leaf))"
    using ne hd_tl by (auto simp: ends_ok_def inorder_plug hd_append)
  ultimately show ?thesis using c1 by (intro exI [of _ ?tree] exI [of _ h1]) simp
qed

lemma balanced_frame: "balanced (plug c t) \<Longrightarrow> f \<in> set c \<Longrightarrow> balanced (frame_tree f)"
proof (induction c arbitrary: t)
  case (Cons g c)
  have "balanced (plug1 g t)" using Cons.prems(1) balanced_plug_hole by (simp, blast)
  then show ?case using Cons by (auto simp: balanced_plug1)
qed simp

text \<open>From the attached leaf on: heights, search for the ancestor out of balance, rotation.\<close>

lemma find_unbal_short:
  assumes "tree_at h 0 rt (plug c (Node Leaf e Leaf))" "length c < 2"
  shows "find_first_unbal_gp h e = Some 0"
proof -
  obtain par p where "ctx_at h rt c par p" "tree_at h par p (Node Leaf e Leaf)" using assms(1) unfolding tree_at_plug by blast
  then show ?thesis using assms(2) by (cases c) (auto simp: find_first_unbal_gp_def)
qed

lemma unbal_cases:
  assumes at: "tree_at h 0 (avl_root tree) (plug c (Node Leaf e Leaf))" and dist: "distinct (inorder (plug c (Node Leaf e Leaf)))"
    and bal: "balanced (plug c Leaf)"
  obtains (none) "find_first_unbal_gp h e = Some 0" "balanced (plug c (Node Leaf e Leaf))"
  | (rotated) n ggp tree' h' t' where "find_first_unbal_gp h e = Some n" "n \<noteq> 0" "rebalance tree h n = Some (ggp, tree', h')"
      "tree_at h' 0 (avl_root tree') t'" "inorder t' = inorder (plug c (Node Leaf e Leaf))" "balanced t'"
      "tree' = tree\<lparr>avl_root := avl_root tree'\<rparr>"
proof (cases "length c < 2")
  case True
  have "balanced (plug c (Node Leaf e Leaf))"
    using True bal by (cases c) (auto simp: balanced_plug1)
  then show ?thesis using find_unbal_short [OF at True] by (intro none)
next
  case False
  let ?leaf = "Node Leaf e Leaf"
  obtain f1 f2 c' where c: "c = f1 # f2 # c'" using False by (cases c rule: remdups_adj.cases) auto
  note up = unbal_step(1-5) [OF at [unfolded c]]
  have first: "find_first_unbal_gp h e = unbal_gp_loop h e (frame_ptr f2)" using up by (simp add: find_first_unbal_gp_def)
  have "balanced (plug1 f1 Leaf)" using bal balanced_plug_hole [of "f2 # c'"] unfolding c by simp
  then have "balanced (plug1 f1 ?leaf)" by (auto simp: balanced_plug1)
  then consider (still) "balanced (plug c ?leaf)"
    | (unb) pre g1 g2 d where "f1 # f2 # c' = pre @ g1 # g2 # d" "balanced (plug1 g1 (plug pre ?leaf))"
        "\<not> balanced (plug1 g2 (plug1 g1 (plug pre ?leaf)))" "balanced (plug d (rot g1 g2 (plug pre ?leaf)))"
    using first_unbalanced [of f1 f2 c' Leaf ?leaf] bal unfolding c by auto
  then show ?thesis
  proof cases
    case still
    then show ?thesis using unbal_none [OF at [unfolded c]] first c by (intro none) simp_all
  next
    case unb
    have "inorder (plug pre ?leaf) \<noteq> []" by (simp add: inorder_plug)
    then obtain l n r where n: "plug pre ?leaf = Node l n r" by (cases "plug pre ?leaf") auto
    have g2: "balanced (frame_tree g2)" using balanced_frame [OF assms(3), of g2] unb(1) c by simp
    have at': "tree_at h 0 (avl_root tree) (plug (g1 # g2 # d) (Node l n r))"
      using at unfolding c unb(1) plug_append n .
    have d': "distinct (inorder (plug (g1 # g2 # d) (Node l n r)))"
      using dist unfolding c unb(1) plug_append n .
    obtain ggp tree' h' where rb: "rebalance tree h n = Some (ggp, tree', h')"
      "tree_at h' 0 (avl_root tree') (plug d (rot g1 g2 (Node l n r)))" "tree' = tree\<lparr>avl_root := avl_root tree'\<rparr>"
      using rebalance_ok [OF at' d'] by blast
    have fn: "find_first_unbal_gp h e = Some n"
      unfolding first by (rule unbal_found [OF at [unfolded c unb(1)] unb(2,3) g2 n unb(1) [symmetric]])
    have io: "inorder (plug d (rot g1 g2 (Node l n r))) = inorder (plug c ?leaf)"
      unfolding inorder_plug_rot c unb(1) plug_append n ..
    have bal': "balanced (plug d (rot g1 g2 (Node l n r)))" using unb(4) unfolding n .
    show ?thesis by (rule rotated [OF fn unbal_step(3) [OF at'] rb(1,2) io bal' rb(3)])
  qed
qed

lemma attach_rebal_ok:
  assumes at: "tree_at h 0 (avl_root tree) (plug c Leaf)" and ctx: "ctx_at h (avl_root tree) c par 0"
    and dist: "distinct (ctx_ptrs c)" and fresh: "e \<noteq> 0" "e \<notin> set (ctx_ptrs c)"
    and ends: "ends_ok tree (plug c Leaf)" and side: "side_ok c lastLess" and bal: "balanced (plug c Leaf)"
  shows "\<exists>tree' h' t'. avl_attach_rebal tree h e par lastLess = Some (tree', h') \<and>
    tree_at h' 0 (avl_root tree') t' \<and> inorder t' = before_hole c @ e # after_hole c \<and> balanced t' \<and>
    ends_ok tree' t' \<and> avl_size tree' = avl_size tree + 1"
proof -
  let ?leaf = "Node Leaf e Leaf"
  have hts: "ctx_heights h 0 c" using at ctx unfolding tree_at_plug by auto
  obtain tree1 h1 where h1: "attach_leaf tree h e par lastLess = Some (tree1, h1)" "ctx_at h1 (avl_root tree1) c par e"
      "ctx_heights h1 0 c" "tree_at h1 par e ?leaf" "ends_ok tree1 (plug c ?leaf)" "avl_size tree1 = avl_size tree + 1"
    using attach_leaf_ok [OF at ctx hts dist fresh ends side] by blast
  obtain h2 where h2: "recalc_heights h1 par = Some h2" "ctx_at h2 (avl_root tree1) c par e" "ctx_heights h2 1 c"
      "\<And>x. x \<notin> set (ctx_ptrs c) \<Longrightarrow> h2 x = h1 x"
    using recalc_heights_ok [OF h1(2,3) _ fresh(2) dist, of 1] tree_at_height [OF h1(4)] by auto
  have "tree_at h2 par e ?leaf" using h1(4) h2(4) fresh(2) by simp
  then have at2: "tree_at h2 0 (avl_root tree1) (plug c ?leaf)" unfolding tree_at_plug using h2(2,3) by auto
  have d2: "distinct (inorder (plug c ?leaf))" using dist fresh by (simp add: distinct_plug)
  have step: "avl_attach_rebal tree h e par lastLess =
      (case find_first_unbal_gp h2 e of None \<Rightarrow> None | Some ub \<Rightarrow> if ub \<noteq> 0 then map_option snd (rebalance tree1 h2 ub) else Some (tree1, h2))"
    by (simp add: avl_attach_rebal_def h1(1) h2(1))
  have io: "inorder (plug c ?leaf) = before_hole c @ e # after_hole c" by (simp add: inorder_plug)
  show ?thesis
    using at2 d2 bal
  proof (cases rule: unbal_cases)
    case none
    then show ?thesis using step at2 io h1(5,6) by auto
  next
    case (rotated n ggp tree' h' t')
    have "avl_head tree' = avl_head tree1" "avl_tail tree' = avl_tail tree1" "avl_size tree' = avl_size tree1"
      using arg_cong [OF rotated(7), of avl_head] arg_cong [OF rotated(7), of avl_tail] arg_cong [OF rotated(7), of avl_size] by simp_all
    moreover have "t' \<noteq> Leaf" "plug c ?leaf \<noteq> Leaf" using rotated(5) io by force+
    ultimately have "ends_ok tree' t'" "avl_size tree' = avl_size tree + 1"
      using h1(5,6) rotated(5) by (simp_all add: ends_ok_def)
    then show ?thesis using step rotated io by auto
  qed
qed

section \<open>Search and insertion\<close>

text \<open>
  What the generated functions rely on: the comparison is a three-way comparison of a linear order.
\<close>

text \<open>Where a descent ends in the tree \<open>t\<close>: at an element with the key, or at the position where the key belongs.\<close>

definition lands :: "(ptr \<Rightarrow> 'k::linorder) \<Rightarrow> 'k \<Rightarrow> avl_heap \<Rightarrow> ptr \<Rightarrow> ptr tree \<Rightarrow> descent \<Rightarrow> bool" where
  "lands key k h rt t d =
    (case d of Hit q \<Rightarrow> q \<in> set_tree t \<and> key q = k
     | Attach par lastLess \<Rightarrow> \<exists>c. plug c Leaf = t \<and> ctx_at h rt c par 0 \<and> side_ok c lastLess \<and>
         (\<forall>y \<in> set (before_hole c). key y < k) \<and> (\<forall>y \<in> set (after_hole c). k < key y))"

text \<open>
  The invariant of a tree with the keys \<open>key\<close>: the links form \<open>t\<close>, with the right heights, the keys
  ascend from left to right, the tree is balanced, and size, head and tail are right.
\<close>

definition avl_ok :: "(ptr \<Rightarrow> 'k::linorder) \<Rightarrow> avl_tree \<Rightarrow> avl_heap \<Rightarrow> ptr tree \<Rightarrow> bool" where
  "avl_ok key tree h t =
     (tree_at h 0 (avl_root tree) t \<and> sorted_wrt (<) (map key (inorder t)) \<and> balanced t \<and> ends_ok tree t \<and>
      avl_size tree = int (size t))"

lemma avl_ok_distinct: "avl_ok key tree h t \<Longrightarrow> distinct (inorder t)"
  unfolding avl_ok_def by (metis distinct_map strict_sorted_iff)

locale three_way =
  fixes cmp :: "'k::linorder \<Rightarrow> 'k \<Rightarrow> int"
  assumes cmp_less: "cmp a b < 0 \<longleftrightarrow> a < b" and cmp_greater: "cmp a b > 0 \<longleftrightarrow> b < a"
begin

lemma find_loop_ok:
  assumes "tree_at h par p t" "sorted_wrt (<) (map key (inorder t))"
  shows "\<exists>q. find_loop cmp key h k p = Some q \<and> (q \<noteq> 0 \<longleftrightarrow> k \<in> key ` set_tree t) \<and> (q \<noteq> 0 \<longrightarrow> q \<in> set_tree t \<and> key q = k)"
  using assms
proof (induction t arbitrary: par p)
  case Leaf
  then show ?case by (subst find_loop.simps) simp
next
  case (Node l x r)
  have p: "p = x" "p \<noteq> 0" "tree_at h x (el_left (h x)) l" "tree_at h x (el_right (h x)) r" using Node.prems(1) by auto
  have s: "sorted_wrt (<) (map key (inorder l))" "sorted_wrt (<) (map key (inorder r))"
    and lt: "\<And>y. y \<in> set_tree l \<Longrightarrow> key y < key x" "\<And>y. y \<in> set_tree r \<Longrightarrow> key x < key y"
    using Node.prems(2) by (auto simp: sorted_wrt_append)
  consider "k < key x" | "key x < k" | "k = key x" by (metis linorder_less_linear)
  then show ?case
  proof cases
    case 1
    then have "find_loop cmp key h k p = find_loop cmp key h k (el_left (h x))"
      using p cmp_less [of k "key x"] by (subst find_loop.simps) (simp add: Let_def)
    moreover have "k \<notin> key ` set_tree r" "k \<noteq> key x" using 1 lt(2) by (auto dest: order_less_trans)
    ultimately show ?thesis using Node.IH(1) [OF p(3) s(1)] by auto
  next
    case 2
    then have "find_loop cmp key h k p = find_loop cmp key h k (el_right (h x))"
      using p cmp_greater [of k "key x"] by (subst find_loop.simps) (simp add: Let_def)
    moreover have "k \<notin> key ` set_tree l" "k \<noteq> key x" using 2 lt(1) by (auto dest: order_less_trans)
    ultimately show ?thesis using Node.IH(2) [OF p(4) s(2)] by auto
  next
    case 3
    then have "find_loop cmp key h k p = Some p"
      using p cmp_less [of k k] cmp_greater [of k k] by (subst find_loop.simps) (simp add: Let_def)
    then show ?thesis using p 3 by auto
  qed
qed

text \<open>The descent of the insertion keeps the position, the side, and that the new key fits there.\<close>

lemma insert_loop_ok:
  assumes "tree_at h par p t" "ctx_at h rt c par p" "sorted_wrt (<) (map key (inorder t))" "side_ok c lastLess"
    and "lastLess = 0 \<or> lastLess \<in> set (ctx_ptrs c)" "set_tree t \<inter> set (ctx_ptrs c) = {}" "distinct (inorder t)"
    and "\<forall>y \<in> set (before_hole c). key y < k" "\<forall>y \<in> set (after_hole c). k < key y"
  shows "\<exists>d. insert_loop cmp key h k p par lastLess = Some d \<and> lands key k h rt (plug c t) d"
  using assms
proof (induction t arbitrary: par p c lastLess)
  case Leaf
  then show ?case by (subst insert_loop.simps) (auto simp: lands_def)
next
  case (Node l x r)
  have p: "p = x" "p \<noteq> 0" "tree_at h x (el_left (h x)) l" "tree_at h x (el_right (h x)) r" "el_parent (h x) = par"
    using Node.prems(1) by auto
  have s: "sorted_wrt (<) (map key (inorder l))" "sorted_wrt (<) (map key (inorder r))"
    and lt: "\<And>y. y \<in> set_tree l \<Longrightarrow> key y < key x" "\<And>y. y \<in> set_tree r \<Longrightarrow> key x < key y"
    using Node.prems(3) by (auto simp: sorted_wrt_append)
  consider "k < key x" | "key x < k" | "k = key x" by (metis linorder_less_linear)
  then show ?case
  proof cases
    case 1
    let ?c = "Below_Left x r # c"
    have "insert_loop cmp key h k p par lastLess = insert_loop cmp key h k (el_left (h x)) x x"
      using 1 p cmp_less [of k "key x"] by (subst insert_loop.simps) (simp add: Let_def)
    moreover have "\<forall>y \<in> set (after_hole ?c). k < key y" using 1 lt(2) Node.prems(9) by (auto dest: order_less_trans)
    then have "\<exists>d. insert_loop cmp key h k (el_left (h x)) x x = Some d \<and> lands key k h rt (plug ?c l) d"
      using Node.prems(2,6,7,8) p by (intro Node.IH(1) [OF p(3) _ s(1)]) (auto simp: side_ok_def)
    ultimately show ?thesis by simp
  next
    case 2
    let ?c = "Below_Right l x # c"
    have "insert_loop cmp key h k p par lastLess = insert_loop cmp key h k (el_right (h x)) x lastLess"
      using 2 p cmp_greater [of k "key x"] by (subst insert_loop.simps) (simp add: Let_def)
    moreover have "lastLess \<noteq> x" "\<forall>y \<in> set (before_hole ?c). key y < k"
      using 2 lt(1) Node.prems(5,6,8) p by (auto dest: order_less_trans)
    then have "\<exists>d. insert_loop cmp key h k (el_right (h x)) x lastLess = Some d \<and> lands key k h rt (plug ?c r) d"
      using Node.prems(2,5,6,7,9) p by (intro Node.IH(2) [OF p(4) _ s(2)]) (auto simp: side_ok_def)
    ultimately show ?thesis by simp
  next
    case 3
    then have "insert_loop cmp key h k p par lastLess = Some (Hit p)"
      using p cmp_less [of k k] cmp_greater [of k k] by (subst insert_loop.simps) (simp add: Let_def)
    then show ?thesis using p 3 by (auto simp: lands_def set_plug)
  qed
qed


lemma avl_find_ok:
  assumes "avl_ok key tree h t"
  shows "\<exists>q. avl_find cmp key tree h k = Some q \<and> (q \<noteq> 0 \<longleftrightarrow> k \<in> key ` set_tree t) \<and> (q \<noteq> 0 \<longrightarrow> q \<in> set_tree t \<and> key q = k)"
  using assms find_loop_ok unfolding avl_ok_def avl_find_def by blast

lemma avl_insert_ok:
  assumes ok: "avl_ok key tree h t" and fresh: "e \<noteq> 0" "e \<notin> set_tree t"
  shows "\<exists>tree' h' t'. avl_ok key tree' h' t' \<and>
    (if key e \<in> key ` set_tree t then tree' = tree \<and> h' = h \<and> t' = t \<and>
       (\<exists>q \<in> set_tree t. key q = key e \<and> avl_insert cmp key tree h e = Some (0, q, tree, h))
     else avl_insert cmp key tree h e = Some (e, e, tree', h') \<and> set_tree t' = insert e (set_tree t))"
proof -
  have at: "tree_at h 0 (avl_root tree) t" and srt: "sorted_wrt (<) (map key (inorder t))" and bal: "balanced t"
    and ends: "ends_ok tree t" and sz: "avl_size tree = int (size t)"
    using ok by (simp_all add: avl_ok_def)
  have dist: "distinct (inorder t)" using avl_ok_distinct [OF ok] .
  obtain d where d: "insert_loop cmp key h (key e) (avl_root tree) 0 0 = Some d" "lands key (key e) h (avl_root tree) t d"
    using insert_loop_ok [of h 0 "avl_root tree" t "avl_root tree" "[]" key 0 "key e"] at srt dist by (auto simp: side_ok_def)
  show ?thesis
  proof (cases d)
    case (Hit q)
    then have "q \<in> set_tree t" "key q = key e" using d(2) by (simp_all add: lands_def)
    moreover have "avl_insert cmp key tree h e = Some (0, q, tree, h)" using d(1) Hit by (simp add: avl_insert_def)
    moreover have "key e \<in> key ` set_tree t" using calculation(1,2) by (metis imageI)
    ultimately show ?thesis using ok by (intro exI [of _ tree] exI [of _ h] exI [of _ t]) auto
  next
    case (Attach par lastLess)
    then obtain c where c: "plug c Leaf = t" "ctx_at h (avl_root tree) c par 0" "side_ok c lastLess"
        "\<forall>y \<in> set (before_hole c). key y < key e" "\<forall>y \<in> set (after_hole c). key e < key y"
      using d(2) by (auto simp: lands_def)
    have mem: "set_tree t = set (ctx_ptrs c)" "set (ctx_ptrs c) = set (before_hole c) \<union> set (after_hole c)"
      unfolding c(1) [symmetric] set_plug set_ctx_ptrs by simp_all
    have dc: "distinct (ctx_ptrs c)" using dist unfolding c(1) [symmetric] distinct_plug by blast
    obtain tree' h' t' where r: "avl_attach_rebal tree h e par lastLess = Some (tree', h')" "tree_at h' 0 (avl_root tree') t'"
        "inorder t' = before_hole c @ e # after_hole c" "balanced t'" "ends_ok tree' t'" "avl_size tree' = avl_size tree + 1"
      using attach_rebal_ok [of h tree c par e lastLess] at ends bal c dc fresh mem by auto
    have io: "inorder t = before_hole c @ after_hole c" using inorder_plug [of c Leaf] c(1) by simp
    have "sorted_wrt (<) (map key (inorder t'))"
      using srt c(4,5) unfolding r(3) io by (auto simp: sorted_wrt_append)
    moreover have "avl_size tree' = int (size t')"
      using r(3,6) sz io length_inorder [of t'] length_inorder [of t] by simp
    ultimately have "avl_ok key tree' h' t'" using r by (simp add: avl_ok_def)
    moreover have "set_tree t' = insert e (set_tree t)" unfolding set_inorder [symmetric] r(3) io by auto
    moreover have "key e \<notin> key ` set_tree t" using c(4,5) mem by auto
    moreover have "avl_insert cmp key tree h e = Some (e, e, tree', h')" using d(1) Attach r(1) by (simp add: avl_insert_def)
    ultimately show ?thesis by auto
  qed
qed

end

end
