(* ===== verification/Blocklist.thy ===== *)
theory Blocklist
  imports Prelude Avl_Insert
begin

text \<open>
  The table of blocked connections of \<open>shuttle/attribute.c\<close>: \<open>struct connection\<close>, the comparison, the
  functions \<open>avl_declare( conn, connection )\<close> generates, and \<open>link_block_store\<close>. A connection is
  stored with its element of the AVL tree; the heap of connections is \<open>ct_conn\<close>, the elements are in
  \<open>ct_heap\<close> at the same addresses.
\<close>

section \<open>Connections\<close>

datatype connection = connection (addr1: u32) (addr2: u32) (port1: u16) (port2: u16)

definition conn_compare :: "connection \<Rightarrow> connection \<Rightarrow> int" where
  "conn_compare el1 el2 =
     (if addr1 el1 < addr1 el2 then -1
      else if addr1 el1 > addr1 el2 then 1
      else if addr2 el1 < addr2 el2 then -1
      else if addr2 el1 > addr2 el2 then 1
      else if port1 el1 < port1 el2 then -1
      else if port1 el1 > port1 el2 then 1
      else if port2 el1 < port2 el2 then -1
      else if port2 el1 > port2 el2 then 1
      else 0)"

text \<open>The order the comparison decides: by the four fields, the first one that differs counts.\<close>

instantiation connection :: linorder
begin

definition less_connection :: "connection \<Rightarrow> connection \<Rightarrow> bool" where
  "c < d \<longleftrightarrow> addr1 c < addr1 d \<or> addr1 c = addr1 d \<and> (addr2 c < addr2 d \<or>
     addr2 c = addr2 d \<and> (port1 c < port1 d \<or> port1 c = port1 d \<and> port2 c < port2 d))"

definition less_eq_connection :: "connection \<Rightarrow> connection \<Rightarrow> bool" where
  "c \<le> d \<longleftrightarrow> c < d \<or> c = (d :: connection)"

instance
proof
  fix a b c :: connection
  have irr: "\<not> a < a" for a :: connection by (simp add: less_connection_def)
  have tr: "a < b \<Longrightarrow> b < c \<Longrightarrow> a < c" for a b c :: connection
    unfolding less_connection_def by (elim disjE conjE) (auto dest: order_less_trans)
  show "(a < b) = (a \<le> b \<and> \<not> b \<le> a)" unfolding less_eq_connection_def by (metis irr tr)
  show "a \<le> a" by (simp add: less_eq_connection_def)
  show "a \<le> b \<Longrightarrow> b \<le> c \<Longrightarrow> a \<le> c" using tr unfolding less_eq_connection_def by blast
  show "a \<le> b \<Longrightarrow> b \<le> a \<Longrightarrow> a = b" unfolding less_eq_connection_def by (metis irr tr)
  show "a \<le> b \<or> b \<le> a"
    unfolding less_eq_connection_def less_connection_def by (cases a; cases b) (auto simp: not_less_iff_gr_or_eq)
qed

end

interpretation conn: three_way conn_compare
  by unfold_locales (auto simp: conn_compare_def less_connection_def)

section \<open>The table\<close>

record conn_table =
  ct_tree :: avl_tree
  ct_heap :: avl_heap
  ct_conn :: "ptr \<Rightarrow> connection"

text \<open>\<open>struct avl_tree block = { 0, 0, 0, 0 }\<close>, in whatever memory the module finds.\<close>

definition block_empty :: "avl_heap \<Rightarrow> (ptr \<Rightarrow> connection) \<Rightarrow> conn_table" where
  "block_empty h m = \<lparr>ct_tree = \<lparr>avl_root = 0, avl_head = 0, avl_tail = 0, avl_size = 0\<rparr>, ct_heap = h, ct_conn = m\<rparr>"

definition conn_find :: "conn_table \<Rightarrow> connection \<Rightarrow> ptr option" where
  "conn_find s c = avl_find conn_compare (ct_conn s) (ct_tree s) (ct_heap s) c"

definition conn_insert :: "conn_table \<Rightarrow> ptr \<Rightarrow> (ptr \<times> conn_table) option" where
  "conn_insert s element =
     (case avl_insert conn_compare (ct_conn s) (ct_tree s) (ct_heap s) element of None \<Rightarrow> None
      | Some (r, lastFound, tree, h) \<Rightarrow> Some (r, s\<lparr>ct_tree := tree, ct_heap := h\<rparr>))"

text \<open>
  \<open>link_block_store\<close>. The two addresses are what the calls of \<open>kmalloc\<close> return; the code does not
  test them, and writes through a null pointer when there is no memory. \<open>in_aton\<close> is the kernel's.
  The ports are truncated to 16 bits.
\<close>

definition block_pair :: "(u8 list \<Rightarrow> u32) \<Rightarrow> u8 list \<Rightarrow> int \<Rightarrow> u8 list \<Rightarrow> int \<Rightarrow> connection \<times> connection" where
  "block_pair in_aton ip1 p1 ip2 p2 =
     (let bip1 = in_aton ip1; bip2 = in_aton ip2 in
      (connection bip1 bip2 (word_of_int p1) (word_of_int p2),
       connection bip2 bip1 (word_of_int p2) (word_of_int p1)))"

definition link_block_store ::
    "(u8 list \<Rightarrow> u32) \<Rightarrow> ptr \<times> ptr \<Rightarrow> u8 list \<Rightarrow> int \<Rightarrow> u8 list \<Rightarrow> int \<Rightarrow> conn_table \<Rightarrow> (int \<times> conn_table) option" where
  "link_block_store in_aton kmalloc ip1 p1 ip2 p2 block =
     (let (c1, c2) = block_pair in_aton ip1 p1 ip2 p2; (pc1, pc2) = kmalloc in
      case conn_find block c1 of None \<Rightarrow> None
      | Some r \<Rightarrow>
          if r = 0 then
            if pc1 = 0 \<or> pc2 = 0 then None
            else
              let block = block\<lparr>ct_conn := (ct_conn block)(pc1 := c1, pc2 := c2)\<rparr> in
              (case conn_insert block pc1 of None \<Rightarrow> None
               | Some (_, block) \<Rightarrow>
                   (case conn_insert block pc2 of None \<Rightarrow> None
                    | Some (_, block) \<Rightarrow>
                        (case conn_find block c1 of None \<Rightarrow> None | Some _ \<Rightarrow> Some (0, block))))
          else Some (0, block))"

section \<open>What the table holds\<close>

definition conn_swap :: "connection \<Rightarrow> connection" where
  "conn_swap c = connection (addr2 c) (addr1 c) (port2 c) (port1 c)"

text \<open>
  \<open>table_holds s C P\<close>: the tree of \<open>s\<close> is in order, its elements are at the addresses \<open>P\<close> and hold
  exactly the connections \<open>C\<close>.
\<close>

definition table_holds :: "conn_table \<Rightarrow> connection set \<Rightarrow> ptr set \<Rightarrow> bool" where
  "table_holds s C P = (\<exists>t. avl_ok (ct_conn s) (ct_tree s) (ct_heap s) t \<and> set_tree t = P \<and> ct_conn s ` P = C)"

lemma avl_ok_key_cong:
  assumes "avl_ok key tree h t" "\<And>x. x \<in> set_tree t \<Longrightarrow> key' x = key x"
  shows "avl_ok key' tree h t"
proof -
  have "map key' (inorder t) = map key (inorder t)" using assms(2) by simp
  then show ?thesis using assms(1) unfolding avl_ok_def by (simp only:)
qed

lemma table_holds_conn:
  assumes "table_holds s C P" "\<And>x. x \<in> P \<Longrightarrow> m x = ct_conn s x"
  shows "table_holds (s\<lparr>ct_conn := m\<rparr>) C P"
proof -
  obtain t where t: "avl_ok (ct_conn s) (ct_tree s) (ct_heap s) t" "set_tree t = P" "ct_conn s ` P = C"
    using assms(1) unfolding table_holds_def by blast
  have "avl_ok m (ct_tree s) (ct_heap s) t" using avl_ok_key_cong [OF t(1)] assms(2) t(2) by simp
  moreover have "m ` P = C" using t(3) assms(2) by force
  ultimately show ?thesis using t(2) by (auto simp: table_holds_def)
qed

lemma table_empty: "table_holds (block_empty h m) {} {}"
  by (simp add: table_holds_def block_empty_def avl_ok_def ends_ok_def)

lemma conn_find_ok:
  assumes "table_holds s C P"
  shows "\<exists>q. conn_find s c = Some q \<and> (q \<noteq> 0 \<longleftrightarrow> c \<in> C) \<and> (q \<noteq> 0 \<longrightarrow> ct_conn s q = c)"
  using assms conn.avl_find_ok [of "ct_conn s" "ct_tree s" "ct_heap s"] unfolding table_holds_def conn_find_def by metis

lemma conn_insert_ok:
  assumes "table_holds s C P" "p \<noteq> 0" "p \<notin> P"
  shows "\<exists>r s' P'. conn_insert s p = Some (r, s') \<and> ct_conn s' = ct_conn s \<and>
    table_holds s' (insert (ct_conn s p) C) P' \<and> P' \<subseteq> insert p P"
proof -
  obtain t where t: "avl_ok (ct_conn s) (ct_tree s) (ct_heap s) t" "set_tree t = P" "ct_conn s ` P = C"
    using assms(1) unfolding table_holds_def by blast
  obtain tree' h' t' where t': "avl_ok (ct_conn s) tree' h' t'"
    and r: "if ct_conn s p \<in> C then tree' = ct_tree s \<and> h' = ct_heap s \<and> t' = t \<and>
       (\<exists>q \<in> P. ct_conn s q = ct_conn s p \<and> avl_insert conn_compare (ct_conn s) (ct_tree s) (ct_heap s) p = Some (0, q, ct_tree s, ct_heap s))
     else avl_insert conn_compare (ct_conn s) (ct_tree s) (ct_heap s) p = Some (p, p, tree', h') \<and> set_tree t' = insert p P"
    using conn.avl_insert_ok [OF t(1) assms(2)] assms(3) unfolding t(2,3) by blast
  show ?thesis
  proof (cases "ct_conn s p \<in> C")
    case True
    then have "conn_insert s p = Some (0, s)" using r by (auto simp: conn_insert_def)
    moreover have "insert (ct_conn s p) C = C" using True by blast
    ultimately show ?thesis using assms(1) by auto
  next
    case False
    let ?s = "s\<lparr>ct_tree := tree', ct_heap := h'\<rparr>"
    have "conn_insert s p = Some (p, ?s)" using False r by (simp add: conn_insert_def)
    moreover have "table_holds ?s (insert (ct_conn s p) C) (insert p P)"
      unfolding table_holds_def using t' False r t(3) by (intro exI [of _ t']) auto
    ultimately show ?thesis by (metis conn_table.select_convs(3) conn_table.surjective conn_table.update_convs(1,2) subset_refl)
  qed
qed

lemma block_pair_swap: "block_pair in_aton ip1 p1 ip2 p2 = (c1, c2) \<Longrightarrow> c2 = conn_swap c1"
  by (auto simp: block_pair_def conn_swap_def Let_def)

text \<open>\<open>link_block_store\<close> adds the connection in both directions.\<close>

lemma block_store_ok:
  assumes holds: "table_holds s C P" and sym: "conn_swap ` C \<subseteq> C"
    and mem: "pc1 \<noteq> 0" "pc2 \<noteq> 0" "pc1 \<noteq> pc2" "pc1 \<notin> P" "pc2 \<notin> P"
    and c1: "c1 = fst (block_pair in_aton ip1 p1 ip2 p2)"
  shows "\<exists>s' P'. link_block_store in_aton (pc1, pc2) ip1 p1 ip2 p2 s = Some (0, s') \<and>
    table_holds s' (C \<union> {c1, conn_swap c1}) P' \<and> P' \<subseteq> P \<union> {pc1, pc2}"
proof -
  obtain c2 where pair: "block_pair in_aton ip1 p1 ip2 p2 = (c1, c2)" "c2 = conn_swap c1"
    using c1 block_pair_swap by (metis prod.collapse)
  obtain q where q: "conn_find s c1 = Some q" "q \<noteq> 0 \<longleftrightarrow> c1 \<in> C" using conn_find_ok [OF holds] by blast
  show ?thesis
  proof (cases "q = 0")
    case False
    then have "C \<union> {c1, conn_swap c1} = C" using q(2) sym by blast
    moreover have "link_block_store in_aton (pc1, pc2) ip1 p1 ip2 p2 s = Some (0, s)"
      using False q(1) pair by (simp add: link_block_store_def)
    ultimately show ?thesis using holds by auto
  next
    case True
    let ?s = "s\<lparr>ct_conn := (ct_conn s)(pc1 := c1, pc2 := c2)\<rparr>"
    have "table_holds ?s C P" by (rule table_holds_conn [OF holds]) (use mem in auto)
    then obtain r1 s1 P1 where s1: "conn_insert ?s pc1 = Some (r1, s1)" "ct_conn s1 = ct_conn ?s"
        "table_holds s1 (insert c1 C) P1" "P1 \<subseteq> insert pc1 P"
      using conn_insert_ok [of ?s C P pc1] mem by auto
    then obtain r2 s2 P2 where s2: "conn_insert s1 pc2 = Some (r2, s2)" "table_holds s2 (insert c2 (insert c1 C)) P2" "P2 \<subseteq> insert pc2 P1"
      using conn_insert_ok [OF s1(3), of pc2] mem by auto
    obtain q' where "conn_find s2 c1 = Some q'" using conn_find_ok [OF s2(2)] by blast
    then have "link_block_store in_aton (pc1, pc2) ip1 p1 ip2 p2 s = Some (0, s2)"
      using True q(1) pair mem s1(1) s2(1) by (simp add: link_block_store_def Let_def)
    moreover have "C \<union> {c1, conn_swap c1} = insert c2 (insert c1 C)" using pair(2) by auto
    ultimately show ?thesis using s1(4) s2(2,3) by (intro exI [of _ s2] exI [of _ P2]) auto
  qed
qed

section \<open>Properties\<close>

text \<open>A sequence of block commands, each with the two addresses that \<open>kmalloc\<close> returns for it.\<close>

type_synonym block_cmd = "(ptr \<times> ptr) \<times> u8 list \<times> int \<times> u8 list \<times> int"

fun block_run :: "(u8 list \<Rightarrow> u32) \<Rightarrow> block_cmd list \<Rightarrow> conn_table \<Rightarrow> conn_table option" where
  "block_run in_aton [] s = Some s"
| "block_run in_aton ((m, ip1, p1, ip2, p2) # cmds) s =
     (case link_block_store in_aton m ip1 p1 ip2 p2 s of None \<Rightarrow> None | Some (_, s') \<Rightarrow> block_run in_aton cmds s')"

definition cmd_conn :: "(u8 list \<Rightarrow> u32) \<Rightarrow> block_cmd \<Rightarrow> connection" where
  "cmd_conn in_aton cmd = (case cmd of (m, ip1, p1, ip2, p2) \<Rightarrow> fst (block_pair in_aton ip1 p1 ip2 p2))"

definition cmd_mem :: "block_cmd list \<Rightarrow> ptr list" where
  "cmd_mem cmds = concat (map (\<lambda>((a, b), _). [a, b]) cmds)"

lemma conn_swap_swap [simp]: "conn_swap (conn_swap c) = c"
  by (cases c) (simp add: conn_swap_def)

lemma block_run_ok:
  assumes "table_holds s C P" "conn_swap ` C \<subseteq> C" "distinct (cmd_mem cmds)" "0 \<notin> set (cmd_mem cmds)" "set (cmd_mem cmds) \<inter> P = {}"
  shows "\<exists>s' P'. block_run in_aton cmds s = Some s' \<and>
    table_holds s' (C \<union> (\<Union>cmd \<in> set cmds. {cmd_conn in_aton cmd, conn_swap (cmd_conn in_aton cmd)})) P'"
  using assms
proof (induction cmds arbitrary: s C P)
  case Nil
  then show ?case by auto
next
  case (Cons cmd cmds)
  obtain pc1 pc2 ip1 p1 ip2 p2 where cmd: "cmd = ((pc1, pc2), ip1, p1, ip2, p2)" by (metis prod.collapse)
  let ?c = "cmd_conn in_aton cmd"
  have mem: "pc1 \<noteq> 0" "pc2 \<noteq> 0" "pc1 \<noteq> pc2" "pc1 \<notin> P" "pc2 \<notin> P"
    and rest: "distinct (cmd_mem cmds)" "0 \<notin> set (cmd_mem cmds)" "set (cmd_mem cmds) \<inter> (P \<union> {pc1, pc2}) = {}"
    using Cons.prems(3-5) cmd by (auto simp: cmd_mem_def)
  obtain s1 P1 where s1: "link_block_store in_aton (pc1, pc2) ip1 p1 ip2 p2 s = Some (0, s1)"
      "table_holds s1 (C \<union> {?c, conn_swap ?c}) P1" "P1 \<subseteq> P \<union> {pc1, pc2}"
    using block_store_ok [OF Cons.prems(1,2) mem, of ?c in_aton ip1 p1 ip2 p2] cmd by (auto simp: cmd_conn_def)
  have "conn_swap ` (C \<union> {?c, conn_swap ?c}) \<subseteq> C \<union> {?c, conn_swap ?c}" using Cons.prems(2) by auto
  then obtain s' P' where "block_run in_aton cmds s1 = Some s'"
      "table_holds s' (C \<union> {?c, conn_swap ?c} \<union> (\<Union>cmd \<in> set cmds. {cmd_conn in_aton cmd, conn_swap (cmd_conn in_aton cmd)})) P'"
    using Cons.IH [OF s1(2) _ rest(1,2)] rest(3) s1(3) by blast
  moreover have "C \<union> {?c, conn_swap ?c} \<union> (\<Union>cmd \<in> set cmds. {cmd_conn in_aton cmd, conn_swap (cmd_conn in_aton cmd)}) =
      C \<union> (\<Union>cmd \<in> set (cmd # cmds). {cmd_conn in_aton cmd, conn_swap (cmd_conn in_aton cmd)})" by auto
  ultimately show ?case using s1(1) cmd by auto
qed

text \<open>
  (C15) The table of blocked connections: after any sequence of block commands, with fresh memory for each,
  every command has been carried out, and a lookup finds exactly the connections that a command
  named, in either direction.
\<close>

theorem blocked_iff_commanded:
  assumes "distinct (cmd_mem cmds)" "0 \<notin> set (cmd_mem cmds)"
  shows "\<exists>s q. block_run in_aton cmds (block_empty h m) = Some s \<and> conn_find s c = Some q \<and>
    (q \<noteq> 0 \<longleftrightarrow> (\<exists>cmd \<in> set cmds. c = cmd_conn in_aton cmd \<or> c = conn_swap (cmd_conn in_aton cmd)))"
proof -
  obtain s P where "block_run in_aton cmds (block_empty h m) = Some s"
      "table_holds s ({} \<union> (\<Union>cmd \<in> set cmds. {cmd_conn in_aton cmd, conn_swap (cmd_conn in_aton cmd)})) P"
    using block_run_ok [OF table_empty [of h m], of cmds in_aton] assms by auto
  then show ?thesis using conn_find_ok by fastforce
qed

definition sample_cmds :: "block_cmd list" where
  "sample_cmds = [((8, 16), [49], 80, [50], 4000), ((24, 32), [51], 443, [50], 4001)]"

definition blank_heap :: avl_heap where
  "blank_heap = (\<lambda>_. \<lparr>el_left = 0, el_right = 0, el_parent = 0, el_prev = 0, el_next = 0, el_height = 0\<rparr>)"

lemma blocked_iff_commanded_witness:
  "\<exists>s q. block_run (\<lambda>bs. ucast (hd bs)) sample_cmds (block_empty blank_heap (\<lambda>_. connection 0 0 0 0)) = Some s \<and>
    conn_find s (connection 50 51 4001 443) = Some q \<and> q \<noteq> 0"
proof -
  have "distinct (cmd_mem sample_cmds)" "0 \<notin> set (cmd_mem sample_cmds)" by (simp_all add: sample_cmds_def cmd_mem_def)
  from blocked_iff_commanded [OF this, of "\<lambda>bs. ucast (hd bs)" blank_heap "\<lambda>_. connection 0 0 0 0" "connection 50 51 4001 443"]
  show ?thesis by (auto simp: sample_cmds_def cmd_conn_def block_pair_def conn_swap_def)
qed

text \<open>
  (C8) The AVL tree: inserting an element that is not yet linked returns; when its key is there already,
  null is returned and nothing changes, and otherwise the element is added, the links, parent
  pointers, heights, ends and the size are right again, the keys ascend, and the heights of the two
  subtrees of every element differ by one at most.
\<close>

theorem avl_insert_keeps_tree:
  assumes "avl_ok key tree h t" and "e \<noteq> 0" "e \<notin> set_tree t"
  shows "\<exists>tree' h' t'. avl_ok key tree' h' t' \<and>
    (if key e \<in> key ` set_tree t then tree' = tree \<and> h' = h \<and> t' = t \<and>
       (\<exists>q \<in> set_tree t. key q = key e \<and> avl_insert conn_compare key tree h e = Some (0, q, tree, h))
     else avl_insert conn_compare key tree h e = Some (e, e, tree', h') \<and> set_tree t' = insert e (set_tree t))"
  by (rule conn.avl_insert_ok [OF assms])

lemma avl_insert_keeps_tree_witness:
  "\<exists>tree' h' t'. avl_ok (\<lambda>p. connection (of_nat p) 0 0 0) tree' h' t' \<and> set_tree t' = {7}"
proof -
  let ?tree = "\<lparr>avl_root = 0, avl_head = 0, avl_tail = 0, avl_size = 0\<rparr>"
  have "avl_ok (\<lambda>p. connection (of_nat p) 0 0 0) ?tree blank_heap Leaf" by (simp add: avl_ok_def ends_ok_def)
  from avl_insert_keeps_tree [OF this, of 7] show ?thesis by auto
qed

text \<open>
  A search in the tree returns, without following a null pointer, and finds the element with the
  given key when there is one; and a tree with \<open>n\<close> elements has a height of at most
  \<open>2 log2 (n + 1) + 1\<close>, which bounds the steps of the loops.
\<close>

theorem avl_find_in_tree:
  assumes "avl_ok key tree h t"
  shows "(\<exists>q. avl_find conn_compare key tree h k = Some q \<and> (q \<noteq> 0 \<longleftrightarrow> k \<in> key ` set_tree t) \<and> (q \<noteq> 0 \<longrightarrow> key q = k)) \<and>
    2 ^ (height t div 2) \<le> avl_size tree + 1"
proof
  show "\<exists>q. avl_find conn_compare key tree h k = Some q \<and> (q \<noteq> 0 \<longleftrightarrow> k \<in> key ` set_tree t) \<and> (q \<noteq> 0 \<longrightarrow> key q = k)"
    using conn.avl_find_ok [OF assms] by blast
  have "2 ^ (height t div 2) \<le> size t + 1" "avl_size tree = int (size t)"
    using assms balanced_size [of t] by (simp_all add: avl_ok_def size1_size)
  then show "2 ^ (height t div 2) \<le> avl_size tree + 1"
    by (metis of_nat_1 of_nat_add of_nat_le_iff of_nat_numeral of_nat_power)
qed

lemma avl_find_in_tree_witness:
  "avl_find conn_compare (\<lambda>p. connection (of_nat p) 0 0 0) \<lparr>avl_root = 0, avl_head = 0, avl_tail = 0, avl_size = 0\<rparr>
     blank_heap (connection 5 0 0 0) = Some 0"
proof -
  have "avl_ok (\<lambda>p. connection (of_nat p) 0 0 0) \<lparr>avl_root = 0, avl_head = 0, avl_tail = 0, avl_size = 0\<rparr> blank_heap Leaf"
    by (simp add: avl_ok_def ends_ok_def)
  from avl_find_in_tree [OF this, of "connection 5 0 0 0"] show ?thesis by auto
qed

end
