(* ===== verification/Shuttle.thy ===== *)
theory Shuttle
  imports Blocklist Kring_Kern Kctrl_Queue
begin

text \<open>
  The shuttle module, \<open>shuttle/attribute.c\<close>: a link between an inside and an outside network device,
  the commands it takes from its control ring, and what it does with every frame that arrives. The
  kernel's own functions are parameters: \<open>in_aton\<close>, the results of \<open>kmalloc\<close>, and the device that
  \<open>dev_get_by_name\<close> finds. The calls that hand a frame or a device back to the kernel are recorded as
  a list of effects. \<open>None\<close> says that the code follows a null pointer, writes past an array, or does
  not return.
\<close>

section \<open>Links\<close>

type_synonym net_device = nat

definition LINK_IPS :: int where [simp]: "LINK_IPS = 256"

record link =
  lk_name :: string
  lk_inside :: net_device
  lk_outside :: net_device
  lk_dev :: net_device
  lk_ips :: "u32 list"
  lk_nips :: int
  lk_kring :: "kring_kern option"
  lk_cmd :: "kring_kern option"

definition in_ip_list :: "link \<Rightarrow> u32 \<Rightarrow> bool" where
  "in_ip_list l ip = list_ex (\<lambda>i. lk_ips l ! i = ip) [0..<nat (lk_nips l)]"

definition link_ip_add_store :: "(u8 list \<Rightarrow> u32) \<Rightarrow> u8 list \<Rightarrow> link \<Rightarrow> int \<times> link" where
  "link_ip_add_store in_aton ip obj =
     (if lk_nips obj < LINK_IPS
      then (0, obj\<lparr>lk_ips := (lk_ips obj)[nat (lk_nips obj) := in_aton ip], lk_nips := lk_nips obj + 1\<rparr>)
      else (0, obj))"

section \<open>Commands\<close>

text \<open>
  \<open>sscanf\<close> as far as the two formats use it: a word is read after leading white space into a buffer
  of 32 bytes, of which the last is for the terminator; a number has an optional minus and digits.
\<close>

definition isspace :: "u8 \<Rightarrow> bool" where
  "isspace b = (b = 32 \<or> 9 \<le> b \<and> b \<le> 13)"

definition isdigit :: "u8 \<Rightarrow> bool" where
  "isdigit b = (48 \<le> b \<and> b \<le> 57)"

definition scan_word :: "u8 list \<Rightarrow> u8 list \<times> u8 list" where
  "scan_word s = (let s = dropWhile isspace s in (takeWhile (\<lambda>b. \<not> isspace b) s, dropWhile (\<lambda>b. \<not> isspace b) s))"

definition digits_value :: "u8 list \<Rightarrow> int" where
  "digits_value ds = foldl (\<lambda>v d. 10 * v + (uint d - 48)) 0 ds"

definition scan_long :: "u8 list \<Rightarrow> (int \<times> u8 list) option" where
  "scan_long s =
     (let s = dropWhile isspace s;
          neg = (case s of c # _ \<Rightarrow> c = 45 | [] \<Rightarrow> False);
          s = (if neg then tl s else s);
          ds = takeWhile isdigit s
      in if ds = [] then None
         else Some ((if neg then - digits_value ds else digits_value ds), dropWhile isdigit s))"

text \<open>The words and numbers of \<open>"%c %s %ld %s %ld"\<close> after the first character; \<open>None\<close> is a word too long for its buffer.\<close>

definition scan_block :: "u8 list \<Rightarrow> (u8 list \<times> int \<times> u8 list \<times> int) option option" where
  "scan_block s =
     (case scan_word s of (ip1, s) \<Rightarrow>
        if ip1 = [] then Some None
        else if 32 \<le> length ip1 then None
        else case scan_long s of None \<Rightarrow> Some None
        | Some (p1, s) \<Rightarrow>
            (case scan_word s of (ip2, s) \<Rightarrow>
               if ip2 = [] then Some None
               else if 32 \<le> length ip2 then None
               else case scan_long s of None \<Rightarrow> Some None | Some (p2, _) \<Rightarrow> Some (Some (ip1, p1, ip2, p2))))"

text \<open>The text of a command: the bytes up to the first zero byte in the page.\<close>

definition page_string :: "page \<Rightarrow> nat \<Rightarrow> u8 list" where
  "page_string pg off = takeWhile (\<lambda>b. b \<noteq> 0) (get_bytes off (KRING_PAGE_SIZE - off) pg)"

definition parse_kring_command ::
    "(u8 list \<Rightarrow> u32) \<Rightarrow> ptr \<times> ptr \<Rightarrow> u8 list \<Rightarrow> link \<times> conn_table \<Rightarrow> (link \<times> conn_table) option" where
  "parse_kring_command in_aton kmalloc bytes lb =
     (case (bytes, lb) of
        ([], _) \<Rightarrow> Some lb
      | (cmd # s, (link, block)) \<Rightarrow>
          if cmd = 98 then
            (case scan_block s of None \<Rightarrow> None
             | Some None \<Rightarrow> Some lb
             | Some (Some (ip1, p1, ip2, p2)) \<Rightarrow>
                 (case link_block_store in_aton kmalloc ip1 p1 ip2 p2 block of None \<Rightarrow> None
                  | Some (_, block) \<Rightarrow> Some (link, block)))
          else if cmd = 112 then
            let ip = fst (scan_word s) in
            if ip = [] then Some lb
            else if 32 \<le> length ip then None
            else Some (snd (link_ip_add_store in_aton ip link), block)
          else Some lb)"

section \<open>Frames\<close>

text \<open>
  A frame: the device it came from, its length, and the memory from its Ethernet header on. The
  headers are read without a test of the length, so the memory does not end with the frame.
\<close>

record sk_buff =
  skb_dev :: net_device
  skb_len :: nat
  skb_mem :: page

definition ETH_HLEN :: nat where [simp]: "ETH_HLEN = 14"
definition ETH_P_IP :: int where [simp]: "ETH_P_IP = 0x0800"
definition ETH_P_ARP :: int where [simp]: "ETH_P_ARP = 0x0806"
definition IPPROTO_TCP :: int where [simp]: "IPPROTO_TCP = 6"

definition be16 :: "page \<Rightarrow> nat \<Rightarrow> int" where
  "be16 m off = 256 * uint (m off) + uint (m (off + 1))"

definition h_proto :: "sk_buff \<Rightarrow> int" where
  "h_proto skb = be16 (skb_mem skb) 12"

definition ip_protocol :: "sk_buff \<Rightarrow> int" where
  "ip_protocol skb = uint (skb_mem skb (ETH_HLEN + 9))"

definition ip_ihlen :: "sk_buff \<Rightarrow> nat" where
  "ip_ihlen skb = 4 * nat (uint (skb_mem skb ETH_HLEN) mod 16)"

text \<open>The addresses are kept in the byte order of the network, as \<open>in_aton\<close> returns them.\<close>

definition ip_saddr :: "sk_buff \<Rightarrow> u32" where
  "ip_saddr skb = word_of_int (get_uint 4 (ETH_HLEN + 12) (skb_mem skb))"

definition ip_daddr :: "sk_buff \<Rightarrow> u32" where
  "ip_daddr skb = word_of_int (get_uint 4 (ETH_HLEN + 16) (skb_mem skb))"

definition th_source :: "sk_buff \<Rightarrow> int" where
  "th_source skb = be16 (skb_mem skb) (ETH_HLEN + ip_ihlen skb)"

definition th_dest :: "sk_buff \<Rightarrow> int" where
  "th_dest skb = be16 (skb_mem skb) (ETH_HLEN + ip_ihlen skb + 2)"

definition skb_conn :: "sk_buff \<Rightarrow> connection" where
  "skb_conn skb = connection (ip_saddr skb) (ip_daddr skb) (word_of_int (th_source skb)) (word_of_int (th_dest skb))"

definition block_conn :: "conn_table \<Rightarrow> sk_buff \<Rightarrow> bool option" where
  "block_conn block skb = map_option (\<lambda>r. r \<noteq> 0) (conn_find block (skb_conn skb))"

definition skb_bytes :: "sk_buff \<Rightarrow> u8 list" where
  "skb_bytes skb = get_bytes 0 (skb_len skb) (skb_mem skb)"

section \<open>Handling a frame\<close>

datatype skb_act = Kfree_skb | Receive_clone net_device | Netif_receive_skb net_device | Dev_queue_xmit net_device

record shuttle_state =
  ss_link :: link
  ss_block :: conn_table
  ss_cmd :: kctrl_ring
  ss_rings :: kdata_rings

definition kctrl_kavail :: "kctrl_ring \<Rightarrow> bool" where
  "kctrl_kavail r = kctrl_avail_impl (kc_control r)"

text \<open>The command, if there is one.\<close>

definition take_command :: "(u8 list \<Rightarrow> u32) \<Rightarrow> ptr \<times> ptr \<Rightarrow> shuttle_state \<Rightarrow> shuttle_state option" where
  "take_command in_aton kmalloc st =
     (if lk_cmd (ss_link st) = None then None
      else if kctrl_kavail (ss_cmd st) then
        (case kctrl_knext_plain (ss_cmd st) of None \<Rightarrow> None
         | Some (plain, cmd) \<Rightarrow>
             (case parse_kring_command in_aton kmalloc
                     (page_string (kc_page cmd (fst (cpl_bytes plain))) (snd (cpl_bytes plain))) (ss_link st, ss_block st) of
                None \<Rightarrow> None
              | Some (link, block) \<Rightarrow> Some (st\<lparr>ss_link := link, ss_block := block, ss_cmd := cmd\<rparr>)))
      else Some st)"

text \<open>\<open>kdata_kwrite( &link->kring, dir, skb )\<close> with the Ethernet header pushed.\<close>

definition link_kwrite :: "int \<Rightarrow> sk_buff \<Rightarrow> shuttle_state \<Rightarrow> shuttle_state option" where
  "link_kwrite dir skb st =
     (case lk_kring (ss_link st) of None \<Rightarrow> None
      | Some k \<Rightarrow> map_option (\<lambda>rs. st\<lparr>ss_rings := rs\<rparr>) (kdata_kwrite (kk_user k) dir (skb_bytes skb) (ss_rings st)))"

definition is_tcp :: "sk_buff \<Rightarrow> bool" where
  "is_tcp skb = (h_proto skb = ETH_P_IP \<and> ip_protocol skb = IPPROTO_TCP)"

text \<open>The frames that come in from the inside device, and from the outside device.\<close>

definition from_inside :: "sk_buff \<Rightarrow> shuttle_state \<Rightarrow> (skb_act list \<times> shuttle_state) option" where
  "from_inside skb st =
     (let link = ss_link st;
          up = (if h_proto skb = ETH_P_ARP then [Receive_clone (lk_dev link)] else []);
          forward = map_option (\<lambda>st. (up @ [Dev_queue_xmit (lk_outside link)], st)) (link_kwrite KDATA_DIR_INSIDE skb st)
      in if is_tcp skb then
           (case block_conn (ss_block st) skb of None \<Rightarrow> None
            | Some True \<Rightarrow> Some ([Kfree_skb], st)
            | Some False \<Rightarrow>
                if th_dest skb = 443 \<and> in_ip_list link (ip_daddr skb)
                then map_option (\<lambda>st. ([Netif_receive_skb (lk_dev link)], st)) (link_kwrite KDATA_DIR_INSIDE skb st)
                else forward)
         else forward)"

definition from_outside :: "sk_buff \<Rightarrow> shuttle_state \<Rightarrow> (skb_act list \<times> shuttle_state) option" where
  "from_outside skb st =
     (let forward = map_option (\<lambda>st. ([Dev_queue_xmit (lk_inside (ss_link st))], st)) (link_kwrite KDATA_DIR_OUTSIDE skb st)
      in if is_tcp skb then
           (case block_conn (ss_block st) skb of None \<Rightarrow> None
            | Some True \<Rightarrow> Some ([Kfree_skb], st)
            | Some False \<Rightarrow> forward)
         else forward)"

text \<open>The link is the one \<open>get_link\<close> finds for the device, or null.\<close>

definition shuttle_handle_frame ::
    "(u8 list \<Rightarrow> u32) \<Rightarrow> ptr \<times> ptr \<Rightarrow> sk_buff \<Rightarrow> bool \<Rightarrow> shuttle_state \<Rightarrow> (skb_act list \<times> shuttle_state) option" where
  "shuttle_handle_frame in_aton kmalloc skb has_link st =
     (if \<not> has_link \<or> lk_inside (ss_link st) = 0 \<or> lk_outside (ss_link st) = 0 then Some ([Kfree_skb], st)
      else case take_command in_aton kmalloc st of None \<Rightarrow> None
      | Some st \<Rightarrow>
          if skb_dev skb = lk_inside (ss_link st) then from_inside skb st
          else if skb_dev skb = lk_outside (ss_link st) then from_outside skb st
          else Some ([Kfree_skb], st))"

text \<open>A frame that the host sends through the device of the link.\<close>

definition shuttle_dev_xmit :: "sk_buff \<Rightarrow> shuttle_state \<Rightarrow> (skb_act list \<times> shuttle_state) option" where
  "shuttle_dev_xmit skb st =
     map_option (\<lambda>st'. ([Dev_queue_xmit (lk_inside (ss_link st))], st')) (link_kwrite KDATA_DIR_OUTSIDE skb st)"

section \<open>Adding and removing ports and links\<close>

datatype dev_act = Set_promiscuity net_device int | Rx_register net_device | Rx_unregister net_device | Dev_put net_device

definition link_port_add_store ::
    "(string \<Rightarrow> net_device) \<Rightarrow> string \<Rightarrow> string \<Rightarrow> link \<Rightarrow> int \<times> dev_act list \<times> link" where
  "link_port_add_store dev_get_by_name iface dir obj =
     (if dir \<noteq> ''inside'' \<and> dir \<noteq> ''outside'' then (- EINVAL, [], obj)
      else let dev = dev_get_by_name iface in
        if dev = 0 then (- EINVAL, [], obj)
        else (0, [Set_promiscuity dev 1, Rx_register dev],
              if dir = ''inside'' then obj\<lparr>lk_inside := dev\<rparr> else obj\<lparr>lk_outside := dev\<rparr>))"

definition link_port_del_store ::
    "(string \<Rightarrow> net_device) \<Rightarrow> string \<Rightarrow> link \<Rightarrow> int \<times> dev_act list \<times> link" where
  "link_port_del_store dev_get_by_name iface obj =
     (let dev = dev_get_by_name iface in
      if dev = 0 then (- EINVAL, [], obj)
      else (0, [Rx_unregister dev, Set_promiscuity dev (-1), Dev_put dev, Dev_put dev],
            if lk_inside obj = dev then obj\<lparr>lk_inside := 0\<rparr>
            else if lk_outside obj = dev then obj\<lparr>lk_outside := 0\<rparr>
            else obj))"

text \<open>
  \<open>shuttle_add_store\<close>: \<open>fresh\<close> is the link that the generated \<open>create_link\<close> returns, \<open>dev\<close> what
  \<open>create_netdev\<close> registers. A ring that cannot be opened is reported, and the link is added all the
  same. The name is copied into an array of 32 bytes.
\<close>

definition kopen_handle :: "int + kring_kern \<Rightarrow> kring_kern option" where
  "kopen_handle r = (case r of Inl _ \<Rightarrow> None | Inr k \<Rightarrow> Some k)"

definition shuttle_add_store ::
    "link \<Rightarrow> net_device \<Rightarrow> string \<Rightarrow> string \<Rightarrow> string \<Rightarrow> link list \<times> kring_ringset list \<Rightarrow>
     (int \<times> link list \<times> kring_ringset list) option" where
  "shuttle_add_store fresh dev name ctrl ring s =
     (case s of (link_list, head) \<Rightarrow>
        if 32 \<le> length name then None
        else case kring_kopen head KRING_DATA ring 0 KRING_WRITE of None \<Rightarrow> None
        | Some (r1, head1) \<Rightarrow>
            (case kring_kopen head1 KRING_CTRL ctrl 0 KRING_READ of None \<Rightarrow> None
             | Some (r2, head2) \<Rightarrow>
                 Some (0, link_list @ [fresh\<lparr>lk_name := name, lk_dev := dev, lk_kring := kopen_handle r1, lk_cmd := kopen_handle r2\<rparr>], head2)))"

fun remove_link :: "string \<Rightarrow> link list \<Rightarrow> (link \<times> link list) option" where
  "remove_link name [] = None"
| "remove_link name (l # ls) =
     (if lk_name l = name then Some (l, ls) else map_option (\<lambda>(x, ls'). (x, l # ls')) (remove_link name ls))"

definition shuttle_del_store ::
    "string \<Rightarrow> link list \<times> kring_ringset list \<Rightarrow> (int \<times> link list \<times> kring_ringset list) option" where
  "shuttle_del_store name s =
     (case s of (link_list, head) \<Rightarrow>
        (case remove_link name link_list of None \<Rightarrow> Some (0, link_list, head)
         | Some (link, link_list') \<Rightarrow>
             (case (lk_cmd link, lk_kring link) of
                (Some c, Some k) \<Rightarrow> Some (0, link_list', snd (kring_kclose k (snd (kring_kclose c head))))
              | _ \<Rightarrow> None)))"

end
