(* ===== verification/Shuttle_Frames.thy ===== *)
theory Shuttle_Frames
  imports Shuttle Kdata_Messages
begin

text \<open>
  What the shuttle does with frames and commands, over the data ring, the control ring and the table
  of blocked connections together.
\<close>

section \<open>Frames\<close>

text \<open>The effects that give the frame itself away.\<close>

fun disposes :: "skb_act \<Rightarrow> bool" where
  "disposes (Receive_clone d) = False"
| "disposes _ = True"

text \<open>A link that is set up: both devices, and the rings open.\<close>

definition link_ready :: "link \<Rightarrow> bool" where
  "link_ready l = (lk_inside l \<noteq> 0 \<and> lk_outside l \<noteq> 0 \<and> lk_inside l \<noteq> lk_outside l \<and> lk_cmd l \<noteq> None)"

lemma take_command_idle:
  "lk_cmd (ss_link st) \<noteq> None \<Longrightarrow> \<not> kctrl_kavail (ss_cmd st) \<Longrightarrow> take_command in_aton kmalloc st = Some st"
  by (simp add: take_command_def)

lemma parse_command_ports:
  assumes "parse_kring_command in_aton kmalloc bytes (l, b) = Some (l', b')"
  shows "lk_inside l' = lk_inside l" "lk_outside l' = lk_outside l" "lk_dev l' = lk_dev l" "lk_kring l' = lk_kring l" "lk_cmd l' = lk_cmd l"
  using assms by (auto simp: parse_kring_command_def link_ip_add_store_def Let_def split: list.splits if_splits option.splits prod.splits)

lemma take_command_ports:
  assumes "take_command in_aton kmalloc st = Some st'"
  shows "lk_inside (ss_link st') = lk_inside (ss_link st)" "lk_outside (ss_link st') = lk_outside (ss_link st)"
    "lk_dev (ss_link st') = lk_dev (ss_link st)"
  using assms by (auto simp: take_command_def split: if_splits option.splits prod.splits dest: parse_command_ports)

lemma block_conn_ok: "table_holds block C P \<Longrightarrow> block_conn block skb = Some (skb_conn skb \<in> C)"
  using conn_find_ok [of block C P "skb_conn skb"] by (auto simp: block_conn_def)

lemma link_kwrite_link: "link_kwrite dir skb st = Some st' \<Longrightarrow> ss_link st' = ss_link st \<and> ss_block st' = ss_block st \<and> ss_cmd st' = ss_cmd st"
  by (auto simp: link_kwrite_def split: option.splits)

text \<open>
  Whatever the frame, the commands and the state: when the handler returns, it has given the frame
  away exactly once (freed it, sent it on, or passed it to the host); a frame is sent on only to
  the device on the other side, and it reaches the host only from the inside device, as a copy of
  an ARP frame or as TCP to port 443 of a listed address.
\<close>

lemma frame_disposed_once:
  assumes "shuttle_handle_frame in_aton kmalloc skb has_link st = Some (acts, st')"
  shows "length (filter disposes acts) = 1 \<and>
    (\<forall>d. Dev_queue_xmit d \<in> set acts \<longrightarrow>
       skb_dev skb = lk_inside (ss_link st) \<and> d = lk_outside (ss_link st) \<or>
       skb_dev skb = lk_outside (ss_link st) \<and> d = lk_inside (ss_link st)) \<and>
    (\<forall>d. Receive_clone d \<in> set acts \<longrightarrow> skb_dev skb = lk_inside (ss_link st) \<and> d = lk_dev (ss_link st) \<and> h_proto skb = ETH_P_ARP) \<and>
    (\<forall>d. Netif_receive_skb d \<in> set acts \<longrightarrow> skb_dev skb = lk_inside (ss_link st) \<and> d = lk_dev (ss_link st) \<and>
       is_tcp skb \<and> th_dest skb = 443 \<and> in_ip_list (ss_link st') (ip_daddr skb))"
proof (cases "\<not> has_link \<or> lk_inside (ss_link st) = 0 \<or> lk_outside (ss_link st) = 0")
  case True
  then have "acts = [Kfree_skb]" using assms by (auto simp: shuttle_handle_frame_def)
  then show ?thesis by simp
next
  case False
  then obtain st1 where st1: "take_command in_aton kmalloc st = Some st1"
    and h: "(if skb_dev skb = lk_inside (ss_link st1) then from_inside skb st1
          else if skb_dev skb = lk_outside (ss_link st1) then from_outside skb st1
          else Some ([Kfree_skb], st1)) = Some (acts, st')"
    using assms by (auto simp: shuttle_handle_frame_def split: option.splits)
  note ports = take_command_ports [OF st1]
  show ?thesis
    using h ports
    by (auto simp: from_inside_def from_outside_def Let_def dest!: link_kwrite_link split: if_splits option.splits bool.splits)
qed

definition sample_link :: link where
  "sample_link = \<lparr>lk_name = ''l0'', lk_inside = 1, lk_outside = 2, lk_dev = 3, lk_ips = replicate 256 0, lk_nips = 0,
     lk_kring = Some \<lparr>kk_name = ''r0'', kk_ringset = 0, kk_ring_id = 0, kk_user = user_handle 0 0 KRING_WRITE\<rparr>,
     lk_cmd = Some \<lparr>kk_name = ''c0'', kk_ringset = 1, kk_ring_id = 0, kk_user = user_handle 0 0 KRING_READ\<rparr>\<rparr>"

definition sample_state :: shuttle_state where
  "sample_state = \<lparr>ss_link = sample_link, ss_block = block_empty blank_heap (\<lambda>_. connection 0 0 0 0),
     ss_cmd = kctrl_fresh, ss_rings = entered_rings 2\<rparr>"

definition arp_frame :: sk_buff where
  "arp_frame = \<lparr>skb_dev = 1, skb_len = 60, skb_mem = (\<lambda>_. 0)(12 := 8, 13 := 6)\<rparr>"

lemma sample_idle: "\<not> kctrl_kavail (ss_cmd sample_state)"
  using cq.avail_rep [OF kctrl_rep_fresh] by (simp add: kctrl_kavail_def kctrl_avail_def sample_state_def)

definition frame_dir :: "shuttle_state \<Rightarrow> sk_buff \<Rightarrow> int" where
  "frame_dir st skb = (if skb_dev skb = lk_inside (ss_link st) then KDATA_DIR_INSIDE else KDATA_DIR_OUTSIDE)"

definition far_side :: "shuttle_state \<Rightarrow> sk_buff \<Rightarrow> net_device" where
  "far_side st skb = (if skb_dev skb = lk_inside (ss_link st) then lk_outside (ss_link st) else lk_inside (ss_link st))"

definition for_host :: "shuttle_state \<Rightarrow> sk_buff \<Rightarrow> bool" where
  "for_host st skb = (skb_dev skb = lk_inside (ss_link st) \<and> is_tcp skb \<and> th_dest skb = 443 \<and> in_ip_list (ss_link st) (ip_daddr skb))"

lemma frame_dir_cases: "frame_dir st skb \<in> {KDATA_DIR_INSIDE, KDATA_DIR_OUTSIDE}"
  by (simp add: frame_dir_def)

lemma length_skb_bytes [simp]: "length (skb_bytes skb) = skb_len skb"
  by (simp add: skb_bytes_def get_bytes_def)

lemma link_kwrite_ok:
  assumes "lk_kring (ss_link st) = Some k" "user_on i (kk_user k)" "packets_unread i rid (ss_rings st) vs"
    and "skb_len skb < 2 ^ 31" "length vs + (skb_len skb + 4087) div 4088 \<le> 2047" and "dir \<in> {KDATA_DIR_INSIDE, KDATA_DIR_OUTSIDE}"
  shows "\<exists>rs'. link_kwrite dir skb st = Some (st\<lparr>ss_rings := rs'\<rparr>) \<and> packets_unread i rid rs' (vs @ fragments dir (skb_bytes skb))"
proof -
  have "int (skb_len skb) < 2 ^ 31" using assms(4) by (metis of_nat_less_iff of_nat_numeral of_nat_power)
  then obtain rs' where "kdata_kwrite (kk_user k) dir (skb_bytes skb) (ss_rings st) = Some rs'"
      "packets_unread i rid rs' (vs @ fragments dir (skb_bytes skb))"
    using kwrite_loop_unread [OF assms(2,3), of 0 "skb_bytes skb" dir] assms(5,6)
    by (auto simp: kdata_kwrite_def length_fragments)
  then show ?thesis using assms(1) by (intro exI [of _ rs']) (simp add: link_kwrite_def)
qed

text \<open>
  (C17) With a link that is set up and no command waiting, the handler returns; a TCP frame of a blocked
  connection is freed, and not sent on, not passed to the host, not written to the ring. Every other
  frame from one of the two devices is sent to the device on the other side, or to the host when it
  is meant for it, and the reader of the ring gets the bytes of the frame, with the direction, after
  all that it had to read before.
\<close>

theorem frame_blocked_or_forwarded:
  assumes ready: "link_ready (ss_link st)" and idle: "\<not> kctrl_kavail (ss_cmd st)" and table: "table_holds (ss_block st) C P"
    and dev: "skb_dev skb \<in> {lk_inside (ss_link st), lk_outside (ss_link st)}"
    and ring: "lk_kring (ss_link st) = Some k" "user_on i (kk_user k)" "packets_unread i rid (ss_rings st) vs"
    and len: "skb_len skb < 2 ^ 31" "length vs + (skb_len skb + 4087) div 4088 \<le> 2047"
  shows "if is_tcp skb \<and> skb_conn skb \<in> C
    then shuttle_handle_frame in_aton kmalloc skb True st = Some ([Kfree_skb], st)
    else \<exists>acts rs'. shuttle_handle_frame in_aton kmalloc skb True st = Some (acts, st\<lparr>ss_rings := rs'\<rparr>) \<and>
       last acts = (if for_host st skb then Netif_receive_skb (lk_dev (ss_link st)) else Dev_queue_xmit (far_side st skb)) \<and>
       packets_unread i rid rs' (vs @ fragments (frame_dir st skb) (skb_bytes skb))"
proof -
  obtain rs' where w: "link_kwrite (frame_dir st skb) skb st = Some (st\<lparr>ss_rings := rs'\<rparr>)"
      "packets_unread i rid rs' (vs @ fragments (frame_dir st skb) (skb_bytes skb))"
    using link_kwrite_ok [OF ring len frame_dir_cases] by blast
  have h: "shuttle_handle_frame in_aton kmalloc skb True st =
      (if skb_dev skb = lk_inside (ss_link st) then from_inside skb st else from_outside skb st)"
    using ready dev take_command_idle [OF _ idle] by (auto simp: shuttle_handle_frame_def link_ready_def)
  have b: "block_conn (ss_block st) skb = Some (skb_conn skb \<in> C)" by (rule block_conn_ok [OF table])
  show ?thesis
  proof (cases "skb_dev skb = lk_inside (ss_link st)")
    case True
    then show ?thesis using w b unfolding h from_inside_def Let_def by (auto simp: frame_dir_def for_host_def far_side_def)
  next
    case False
    then show ?thesis using w b unfolding h from_outside_def Let_def by (auto simp: frame_dir_def for_host_def far_side_def)
  qed
qed

lemma frame_blocked_or_forwarded_witness:
  "\<exists>acts rs'. shuttle_handle_frame (\<lambda>_. 0) (8, 16) arp_frame True sample_state = Some (acts, sample_state\<lparr>ss_rings := rs'\<rparr>) \<and>
     last acts = Dev_queue_xmit 2 \<and> packets_unread 0 2 rs' (fragments KDATA_DIR_INSIDE (skb_bytes arp_frame))"
proof -
  have "packets_unread 0 2 (entered_rings 2) []" using entered_inv [of 2 0] entered_unread [of 2 0] by (simp add: packets_unread_def)
  moreover have "user_on 0 (user_handle 0 0 KRING_WRITE)" by (simp add: user_on_def user_handle_def)
  moreover have "table_holds (ss_block sample_state) {} {}" by (simp add: sample_state_def table_empty)
  moreover have "\<not> is_tcp arp_frame" by (simp add: is_tcp_def h_proto_def be16_def arp_frame_def)
  ultimately show ?thesis
    using frame_blocked_or_forwarded [OF _ sample_idle, of "{}" "{}" arp_frame _ 0 2 "[]" "\<lambda>_. 0" "(8, 16)"]
    by (simp add: sample_state_def sample_link_def link_ready_def arp_frame_def for_host_def far_side_def frame_dir_def)
qed

lemma frame_disposed_once_witness:
  "\<exists>acts st'. shuttle_handle_frame (\<lambda>_. 0) (8, 16) arp_frame False sample_state = Some (acts, st') \<and> length (filter disposes acts) = 1"
proof -
  have "shuttle_handle_frame (\<lambda>_. 0) (8, 16) arp_frame False sample_state = Some ([Kfree_skb], sample_state)"
    by (simp add: shuttle_handle_frame_def)
  with frame_disposed_once [OF this] show ?thesis by blast
qed

section \<open>Commands\<close>

lemma knext_plain_eq: "kctrl_knext_plain r = kctrl_next_plain r"
  by (simp add: kctrl_knext_plain_def kctrl_next_plain_def)

text \<open>The text of a command that ends with a zero byte is the message that was sent.\<close>

lemma page_string_msg:
  assumes "0 \<in> set (get_bytes off n pg)" "n \<le> KRING_PAGE_SIZE - off"
  shows "page_string pg off = takeWhile (\<lambda>b. b \<noteq> 0) (get_bytes off n pg)"
proof -
  have "get_bytes off (KRING_PAGE_SIZE - off) pg = get_bytes off n pg @ map (\<lambda>i. pg (off + i)) [n..<KRING_PAGE_SIZE - off]"
    using assms(2) unfolding get_bytes_def by (metis le0 le_add_diff_inverse map_append upt_add_eq_append)
  then show ?thesis using assms(1) by (simp add: page_string_def takeWhile_append1)
qed

lemma take_command_msg:
  assumes rep: "kctrl_rep (ss_cmd st) (msg # q)" and msg: "kctrl_msg_ok msg" "0 \<in> set msg" and cmd: "lk_cmd (ss_link st) \<noteq> None"
  shows "\<exists>r. kctrl_rep r q \<and> take_command in_aton kmalloc st =
    map_option (\<lambda>(link, block). st\<lparr>ss_link := link, ss_block := block, ss_cmd := r\<rparr>)
      (parse_kring_command in_aton kmalloc (takeWhile (\<lambda>b. b \<noteq> 0) msg) (ss_link st, ss_block st))"
proof -
  obtain r where r: "kctrl_recv (ss_cmd st) = Some (msg, r)" "kctrl_rep r q" using kctrl_recv_rep [OF rep] by blast
  then obtain plain where plain: "kctrl_knext_plain (ss_cmd st) = Some (plain, r)"
      "msg = get_bytes (snd (cpl_bytes plain)) (nat (cpl_len plain)) (kc_page r (fst (cpl_bytes plain)))"
    by (auto simp: kctrl_recv_def knext_plain_eq)
  have off: "snd (cpl_bytes plain) = 4"
    using plain(1) by (auto simp: kctrl_knext_plain_def split: option.splits)
  have len: "length msg = nat (cpl_len plain)" using plain(2) by (simp add: get_bytes_def)
  have "page_string (kc_page r (fst (cpl_bytes plain))) 4 = takeWhile (\<lambda>b. b \<noteq> 0) msg"
    using page_string_msg [of 4 "nat (cpl_len plain)"] plain(2) msg off len by (simp add: kctrl_msg_ok_def)
  moreover have "kctrl_kavail (ss_cmd st)"
    using cq.avail_rep [OF rep] by (simp add: kctrl_kavail_def kctrl_avail_def)
  ultimately show ?thesis
    using r(2) plain(1) off cmd by (intro exI [of _ r]) (auto simp: take_command_def split: option.splits)
qed

text \<open>
  A block command takes effect at once: when the oldest message on the control ring is one, the
  handler takes it off the ring, and the frame it was called for is freed if it belongs to the
  connection of the command, in either direction. From then on the table holds the connection.
\<close>

lemma block_command_takes_effect:
  assumes ready: "link_ready (ss_link st)" and rep: "kctrl_rep (ss_cmd st) (msg # q)" and msg: "kctrl_msg_ok msg" "0 \<in> set msg"
    and cmd: "takeWhile (\<lambda>b. b \<noteq> 0) msg = 98 # s" "scan_block s = Some (Some (ip1, p1, ip2, p2))"
    and table: "table_holds (ss_block st) C P" "conn_swap ` C \<subseteq> C"
    and mem: "pc1 \<noteq> 0" "pc2 \<noteq> 0" "pc1 \<noteq> pc2" "pc1 \<notin> P" "pc2 \<notin> P"
    and c: "c = fst (block_pair in_aton ip1 p1 ip2 p2)"
    and frame: "skb_dev skb \<in> {lk_inside (ss_link st), lk_outside (ss_link st)}" "is_tcp skb" "skb_conn skb \<in> C \<union> {c, conn_swap c}"
  shows "\<exists>st' P'. shuttle_handle_frame in_aton (pc1, pc2) skb True st = Some ([Kfree_skb], st') \<and>
    table_holds (ss_block st') (C \<union> {c, conn_swap c}) P' \<and> kctrl_rep (ss_cmd st') q \<and> ss_rings st' = ss_rings st"
proof -
  obtain b P' where b: "link_block_store in_aton (pc1, pc2) ip1 p1 ip2 p2 (ss_block st) = Some (0, b)"
      "table_holds b (C \<union> {c, conn_swap c}) P'"
    using block_store_ok [OF table mem c] by blast
  obtain r where r: "kctrl_rep r q" "take_command in_aton (pc1, pc2) st =
      map_option (\<lambda>(link, block). st\<lparr>ss_link := link, ss_block := block, ss_cmd := r\<rparr>)
        (parse_kring_command in_aton (pc1, pc2) (98 # s) (ss_link st, ss_block st))"
    using take_command_msg [OF rep msg] ready unfolding cmd(1) link_ready_def by blast
  let ?st = "st\<lparr>ss_block := b, ss_cmd := r\<rparr>"
  have "take_command in_aton (pc1, pc2) st = Some ?st"
    using r(2) cmd(2) b(1) by (simp add: parse_kring_command_def)
  moreover have "block_conn b skb = Some True" using block_conn_ok [OF b(2)] frame(3) by simp
  ultimately have "shuttle_handle_frame in_aton (pc1, pc2) skb True st = Some ([Kfree_skb], ?st)"
    using ready frame(1,2) by (auto simp: shuttle_handle_frame_def link_ready_def from_inside_def from_outside_def Let_def)
  then show ?thesis using b(2) r(1) by (intro exI [of _ ?st] exI [of _ P']) simp
qed

definition tcp_frame :: sk_buff where
  "tcp_frame = \<lparr>skb_dev = 2, skb_len = 60,
     skb_mem = (\<lambda>_. 0)(12 := 8, 14 := 69, 23 := 6, 26 := 50, 30 := 49, 35 := 90, 37 := 80)\<rparr>"

definition sample_msg :: "u8 list" where
  "sample_msg = [98, 32, 49, 32, 56, 48, 32, 50, 32, 57, 48, 0]"

lemma get_uint_4: "get_uint 4 off m = uint (m off) + 256 * (uint (m (off + 1)) + 256 * (uint (m (off + 2)) + 256 * uint (m (off + 3))))"
  by (simp add: eval_nat_numeral)

lemma tcp_conn: "skb_conn tcp_frame = connection 50 49 90 80"
proof -
  have "ip_ihlen tcp_frame = 20" by (simp add: ip_ihlen_def tcp_frame_def)
  then show ?thesis
    by (simp add: skb_conn_def ip_saddr_def ip_daddr_def th_source_def th_dest_def be16_def get_uint_4) (simp add: tcp_frame_def)
qed

lemma block_command_takes_effect_witness:
  "\<exists>r st'. kctrl_rep r [sample_msg] \<and>
     shuttle_handle_frame (\<lambda>bs. ucast (hd bs)) (8, 16) tcp_frame True (sample_state\<lparr>ss_cmd := r\<rparr>) = Some ([Kfree_skb], st')"
proof -
  obtain r where r: "kctrl_rep r [sample_msg]"
    using kctrl_send_rep [OF kctrl_rep_fresh, of sample_msg] by (auto simp: kctrl_msg_ok_def sample_msg_def)
  let ?st = "sample_state\<lparr>ss_cmd := r\<rparr>" and ?in_aton = "\<lambda>bs. ucast (hd bs) :: u32"
  have scan: "scan_block [32, 49, 32, 56, 48, 32, 50, 32, 57, 48] = Some (Some ([49], 80, [50], 90))"
    by (simp add: scan_block_def scan_word_def scan_long_def isspace_def isdigit_def digits_value_def Let_def)
  have tcp: "is_tcp tcp_frame" by (simp add: is_tcp_def h_proto_def ip_protocol_def be16_def tcp_frame_def)
  have link: "ss_link ?st = sample_link" and block: "ss_block ?st = block_empty blank_heap (\<lambda>_. connection 0 0 0 0)"
    and cmd: "ss_cmd ?st = r" by (simp_all add: sample_state_def)
  have pair: "connection 49 50 80 90 = fst (block_pair ?in_aton [49] 80 [50] 90)" by (simp add: block_pair_def)
  have "\<exists>st' P'. shuttle_handle_frame ?in_aton (8, 16) tcp_frame True ?st = Some ([Kfree_skb], st') \<and>
    table_holds (ss_block st') ({} \<union> {connection 49 50 80 90, conn_swap (connection 49 50 80 90)}) P' \<and>
    kctrl_rep (ss_cmd st') [] \<and> ss_rings st' = ss_rings ?st"
  proof (rule block_command_takes_effect [OF _ _ _ _ _ scan _ _ _ _ _ _ _ pair _ tcp])
    show "link_ready (ss_link ?st)" by (simp add: link link_ready_def sample_link_def)
    show "kctrl_rep (ss_cmd ?st) [sample_msg]" using r by (simp add: cmd)
    show "table_holds (ss_block ?st) {} {}" by (simp add: block table_empty)
    show "skb_dev tcp_frame \<in> {lk_inside (ss_link ?st), lk_outside (ss_link ?st)}" by (simp add: link sample_link_def tcp_frame_def)
    show "skb_conn tcp_frame \<in> {} \<union> {connection 49 50 80 90, conn_swap (connection 49 50 80 90)}"
      by (simp add: tcp_conn conn_swap_def)
  qed (simp_all add: kctrl_msg_ok_def sample_msg_def)
  then show ?thesis using r by blast
qed

lemma in_ip_list_take:
  "nat (lk_nips l) \<le> length (lk_ips l) \<Longrightarrow> in_ip_list l ip \<longleftrightarrow> ip \<in> set (take (nat (lk_nips l)) (lk_ips l))"
  by (auto simp: in_ip_list_def list_ex_iff in_set_conv_nth)

definition ip_inv :: "(u8 list \<Rightarrow> u32) \<Rightarrow> u8 list list \<Rightarrow> link \<Rightarrow> bool" where
  "ip_inv in_aton xs l = (length (lk_ips l) = 256 \<and> lk_nips l = int (min 256 (length xs)) \<and>
     take (min 256 (length xs)) (lk_ips l) = map in_aton (take 256 xs))"

lemma ip_inv_add: "ip_inv in_aton xs l \<Longrightarrow> ip_inv in_aton (xs @ [x]) (snd (link_ip_add_store in_aton x l))"
proof -
  assume inv: "ip_inv in_aton xs l"
  show ?thesis
  proof (cases "length xs < 256")
    case True
    have "take (Suc (length xs)) ((lk_ips l)[length xs := v]) = take (length xs) (lk_ips l) @ [v]" for v
      using True inv by (simp add: ip_inv_def take_Suc_conv_app_nth)
    moreover have m: "min 256 (length xs) = length xs" "min 256 (length (xs @ [x])) = Suc (length xs)" "take 256 (xs @ [x]) = xs @ [x]" "take 256 xs = xs"
      using True by simp_all
    ultimately show ?thesis using True inv unfolding ip_inv_def m by (simp add: link_ip_add_store_def)
  next
    case False
    then show ?thesis using inv by (simp add: ip_inv_def link_ip_add_store_def min_def)
  qed
qed

lemma ip_inv_fold: "ip_inv in_aton xs l \<Longrightarrow> ip_inv in_aton (xs @ ips) (fold (\<lambda>ip l. snd (link_ip_add_store in_aton ip l)) ips l)"
proof (induction ips arbitrary: xs l)
  case (Cons ip ips)
  then show ?case using Cons.IH [OF ip_inv_add [OF Cons.prems], of ip] by simp
qed simp

text \<open>
  The list of addresses: after any number of additions it holds the first 256 of them, the later
  ones are dropped, and a lookup finds exactly those.
\<close>

lemma ip_list_holds_first_256:
  assumes "lk_nips l = 0" and "length (lk_ips l) = 256"
  shows "in_ip_list (fold (\<lambda>ip l. snd (link_ip_add_store in_aton ip l)) ips l) ip \<longleftrightarrow> ip \<in> in_aton ` set (take 256 ips)"
proof -
  define l' where "l' = fold (\<lambda>ip l. snd (link_ip_add_store in_aton ip l)) ips l"
  have inv: "ip_inv in_aton ips l'" using ip_inv_fold [of in_aton "[]" l ips] assms by (simp add: ip_inv_def l'_def)
  have "in_ip_list l' ip \<longleftrightarrow> ip \<in> set (take (nat (lk_nips l')) (lk_ips l'))"
    using in_ip_list_take [of l'] inv by (simp add: ip_inv_def)
  then show ?thesis using inv unfolding l'_def [symmetric] by (simp add: ip_inv_def)
qed

lemma ip_list_holds_first_256_witness:
  "in_ip_list (fold (\<lambda>ip l. snd (link_ip_add_store (\<lambda>bs. ucast (hd bs)) ip l)) [[5], [6]] sample_link) 6"
  using ip_list_holds_first_256 [of sample_link "\<lambda>bs. ucast (hd bs)" "[[5], [6]]" 6] by (simp add: sample_link_def)

text \<open>
  A word of a command that does not fit the buffer of 32 bytes, of which one is the terminator, makes
  the handler write past it.
\<close>

lemma long_word_overflows:
  assumes "cmd = 98 \<or> cmd = 112" and "32 \<le> length w" and "\<forall>b \<in> set w. \<not> isspace b"
  shows "parse_kring_command in_aton kmalloc (cmd # 32 # w @ rest) lb = None"
proof -
  have "w \<noteq> []" "\<not> isspace (hd w)" using assms(2,3) by (auto, metis hd_in_set list.size(3) not_numeral_le_zero)
  then have d: "dropWhile isspace (32 # w @ rest) = w @ rest"
    by (cases w) (simp_all add: isspace_def [of 32])
  have "length (takeWhile (\<lambda>b. \<not> isspace b) (w @ rest)) \<ge> 32"
    using assms(2,3) by (simp add: takeWhile_append)
  then have "32 \<le> length (fst (scan_word (32 # w @ rest)))" by (simp only: scan_word_def d Let_def fst_conv)
  moreover then have "fst (scan_word (32 # w @ rest)) \<noteq> []" by (metis list.size(3) not_numeral_le_zero)
  ultimately show ?thesis
    using assms(1) by (cases lb) (auto simp: parse_kring_command_def scan_block_def Let_def split: prod.splits)
qed

lemma long_word_overflows_witness:
  "parse_kring_command (\<lambda>_. 0) (8, 16) (98 # 32 # replicate 40 49 @ []) (sample_link, ss_block sample_state) = None"
  by (rule long_word_overflows) (simp_all add: isspace_def)

end
