(* ===== verification/Runs.thy ===== *)
theory Runs
  imports Prelude "HOL-Library.Monad_Syntax"
begin

text \<open>
  Runs of a component: a sequence of events, each a step that may crash (\<open>None\<close>), and what a client
  may conclude from a simulation. The locale \<open>simulation\<close> states the contract: whenever the abstract
  step is allowed, the step of the code returns and the states correspond again. The list of
  \<open>Genf_List\<close>, the block execution of \<open>Parse_Block\<close>, the connections of \<open>Parse_Decrypted\<close> and the broker
  of \<open>Broker_Pubsub\<close> interpret it.
\<close>

fun run_opt :: "('e \<Rightarrow> 's \<Rightarrow> 's option) \<Rightarrow> 'e list \<Rightarrow> 's \<Rightarrow> 's option" where
  "run_opt step [] s = Some s"
| "run_opt step (e # es) s = step e s \<bind> run_opt step es"

lemma run_opt_single: "run_opt step [e] s = step e s"
  by (cases "step e s") simp_all

lemma run_opt_map: "run_opt step (map f es) s = run_opt (step \<circ> f) es s"
  by (induction es arbitrary: s) (simp_all cong: bind_option_cong)

lemma run_opt_append: "run_opt step (es @ fs) s = run_opt step es s \<bind> run_opt step fs"
proof (induction es arbitrary: s)
  case (Cons e es)
  then show ?case by (cases "step e s") auto
qed simp

lemma run_opt_total: "run_opt (\<lambda>e s. Some (f e s)) es s = Some (fold f es s)"
  by (induction es arbitrary: s) auto

lemma run_opt_concat: "run_opt step (concat ess) s = run_opt (run_opt step) ess s"
  by (induction ess arbitrary: s) (simp_all add: run_opt_append cong: bind_option_cong)

locale simulation =
  fixes step :: "'e \<Rightarrow> 's \<Rightarrow> 's option"
    and spec :: "'e \<Rightarrow> 'a \<Rightarrow> 'a option"
    and rel :: "'a \<Rightarrow> 's \<Rightarrow> bool"
  assumes step_sim: "rel a s \<Longrightarrow> spec e a = Some a' \<Longrightarrow> \<exists>s'. step e s = Some s' \<and> rel a' s'"
begin

text \<open>A whole run: the code gets through every sequence that the specification allows.\<close>

lemma run_sim:
  assumes "rel a s" "run_opt spec es a = Some a'"
  shows "\<exists>s'. run_opt step es s = Some s' \<and> rel a' s'"
  using assms
proof (induction es arbitrary: a s)
  case (Cons e es)
  then obtain b where b: "spec e a = Some b" "run_opt spec es b = Some a'" by (auto simp: bind_eq_Some_conv)
  from step_sim [OF Cons.prems(1) b(1)] obtain s1 where s1: "step e s = Some s1" "rel b s1" by blast
  from Cons.IH [OF s1(2) b(2)] s1(1) show ?case by simp
qed simp

end

end
