(* ===== verification/Genf_List.thy ===== *)
theory Genf_List
  imports Runs
begin

text \<open>
  The doubly linked list of \<open>genf/list.h\<close>, on a heap of elements; address 0 is the null pointer.
  \<open>dl_ok\<close> relates the links to the list of addresses they stand for, and every operation is shown to
  be the operation on that list. The variant for values (\<open>DOUBLELIST_VALUE\<close>) is compiled out.
\<close>

section \<open>Elements and lists\<close>

type_synonym el_ptr = nat

record dl_el =
  el_prv :: el_ptr
  el_nxt :: el_ptr

type_synonym dl_heap = "el_ptr \<Rightarrow> dl_el"

record dlist =
  dl_head :: el_ptr
  dl_tail :: el_ptr
  dl_listLen :: int

definition set_prv :: "el_ptr \<Rightarrow> el_ptr \<Rightarrow> dl_heap \<Rightarrow> dl_heap" where
  "set_prv p v h = h(p := (h p)\<lparr>el_prv := v\<rparr>)"

definition set_nxt :: "el_ptr \<Rightarrow> el_ptr \<Rightarrow> dl_heap \<Rightarrow> dl_heap" where
  "set_nxt p v h = h(p := (h p)\<lparr>el_nxt := v\<rparr>)"

definition dlist_new :: dlist where
  "dlist_new = \<lparr>dl_head = 0, dl_tail = 0, dl_listLen = 0\<rparr>"

section \<open>Inserting and detaching\<close>

definition addAfter :: "el_ptr \<Rightarrow> el_ptr \<Rightarrow> dlist \<times> dl_heap \<Rightarrow> dlist \<times> dl_heap" where
  "addAfter prev_el new_el s =
     (case s of (l, h) \<Rightarrow>
      let h = set_prv new_el prev_el h;
          (l, h) = (if prev_el = 0 then (l\<lparr>dl_head := new_el\<rparr>, set_nxt new_el (dl_head l) h)
                    else (l, set_nxt prev_el new_el (set_nxt new_el (el_nxt (h prev_el)) h)));
          (l, h) = (if el_nxt (h new_el) = 0 then (l\<lparr>dl_tail := new_el\<rparr>, h)
                    else (l, set_prv (el_nxt (h new_el)) new_el h))
      in (l\<lparr>dl_listLen := dl_listLen l + 1\<rparr>, h))"

definition addBefore :: "el_ptr \<Rightarrow> el_ptr \<Rightarrow> dlist \<times> dl_heap \<Rightarrow> dlist \<times> dl_heap" where
  "addBefore next_el new_el s =
     (case s of (l, h) \<Rightarrow>
      let h = set_nxt new_el next_el h;
          (l, h) = (if next_el = 0 then (l\<lparr>dl_tail := new_el\<rparr>, set_prv new_el (dl_tail l) h)
                    else (l, set_prv next_el new_el (set_prv new_el (el_prv (h next_el)) h)));
          (l, h) = (if el_prv (h new_el) = 0 then (l\<lparr>dl_head := new_el\<rparr>, h)
                    else (l, set_nxt (el_prv (h new_el)) new_el h))
      in (l\<lparr>dl_listLen := dl_listLen l + 1\<rparr>, h))"

definition dl_prepend :: "el_ptr \<Rightarrow> dlist \<times> dl_heap \<Rightarrow> dlist \<times> dl_heap" where
  "dl_prepend new_el s = addBefore (dl_head (fst s)) new_el s"

definition dl_append :: "el_ptr \<Rightarrow> dlist \<times> dl_heap \<Rightarrow> dlist \<times> dl_heap" where
  "dl_append new_el s = addAfter (dl_tail (fst s)) new_el s"

text \<open>Whole lists; the result is this list, the other list and the heap.\<close>

definition addAfter_list :: "el_ptr \<Rightarrow> dlist \<Rightarrow> dlist \<times> dl_heap \<Rightarrow> dlist \<times> dlist \<times> dl_heap" where
  "addAfter_list prev_el dl s =
     (case s of (l, h) \<Rightarrow>
      if dl_listLen dl = 0 then (l, dl, h)
      else
        let h = set_prv (dl_head dl) prev_el h;
            (l, h) = (if prev_el = 0 then (l\<lparr>dl_head := dl_head dl\<rparr>, set_nxt (dl_tail dl) (dl_head l) h)
                      else (l, set_nxt prev_el (dl_head dl) (set_nxt (dl_tail dl) (el_nxt (h prev_el)) h)));
            (l, h) = (if el_nxt (h (dl_tail dl)) = 0 then (l\<lparr>dl_tail := dl_tail dl\<rparr>, h)
                      else (l, set_prv (el_nxt (h (dl_tail dl))) (dl_tail dl) h))
        in (l\<lparr>dl_listLen := dl_listLen l + dl_listLen dl\<rparr>, dlist_new, h))"

definition addBefore_list :: "el_ptr \<Rightarrow> dlist \<Rightarrow> dlist \<times> dl_heap \<Rightarrow> dlist \<times> dlist \<times> dl_heap" where
  "addBefore_list next_el dl s =
     (case s of (l, h) \<Rightarrow>
      if dl_listLen dl = 0 then (l, dl, h)
      else
        let h = set_nxt (dl_tail dl) next_el h;
            (l, h) = (if next_el = 0 then (l\<lparr>dl_tail := dl_tail dl\<rparr>, set_prv (dl_head dl) (dl_tail l) h)
                      else (l, set_prv next_el (dl_tail dl) (set_prv (dl_head dl) (el_prv (h next_el)) h)));
            (l, h) = (if el_prv (h (dl_head dl)) = 0 then (l\<lparr>dl_head := dl_head dl\<rparr>, h)
                      else (l, set_nxt (el_prv (h (dl_head dl))) (dl_head dl) h))
        in (l\<lparr>dl_listLen := dl_listLen l + dl_listLen dl\<rparr>, dlist_new, h))"

definition prepend_list :: "dlist \<Rightarrow> dlist \<times> dl_heap \<Rightarrow> dlist \<times> dlist \<times> dl_heap" where
  "prepend_list dl s = addBefore_list (dl_head (fst s)) dl s"

definition append_list :: "dlist \<Rightarrow> dlist \<times> dl_heap \<Rightarrow> dlist \<times> dlist \<times> dl_heap" where
  "append_list dl s = addAfter_list (dl_tail (fst s)) dl s"

text \<open>Detaching; \<open>None\<close> when \<open>el\<close> is null, as it is for the first element of an empty list.\<close>

definition detach :: "el_ptr \<Rightarrow> dlist \<times> dl_heap \<Rightarrow> (el_ptr \<times> dlist \<times> dl_heap) option" where
  "detach el s =
     (case s of (l, h) \<Rightarrow>
      if el = 0 then None
      else
        let (l, h) = (if el_prv (h el) = 0 then (l\<lparr>dl_head := el_nxt (h el)\<rparr>, h)
                      else (l, set_nxt (el_prv (h el)) (el_nxt (h el)) h));
            (l, h) = (if el_nxt (h el) = 0 then (l\<lparr>dl_tail := el_prv (h el)\<rparr>, h)
                      else (l, set_prv (el_nxt (h el)) (el_prv (h el)) h))
        in Some (el, l\<lparr>dl_listLen := dl_listLen l - 1\<rparr>, h))"

definition detachFirst :: "dlist \<times> dl_heap \<Rightarrow> (el_ptr \<times> dlist \<times> dl_heap) option" where
  "detachFirst s = detach (dl_head (fst s)) s"

definition detachLast :: "dlist \<times> dl_heap \<Rightarrow> (el_ptr \<times> dlist \<times> dl_heap) option" where
  "detachLast s = detach (dl_tail (fst s)) s"

section \<open>Whole-list operations and iteration\<close>

definition dl_abandon :: "dlist \<Rightarrow> dlist" where
  "dl_abandon l = dlist_new"

definition dl_transfer :: "dlist \<Rightarrow> dlist \<Rightarrow> dlist \<times> dlist" where
  "dl_transfer l other = (l\<lparr>dl_head := dl_head other, dl_tail := dl_tail other, dl_listLen := dl_listLen other\<rparr>, dl_abandon other)"

text \<open>The loop of \<open>empty\<close>: the elements deleted, in order.\<close>

partial_function (option) empty_loop :: "dl_heap \<Rightarrow> el_ptr \<Rightarrow> el_ptr list option" where
  [code]: "empty_loop h cur =
     (if cur = 0 then Some [] else Option.bind (empty_loop h (el_nxt (h cur))) (\<lambda>ds. Some (cur # ds)))"

definition dl_empty :: "dlist \<times> dl_heap \<Rightarrow> (el_ptr list \<times> dlist) option" where
  "dl_empty s = map_option (\<lambda>ds. (ds, dlist_new)) (empty_loop (snd s) (dl_head (fst s)))"

text \<open>Walks with an iterator: \<open>for ( Iter it = list; it.lte(); it++ )\<close>, and from the tail with \<open>gtb\<close> and \<open>--\<close>.\<close>

partial_function (option) iter_forward :: "dl_heap \<Rightarrow> el_ptr \<Rightarrow> el_ptr list option" where
  [code]: "iter_forward h p = (if p = 0 then Some [] else Option.bind (iter_forward h (el_nxt (h p))) (\<lambda>xs. Some (p # xs)))"

partial_function (option) iter_backward :: "dl_heap \<Rightarrow> el_ptr \<Rightarrow> el_ptr list option" where
  [code]: "iter_backward h p = (if p = 0 then Some [] else Option.bind (iter_backward h (el_prv (h p))) (\<lambda>xs. Some (p # xs)))"

text \<open>
  The copy constructor: each element of the other list is copied to a new address, the next one of
  \<open>mem\<close>, and appended; copying an element copies its value \<open>'v\<close>, and the links of the copy are set by
  \<open>append\<close>. The assignment of the list type runs the same loop on the list it has.
\<close>

partial_function (option) copy_loop ::
  "el_ptr \<Rightarrow> el_ptr list \<Rightarrow> dlist \<times> dl_heap \<times> (el_ptr \<Rightarrow> 'v) \<Rightarrow> (dlist \<times> dl_heap \<times> (el_ptr \<Rightarrow> 'v)) option" where
  [code]: "copy_loop el mem s =
     (if el = 0 then Some s
      else case (mem, s) of
        ([], _) \<Rightarrow> None
      | (m # mem', (l, h, val)) \<Rightarrow>
          (case dl_append m (l, h(m := h el)) of (l', h') \<Rightarrow> copy_loop (el_nxt (h' el)) mem' (l', h', val(m := val el))))"

definition dl_copy :: "el_ptr list \<Rightarrow> dlist \<Rightarrow> dl_heap \<times> (el_ptr \<Rightarrow> 'v) \<Rightarrow> (dlist \<times> dl_heap \<times> (el_ptr \<Rightarrow> 'v)) option" where
  "dl_copy mem other hv = copy_loop (dl_head other) mem (dlist_new, fst hv, snd hv)"

section \<open>The list the links stand for\<close>

text \<open>The address before a list of elements after \<open>p\<close>, and the first one or \<open>n\<close>.\<close>

definition last_or :: "el_ptr \<Rightarrow> el_ptr list \<Rightarrow> el_ptr" where
  "last_or p xs = (if xs = [] then p else last xs)"

definition first_or :: "el_ptr \<Rightarrow> el_ptr list \<Rightarrow> el_ptr" where
  "first_or n xs = (if xs = [] then n else hd xs)"

fun dlseg :: "dl_heap \<Rightarrow> el_ptr \<Rightarrow> el_ptr list \<Rightarrow> el_ptr \<Rightarrow> bool" where
  "dlseg h p [] n = True"
| "dlseg h p (x # xs) n = (x \<noteq> 0 \<and> el_prv (h x) = p \<and> el_nxt (h x) = first_or n xs \<and> dlseg h x xs n)"

definition dl_ok :: "dl_heap \<Rightarrow> dlist \<Rightarrow> el_ptr list \<Rightarrow> bool" where
  "dl_ok h l xs = (dlseg h 0 xs 0 \<and> distinct xs \<and> dl_head l = first_or 0 xs \<and> dl_tail l = last_or 0 xs \<and>
     dl_listLen l = int (length xs))"

lemma first_or_simps [simp]: "first_or n [] = n" "first_or n (x # xs) = x"
  by (simp_all add: first_or_def)

lemma last_or_simps [simp]: "last_or p [] = p" "last_or p (x # xs) = last_or x xs" "last_or p (xs @ [y]) = y"
  by (auto simp: last_or_def)

lemma last_or_append [simp]: "last_or p (xs @ ys) = last_or (last_or p xs) ys"
  by (induction xs arbitrary: p) simp_all

lemma first_or_append [simp]: "first_or n (xs @ ys) = first_or (first_or n ys) xs"
  by (cases xs) simp_all

lemma dlseg_append: "dlseg h p (xs @ ys) n \<longleftrightarrow> dlseg h p xs (first_or n ys) \<and> dlseg h (last_or p xs) ys n"
  by (induction xs arbitrary: p) auto

lemma dlseg_cong: "(\<And>x. x \<in> set xs \<Longrightarrow> h' x = h x) \<Longrightarrow> dlseg h' p xs n = dlseg h p xs n"
  by (induction xs arbitrary: p) auto

lemma dlseg_null: "dlseg h p xs n \<Longrightarrow> 0 \<notin> set xs"
  by (induction xs arbitrary: p) auto

lemma set_prv_simps [simp]:
  "el_nxt (set_prv p v h x) = el_nxt (h x)" "el_prv (set_prv p v h x) = (if x = p then v else el_prv (h x))"
  by (simp_all add: set_prv_def)

lemma set_nxt_simps [simp]:
  "el_prv (set_nxt p v h x) = el_prv (h x)" "el_nxt (set_nxt p v h x) = (if x = p then v else el_nxt (h x))"
  by (simp_all add: set_nxt_def)

lemma set_link_other: "x \<noteq> p \<Longrightarrow> set_prv p v h x = h x" "x \<noteq> p \<Longrightarrow> set_nxt p v h x = h x"
  by (simp_all add: set_prv_def set_nxt_def)

lemma set_prv_nxt: "set_prv p v (set_nxt q w h) = set_nxt q w (set_prv p v h)"
  by (auto simp: set_prv_def set_nxt_def fun_eq_iff)

text \<open>Changing the links at the two ends of a segment.\<close>

lemma dlseg_links:
  assumes "\<And>x. x \<in> set xs \<Longrightarrow> el_prv (h' x) = (if x = hd xs then p' else el_prv (h x)) \<and>
      el_nxt (h' x) = (if x = last xs then n' else el_nxt (h x))"
    and "dlseg h p xs n" "distinct xs"
  shows "dlseg h' p' xs n'"
  using assms
proof (induction xs arbitrary: p p')
  case (Cons x xs)
  have x: "el_prv (h' x) = p' \<and> el_nxt (h' x) = (if xs = [] then n' else el_nxt (h x))"
    using Cons.prems(1) [of x] Cons.prems(3) by (cases xs) auto
  have "dlseg h' x xs n'"
  proof (rule Cons.IH [of x x])
    fix y assume y: "y \<in> set xs"
    then have "y \<noteq> x" "xs \<noteq> []" using Cons.prems(3) by auto
    moreover have "el_prv (h y) = x" if "y = hd xs" using that y Cons.prems(2) by (cases xs) auto
    ultimately show "el_prv (h' y) = (if y = hd xs then x else el_prv (h y)) \<and> el_nxt (h' y) = (if y = last xs then n' else el_nxt (h y))"
      using Cons.prems(1) [of y] y by auto
  qed (use Cons.prems in auto)
  then show ?case using x Cons.prems(2) by (cases xs) auto
qed simp

text \<open>
  Everything that inserts a segment \<open>ys\<close> between \<open>xs\<close> and \<open>zs\<close> ends in these links: those of \<open>ys\<close> point
  to its neighbours, and the neighbours point to it.
\<close>

lemma dlseg_insert:
  assumes xz: "dlseg h 0 (xs @ zs) 0" "distinct (xs @ ys @ zs)" and ys: "dlseg h p ys n" "ys \<noteq> []"
    and prv: "\<And>x. el_prv (h' x) = (if x = hd ys then last_or 0 xs else if zs \<noteq> [] \<and> x = hd zs then last ys else el_prv (h x))"
    and nxt: "\<And>x. el_nxt (h' x) = (if x = last ys then first_or 0 zs else if xs \<noteq> [] \<and> x = last xs then hd ys else el_nxt (h x))"
  shows "dlseg h' 0 (xs @ ys @ zs) 0"
proof -
  have seg: "dlseg h 0 xs (first_or 0 zs)" "dlseg h (last_or 0 xs) zs 0" using xz(1) by (simp_all add: dlseg_append)
  have ends: "hd ys \<in> set ys" "last ys \<in> set ys" using ys(2) by simp_all
  have "dlseg h' 0 xs (hd ys)"
  proof (rule dlseg_links [OF _ seg(1)])
    fix x assume "x \<in> set xs"
    moreover have "el_prv (h (hd xs)) = 0" if "xs \<noteq> []" using seg(1) that by (cases xs) auto
    moreover have "x \<noteq> hd ys" "x \<noteq> last ys" "zs \<noteq> [] \<Longrightarrow> x \<noteq> hd zs" using xz(2) ends calculation(1) by (auto simp: disjoint_iff)
    ultimately show "el_prv (h' x) = (if x = hd xs then 0 else el_prv (h x)) \<and> el_nxt (h' x) = (if x = last xs then hd ys else el_nxt (h x))"
      using prv [of x] nxt [of x] by auto
  qed (use xz(2) in simp)
  moreover have "dlseg h' (last_or 0 xs) ys (first_or 0 zs)"
  proof (rule dlseg_links [OF _ ys(1)])
    fix x assume "x \<in> set ys"
    then have "zs \<noteq> [] \<Longrightarrow> x \<noteq> hd zs" "xs \<noteq> [] \<Longrightarrow> x \<noteq> last xs" using xz(2) by (auto simp: disjoint_iff)
    then show "el_prv (h' x) = (if x = hd ys then last_or 0 xs else el_prv (h x)) \<and> el_nxt (h' x) = (if x = last ys then first_or 0 zs else el_nxt (h x))"
      using prv [of x] nxt [of x] by auto
  qed (use xz(2) in simp)
  moreover have "dlseg h' (last ys) zs 0"
  proof (rule dlseg_links [OF _ seg(2)])
    fix x assume x: "x \<in> set zs"
    moreover have "el_nxt (h (last zs)) = 0" if "zs \<noteq> []"
      using seg(2) that by (cases zs rule: rev_cases) (auto simp: dlseg_append)
    moreover have "x \<noteq> hd ys" "x \<noteq> last ys" "xs \<noteq> [] \<Longrightarrow> x \<noteq> last xs" using xz(2) ends x by (auto simp: disjoint_iff)
    ultimately show "el_prv (h' x) = (if x = hd zs then last ys else el_prv (h x)) \<and> el_nxt (h' x) = (if x = last zs then 0 else el_nxt (h x))"
      using prv [of x] nxt [of x] by auto
  qed (use xz(2) in simp)
  ultimately show ?thesis using ys(2) by (simp add: dlseg_append first_or_def last_or_def)
qed

lemma dl_ok_mid:
  assumes "dl_ok h l (xs @ zs)"
  shows "xs \<noteq> [] \<Longrightarrow> el_nxt (h (last xs)) = first_or 0 zs" "zs \<noteq> [] \<Longrightarrow> el_prv (h (hd zs)) = last_or 0 xs"
    "xs \<noteq> [] \<Longrightarrow> last xs \<noteq> 0" "zs \<noteq> [] \<Longrightarrow> hd zs \<noteq> 0"
proof -
  have s: "dlseg h 0 xs (first_or 0 zs)" "dlseg h (last_or 0 xs) zs 0" using assms by (simp_all add: dl_ok_def dlseg_append)
  then show "xs \<noteq> [] \<Longrightarrow> el_nxt (h (last xs)) = first_or 0 zs" "xs \<noteq> [] \<Longrightarrow> last xs \<noteq> 0"
    by (cases xs rule: rev_cases; simp add: dlseg_append)+
  from s show "zs \<noteq> [] \<Longrightarrow> el_prv (h (hd zs)) = last_or 0 xs" "zs \<noteq> [] \<Longrightarrow> hd zs \<noteq> 0"
    by (cases zs; simp)+
qed

text \<open>A list header for elements whose outer links do not matter.\<close>

definition chain :: "dl_heap \<Rightarrow> dlist \<Rightarrow> el_ptr list \<Rightarrow> bool" where
  "chain h dl ys = ((\<exists>p n. dlseg h p ys n) \<and> dl_head dl = first_or 0 ys \<and> dl_tail dl = last_or 0 ys \<and> dl_listLen dl = int (length ys))"

lemma dl_ok_chain: "dl_ok h dl ys \<Longrightarrow> chain h dl ys"
  by (auto simp: dl_ok_def chain_def)

lemma chain_ends:
  assumes "chain h dl ys" "ys \<noteq> []" and "dl_ok h l (xs @ zs)"
  shows "dl_head dl = hd ys" "dl_tail dl = last ys" "dl_listLen dl = int (length ys)" "dl_listLen dl \<noteq> 0"
    "dl_head l = first_or 0 (xs @ zs)" "dl_tail l = last_or 0 (xs @ zs)" "dl_listLen l = int (length (xs @ zs))"
  using assms by (auto simp: chain_def dl_ok_def first_or_def last_or_def)

lemma chain_nil: "chain h dl [] \<Longrightarrow> dl = dlist_new"
  by (cases dl) (simp add: chain_def dlist_new_def)

text \<open>The heap after the splice.\<close>

definition spliced :: "el_ptr list \<Rightarrow> el_ptr list \<Rightarrow> el_ptr list \<Rightarrow> dl_heap \<Rightarrow> dl_heap" where
  "spliced xs ys zs h =
     (let h = set_prv (hd ys) (last_or 0 xs) h;
          h = set_nxt (last ys) (first_or 0 zs) h;
          h = (if xs = [] then h else set_nxt (last xs) (hd ys) h)
      in if zs = [] then h else set_prv (hd zs) (last ys) h)"

lemma splice_apart:
  assumes "distinct (xs @ ys @ zs)" "ys \<noteq> []"
  shows "xs \<noteq> [] \<Longrightarrow> last ys \<noteq> last xs \<and> last xs \<noteq> last ys \<and> hd ys \<noteq> last xs \<and> last xs \<noteq> hd ys"
    and "zs \<noteq> [] \<Longrightarrow> last ys \<noteq> hd zs \<and> hd zs \<noteq> last ys \<and> hd ys \<noteq> hd zs \<and> hd zs \<noteq> hd ys"
  using assms by (auto simp: disjoint_iff) (metis hd_in_set last_in_set)+

text \<open>The list header and the heap after splicing \<open>dl\<close>, which stands for \<open>ys\<close>, in between \<open>xs\<close> and \<open>zs\<close>.\<close>

definition spliced_list :: "el_ptr list \<Rightarrow> dlist \<Rightarrow> dlist \<Rightarrow> dlist" where
  "spliced_list ps dl l = l\<lparr>dl_head := first_or 0 ps, dl_tail := last_or 0 ps, dl_listLen := dl_listLen l + dl_listLen dl\<rparr>"

lemma spliced_ok:
  assumes ok: "dl_ok h l (xs @ zs)" and dl: "chain h dl ys" "ys \<noteq> []" and dist: "distinct (xs @ ys @ zs)"
  shows "dl_ok (spliced xs ys zs h) (spliced_list (xs @ ys @ zs) dl l) (xs @ ys @ zs) \<and>
    (\<forall>x. x \<notin> set (xs @ ys @ zs) \<longrightarrow> spliced xs ys zs h x = h x)"
proof
  note ne = splice_apart [OF dist dl(2)]
  obtain p n where seg: "dlseg h p ys n" using dl(1) unfolding chain_def by blast
  have "dlseg (spliced xs ys zs h) 0 (xs @ ys @ zs) 0"
  proof (rule dlseg_insert [OF _ dist seg dl(2)])
    show "dlseg h 0 (xs @ zs) 0" using ok by (simp add: dl_ok_def)
    show "el_prv (spliced xs ys zs h x) = (if x = hd ys then last_or 0 xs else if zs \<noteq> [] \<and> x = hd zs then last ys else el_prv (h x))"
      and "el_nxt (spliced xs ys zs h x) = (if x = last ys then first_or 0 zs else if xs \<noteq> [] \<and> x = last xs then hd ys else el_nxt (h x))" for x
      using ne by (auto simp: spliced_def Let_def)
  qed
  then show "dl_ok (spliced xs ys zs h) (spliced_list (xs @ ys @ zs) dl l) (xs @ ys @ zs)"
    using ok dl(1) dist by (simp add: dl_ok_def chain_def spliced_list_def)
  show "\<forall>x. x \<notin> set (xs @ ys @ zs) \<longrightarrow> spliced xs ys zs h x = h x"
  proof (intro allI impI)
    fix x assume x: "x \<notin> set (xs @ ys @ zs)"
    have "x \<noteq> hd ys" "x \<noteq> last ys" "xs \<noteq> [] \<Longrightarrow> x \<noteq> last xs" "zs \<noteq> [] \<Longrightarrow> x \<noteq> hd zs"
      using x dl(2) by (metis Un_iff hd_in_set last_in_set set_append)+
    then show "spliced xs ys zs h x = h x" by (simp add: spliced_def Let_def set_link_other)
  qed
qed

lemma addAfter_list_ok:
  assumes ok: "dl_ok h l (xs @ zs)" and dl: "chain h dl ys" and dist: "distinct (xs @ ys @ zs)"
  shows "\<exists>l' h'. addAfter_list (last_or 0 xs) dl (l, h) = (l', dlist_new, h') \<and> dl_ok h' l' (xs @ ys @ zs) \<and>
    (\<forall>x. x \<notin> set (xs @ ys @ zs) \<longrightarrow> h' x = h x)"
proof (cases "ys = []")
  case True
  then have "dl = dlist_new" using chain_nil [of h dl] dl by simp
  then show ?thesis using True ok by (simp add: addAfter_list_def dlist_new_def)
next
  case False
  have "addAfter_list (last_or 0 xs) dl (l, h) = (spliced_list (xs @ ys @ zs) dl l, dlist_new, spliced xs ys zs h)"
    using chain_ends [OF dl False ok] dl_ok_mid [OF ok] splice_apart [OF dist False] False
    by (cases "xs = []"; cases "zs = []"; cases l)
       (simp_all add: addAfter_list_def spliced_def spliced_list_def Let_def first_or_def last_or_def)
  then show ?thesis using spliced_ok [OF ok dl False dist] by blast
qed

lemma addBefore_list_ok:
  assumes ok: "dl_ok h l (xs @ zs)" and dl: "chain h dl ys" and dist: "distinct (xs @ ys @ zs)"
  shows "\<exists>l' h'. addBefore_list (first_or 0 zs) dl (l, h) = (l', dlist_new, h') \<and> dl_ok h' l' (xs @ ys @ zs) \<and>
    (\<forall>x. x \<notin> set (xs @ ys @ zs) \<longrightarrow> h' x = h x)"
proof (cases "ys = []")
  case True
  then have "dl = dlist_new" using chain_nil [of h dl] dl by simp
  then show ?thesis using True ok by (simp add: addBefore_list_def dlist_new_def)
next
  case False
  have "addBefore_list (first_or 0 zs) dl (l, h) = (spliced_list (xs @ ys @ zs) dl l, dlist_new, spliced xs ys zs h)"
    using chain_ends [OF dl False ok] dl_ok_mid [OF ok] splice_apart [OF dist False] False
    by (cases "xs = []"; cases "zs = []"; cases l)
       (simp_all add: addBefore_list_def spliced_def spliced_list_def Let_def first_or_def last_or_def set_prv_nxt)
  then show ?thesis using spliced_ok [OF ok dl False dist] by blast
qed

text \<open>Adding one element is splicing the list of that element.\<close>

definition dl_single :: "el_ptr \<Rightarrow> dlist" where
  "dl_single e = \<lparr>dl_head = e, dl_tail = e, dl_listLen = 1\<rparr>"

lemma chain_single: "e \<noteq> 0 \<Longrightarrow> chain h (dl_single e) [e]"
  by (simp add: chain_def dl_single_def)

lemma addAfter_single: "addAfter p e (l, h) = (case addAfter_list p (dl_single e) (l, h) of (l', _, h') \<Rightarrow> (l', h'))"
  by (simp add: addAfter_def addAfter_list_def dl_single_def Let_def split_def)

lemma addBefore_single: "addBefore p e (l, h) = (case addBefore_list p (dl_single e) (l, h) of (l', _, h') \<Rightarrow> (l', h'))"
  by (simp add: addBefore_def addBefore_list_def dl_single_def Let_def split_def)

lemma addAfter_ok:
  assumes "dl_ok h l (xs @ zs)" "e \<noteq> 0" "e \<notin> set (xs @ zs)"
  shows "\<exists>l' h'. addAfter (last_or 0 xs) e (l, h) = (l', h') \<and> dl_ok h' l' (xs @ e # zs) \<and> (\<forall>x. x \<notin> set (xs @ e # zs) \<longrightarrow> h' x = h x)"
proof -
  have "distinct (xs @ [e] @ zs)" using assms by (auto simp: dl_ok_def)
  from addAfter_list_ok [OF assms(1) chain_single [OF assms(2)] this] show ?thesis by (auto simp: addAfter_single)
qed

lemma addBefore_ok:
  assumes "dl_ok h l (xs @ zs)" "e \<noteq> 0" "e \<notin> set (xs @ zs)"
  shows "\<exists>l' h'. addBefore (first_or 0 zs) e (l, h) = (l', h') \<and> dl_ok h' l' (xs @ e # zs) \<and> (\<forall>x. x \<notin> set (xs @ e # zs) \<longrightarrow> h' x = h x)"
proof -
  have "distinct (xs @ [e] @ zs)" using assms by (auto simp: dl_ok_def)
  from addBefore_list_ok [OF assms(1) chain_single [OF assms(2)] this] show ?thesis by (auto simp: addBefore_single)
qed

lemma detach_ok:
  assumes ok: "dl_ok h l (xs @ e # zs)"
  shows "\<exists>l' h'. detach e (l, h) = Some (e, l', h') \<and> dl_ok h' l' (xs @ zs) \<and> (\<forall>x. x \<notin> set (xs @ zs) \<longrightarrow> h' x = h x)"
proof -
  have seg: "dlseg h 0 xs e" "dlseg h e zs 0" "e \<noteq> 0" "el_prv (h e) = last_or 0 xs" "el_nxt (h e) = first_or 0 zs"
    and d: "distinct (xs @ e # zs)"
    and l: "dl_head l = first_or 0 (xs @ e # zs)" "dl_tail l = last_or 0 (xs @ e # zs)" "dl_listLen l = int (length (xs @ e # zs))"
    using ok by (auto simp: dl_ok_def dlseg_append)
  have nz: "xs \<noteq> [] \<Longrightarrow> last xs \<noteq> 0" "zs \<noteq> [] \<Longrightarrow> hd zs \<noteq> 0"
    using dlseg_null [OF seg(1)] dlseg_null [OF seg(2)] by (metis last_in_set, metis hd_in_set)
  define h' where "h' = (let h = (if xs = [] then h else set_nxt (last xs) (first_or 0 zs) h) in if zs = [] then h else set_prv (hd zs) (last_or 0 xs) h)"
  define l' where "l' = l\<lparr>dl_head := first_or 0 (xs @ zs), dl_tail := last_or 0 (xs @ zs), dl_listLen := dl_listLen l - 1\<rparr>"
  have "detach e (l, h) = Some (e, l', h')"
    using seg(3-5) nz l d unfolding l'_def h'_def
    by (cases "xs = []"; cases "zs = []"; cases l) (auto simp: detach_def Let_def first_or_def last_or_def)
  moreover have "dlseg h' 0 xs (first_or 0 zs)"
  proof (rule dlseg_links [OF _ seg(1)])
    fix x assume x: "x \<in> set xs"
    moreover have "el_prv (h (hd xs)) = 0" "xs \<noteq> []" using seg(1) x by (cases xs; auto)+
    moreover have "zs \<noteq> [] \<Longrightarrow> x \<noteq> hd zs" using d x by (auto simp: disjoint_iff)
    ultimately show "el_prv (h' x) = (if x = hd xs then 0 else el_prv (h x)) \<and> el_nxt (h' x) = (if x = last xs then first_or 0 zs else el_nxt (h x))"
      by (auto simp: h'_def Let_def)
  qed (use d in simp)
  moreover have "dlseg h' (last_or 0 xs) zs 0"
  proof (rule dlseg_links [OF _ seg(2)])
    fix x assume x: "x \<in> set zs"
    moreover have "el_nxt (h (last zs)) = 0" "zs \<noteq> []" using seg(2) x by (cases zs rule: rev_cases; auto simp: dlseg_append)+
    moreover have "xs \<noteq> [] \<Longrightarrow> x \<noteq> last xs" using d x by (auto simp: disjoint_iff)
    ultimately show "el_prv (h' x) = (if x = hd zs then last_or 0 xs else el_prv (h x)) \<and> el_nxt (h' x) = (if x = last zs then 0 else el_nxt (h x))"
      by (auto simp: h'_def Let_def)
  qed (use d in simp)
  ultimately have "detach e (l, h) = Some (e, l', h')" "dl_ok h' l' (xs @ zs)"
    using d l by (auto simp: dl_ok_def dlseg_append l'_def)
  moreover have "h' x = h x" if "x \<notin> set (xs @ zs)" for x
  proof -
    have "xs \<noteq> [] \<Longrightarrow> x \<noteq> last xs" "zs \<noteq> [] \<Longrightarrow> x \<noteq> hd zs" using that by (metis Un_iff hd_in_set last_in_set set_append)+
    then show ?thesis by (simp add: h'_def Let_def set_link_other)
  qed
  ultimately show ?thesis by blast
qed

section \<open>Walks and copies\<close>

lemma iter_forward_ok: "dlseg h p xs 0 \<Longrightarrow> iter_forward h (first_or 0 xs) = Some xs"
proof (induction xs arbitrary: p)
  case (Cons x xs)
  then show ?case by (subst iter_forward.simps) auto
qed (simp add: iter_forward.simps)

lemma empty_loop_ok: "dlseg h p xs 0 \<Longrightarrow> empty_loop h (first_or 0 xs) = Some xs"
proof (induction xs arbitrary: p)
  case (Cons x xs)
  then show ?case by (subst empty_loop.simps) auto
qed (simp add: empty_loop.simps)

lemma iter_backward_ok: "dlseg h 0 xs n \<Longrightarrow> iter_backward h (last_or 0 xs) = Some (rev xs)"
proof (induction xs arbitrary: n rule: rev_induct)
  case Nil
  then show ?case by (simp add: iter_backward.simps)
next
  case (snoc x xs)
  then have "dlseg h 0 xs x" "x \<noteq> 0" "el_prv (h x) = last_or 0 xs" by (auto simp: dlseg_append)
  then show ?case using snoc.IH by (subst iter_backward.simps) simp
qed

lemma copy_loop_ok:
  assumes "dlseg h p xs 0" "dl_ok h l ys" "length xs \<le> length mem" "distinct mem" "0 \<notin> set mem"
    "set mem \<inter> (set xs \<union> set ys) = {}" "set xs \<inter> set ys = {}"
  shows "\<exists>l' h' val'. copy_loop (first_or 0 xs) mem (l, h, val) = Some (l', h', val') \<and>
    dl_ok h' l' (ys @ take (length xs) mem) \<and> map val' (take (length xs) mem) = map val xs \<and>
    (\<forall>x. x \<notin> set ys \<union> set mem \<longrightarrow> h' x = h x) \<and> (\<forall>x. x \<notin> set mem \<longrightarrow> val' x = val x)"
  using assms
proof (induction xs arbitrary: p h l ys mem val)
  case Nil
  then show ?case by (subst copy_loop.simps) auto
next
  case (Cons x xs)
  obtain m mem' where mem: "mem = m # mem'" using Cons.prems(3) by (cases mem) auto
  have m: "m \<noteq> 0" "m \<notin> set ys" "m \<notin> set (x # xs)" "m \<notin> set mem'" using Cons.prems(4-6) mem by auto
  have "dlseg (h(m := h x)) 0 ys 0 = dlseg h 0 ys 0" by (rule dlseg_cong) (use m(2) in auto)
  then have "dl_ok (h(m := h x)) l (ys @ [])" using Cons.prems(2) by (simp add: dl_ok_def)
  from addAfter_ok [OF this m(1)] m(2) obtain l1 h1 where
    l1: "dl_append m (l, h(m := h x)) = (l1, h1)" "dl_ok h1 l1 (ys @ [m])" "\<And>z. z \<notin> set (ys @ [m]) \<Longrightarrow> h1 z = h z"
    using Cons.prems(2) by (auto simp: dl_append_def dl_ok_def)
  have same: "h1 z = h z" if "z \<in> set (x # xs)" for z using that l1(3) [of z] m(3) Cons.prems(7) by auto
  have seg: "dlseg h1 x xs 0" "el_nxt (h1 x) = first_or 0 xs" "x \<noteq> 0"
    using Cons.prems(1) same dlseg_cong [of xs h1 h] by auto
  have "\<exists>l' h' val'. copy_loop (first_or 0 xs) mem' (l1, h1, val(m := val x)) = Some (l', h', val') \<and>
    dl_ok h' l' ((ys @ [m]) @ take (length xs) mem') \<and> map val' (take (length xs) mem') = map (val(m := val x)) xs \<and>
    (\<forall>z. z \<notin> set (ys @ [m]) \<union> set mem' \<longrightarrow> h' z = h1 z) \<and> (\<forall>z. z \<notin> set mem' \<longrightarrow> val' z = (val(m := val x)) z)"
    by (rule Cons.IH [OF seg(1) l1(2)]) (use Cons.prems(3-7) mem m in auto)
  then obtain l' h' val' where r: "copy_loop (first_or 0 xs) mem' (l1, h1, val(m := val x)) = Some (l', h', val')"
    "dl_ok h' l' (ys @ m # take (length xs) mem')" "map val' (take (length xs) mem') = map (val(m := val x)) xs"
    "\<And>z. z \<notin> set (ys @ [m]) \<union> set mem' \<Longrightarrow> h' z = h1 z" "\<And>z. z \<notin> set mem' \<Longrightarrow> val' z = (val(m := val x)) z"
    by auto
  have "copy_loop x mem (l, h, val) = Some (l', h', val')"
    using seg(2,3) mem l1(1) r(1) by (subst copy_loop.simps) simp
  moreover have "map (val(m := val x)) xs = map val xs" using m(3) by auto
  ultimately show ?case
    using r l1(3) mem m by (intro exI [of _ l'] exI [of _ h'] exI [of _ val']) auto
qed

section \<open>Properties\<close>

text \<open>
  The operations on one list, and what they do to the list of addresses. The arguments have to be as
  the comments of the source demand: a new element is not null and in no list, an old one is in the
  list (or null, for the ends).
\<close>

datatype dl_op = Prepend el_ptr | Append el_ptr | After el_ptr el_ptr | Before el_ptr el_ptr
  | Detach el_ptr | Detach_First | Detach_Last

fun dl_step :: "dl_op \<Rightarrow> dlist \<times> dl_heap \<Rightarrow> (dlist \<times> dl_heap) option" where
  "dl_step (Prepend e) s = Some (dl_prepend e s)"
| "dl_step (Append e) s = Some (dl_append e s)"
| "dl_step (After p e) s = Some (addAfter p e s)"
| "dl_step (Before p e) s = Some (addBefore p e s)"
| "dl_step (Detach e) s = map_option snd (detach e s)"
| "dl_step Detach_First s = map_option snd (detachFirst s)"
| "dl_step Detach_Last s = map_option snd (detachLast s)"

fun list_step :: "dl_op \<Rightarrow> el_ptr list \<Rightarrow> el_ptr list" where
  "list_step (Prepend e) xs = e # xs"
| "list_step (Append e) xs = xs @ [e]"
| "list_step (After p e) xs = (if p = 0 then e # xs else takeWhile (\<lambda>x. x \<noteq> p) xs @ p # e # tl (dropWhile (\<lambda>x. x \<noteq> p) xs))"
| "list_step (Before p e) xs = (if p = 0 then xs @ [e] else takeWhile (\<lambda>x. x \<noteq> p) xs @ e # dropWhile (\<lambda>x. x \<noteq> p) xs)"
| "list_step (Detach e) xs = remove1 e xs"
| "list_step Detach_First xs = tl xs"
| "list_step Detach_Last xs = butlast xs"

fun op_allowed :: "dl_op \<Rightarrow> el_ptr list \<Rightarrow> bool" where
  "op_allowed (Prepend e) xs = (e \<noteq> 0 \<and> e \<notin> set xs)"
| "op_allowed (Append e) xs = (e \<noteq> 0 \<and> e \<notin> set xs)"
| "op_allowed (After p e) xs = (e \<noteq> 0 \<and> e \<notin> set xs \<and> (p = 0 \<or> p \<in> set xs))"
| "op_allowed (Before p e) xs = (e \<noteq> 0 \<and> e \<notin> set xs \<and> (p = 0 \<or> p \<in> set xs))"
| "op_allowed (Detach e) xs = (e \<in> set xs)"
| "op_allowed Detach_First xs = (xs \<noteq> [])"
| "op_allowed Detach_Last xs = (xs \<noteq> [])"

lemma split_at:
  assumes "p \<in> set xs"
  obtains as bs where "xs = as @ p # bs" "p \<notin> set as" "takeWhile (\<lambda>x. x \<noteq> p) xs = as" "dropWhile (\<lambda>x. x \<noteq> p) xs = p # bs"
proof -
  obtain as bs where s: "xs = as @ p # bs" "p \<notin> set as" using assms by (metis split_list_first)
  have "takeWhile (\<lambda>x. x \<noteq> p) (as @ p # bs) = as \<and> dropWhile (\<lambda>x. x \<noteq> p) (as @ p # bs) = p # bs"
    using s(2) by (induction as) auto
  with s that show ?thesis by blast
qed

lemma dl_step_ok:
  assumes ok: "dl_ok h l xs" and allowed: "op_allowed op xs"
  shows "\<exists>l' h'. dl_step op (l, h) = Some (l', h') \<and> dl_ok h' l' (list_step op xs)"
proof (cases op)
  case (Prepend e)
  then show ?thesis using addBefore_ok [of h l "[]" xs e] ok allowed by (auto simp: dl_prepend_def dl_ok_def)
next
  case (Append e)
  then show ?thesis using addAfter_ok [of h l xs "[]" e] ok allowed by (auto simp: dl_append_def dl_ok_def)
next
  case (After p e)
  show ?thesis
  proof (cases "p = 0")
    case True
    then show ?thesis using After addAfter_ok [of h l "[]" xs e] ok allowed by auto
  next
    case False
    then obtain as bs where "xs = as @ p # bs" "takeWhile (\<lambda>x. x \<noteq> p) xs = as" "dropWhile (\<lambda>x. x \<noteq> p) xs = p # bs"
      using After allowed split_at by (metis op_allowed.simps(3))
    then show ?thesis using False After addAfter_ok [of h l "as @ [p]" bs e] ok allowed by auto
  qed
next
  case (Before p e)
  show ?thesis
  proof (cases "p = 0")
    case True
    then show ?thesis using Before addBefore_ok [of h l xs "[]" e] ok allowed by auto
  next
    case False
    then obtain as bs where "xs = as @ p # bs" "takeWhile (\<lambda>x. x \<noteq> p) xs = as" "dropWhile (\<lambda>x. x \<noteq> p) xs = p # bs"
      using Before allowed split_at by (metis op_allowed.simps(4))
    then show ?thesis using False Before addBefore_ok [of h l as "p # bs" e] ok allowed by auto
  qed
next
  case (Detach e)
  then obtain as bs where "xs = as @ e # bs" "e \<notin> set as" using allowed by (metis op_allowed.simps(5) split_list_first)
  then show ?thesis using Detach detach_ok [of h l as e bs] ok by (auto simp: remove1_append)
next
  case Detach_First
  then obtain e bs where "xs = e # bs" using allowed by (cases xs) auto
  then show ?thesis using Detach_First detach_ok [of h l "[]" e bs] ok by (auto simp: detachFirst_def dl_ok_def)
next
  case Detach_Last
  then obtain as e where "xs = as @ [e]" using allowed by (cases xs rule: rev_cases) auto
  then show ?thesis using Detach_Last detach_ok [of h l as e "[]"] ok by (auto simp: detachLast_def dl_ok_def)
qed

abbreviation dl_run :: "dl_op list \<Rightarrow> dlist \<times> dl_heap \<Rightarrow> (dlist \<times> dl_heap) option" where
  "dl_run \<equiv> run_opt dl_step"

text \<open>The specification: an operation on lists, when its arguments are as the comments demand.\<close>

definition list_spec :: "dl_op \<Rightarrow> el_ptr list \<Rightarrow> el_ptr list option" where
  "list_spec op xs = (if op_allowed op xs then Some (list_step op xs) else None)"

interpretation dlists: simulation dl_step list_spec "\<lambda>xs (l, h). dl_ok h l xs"
proof
  fix xs s op xs'
  assume "case s of (l, h) \<Rightarrow> dl_ok h l xs" "list_spec op xs = Some xs'"
  then show "\<exists>s'. dl_step op s = Some s' \<and> (case s' of (l, h) \<Rightarrow> dl_ok h l xs')"
    using dl_step_ok by (cases s) (fastforce simp: list_spec_def split: if_splits)
qed

fun ops_allowed :: "dl_op list \<Rightarrow> el_ptr list \<Rightarrow> bool" where
  "ops_allowed [] xs = True"
| "ops_allowed (op # ops) xs = (op_allowed op xs \<and> ops_allowed ops (list_step op xs))"

lemma ops_allowed_spec: "ops_allowed ops xs \<Longrightarrow> run_opt list_spec ops xs = Some (fold list_step ops xs)"
  by (induction ops arbitrary: xs) (auto simp: list_spec_def)

lemma dl_run_ok:
  "dl_ok h l xs \<Longrightarrow> ops_allowed ops xs \<Longrightarrow> \<exists>l' h'. dl_run ops (l, h) = Some (l', h') \<and> dl_ok h' l' (fold list_step ops xs)"
  using dlists.run_sim [OF _ ops_allowed_spec, of xs "(l, h)" ops] by auto

text \<open>
  (C25) The doubly linked list is a list: whatever sequence of insertions and removals runs on it, with
  arguments as the comments demand, no call follows a null pointer, and afterwards a walk forward
  visits the elements of the corresponding list in order, a walk backward in reverse order, and the
  stored length is the length.
\<close>

theorem dlist_is_a_list:
  assumes "dl_ok h l xs" and "ops_allowed ops xs"
  shows "\<exists>l' h'. dl_run ops (l, h) = Some (l', h') \<and> iter_forward h' (dl_head l') = Some (fold list_step ops xs) \<and>
    iter_backward h' (dl_tail l') = Some (rev (fold list_step ops xs)) \<and> dl_listLen l' = int (length (fold list_step ops xs))"
proof -
  obtain l' h' where r: "dl_run ops (l, h) = Some (l', h')" "dl_ok h' l' (fold list_step ops xs)" using dl_run_ok [OF assms] by blast
  then show ?thesis
    using iter_forward_ok [of h' 0] iter_backward_ok [of h' _ 0] by (intro exI [of _ l'] exI [of _ h']) (simp add: dl_ok_def)
qed

lemma dlist_is_a_list_witness:
  "\<exists>l' h'. dl_run [Append 5, Prepend 7, After 7 9, Detach 5] (dlist_new, \<lambda>_. \<lparr>el_prv = 0, el_nxt = 0\<rparr>) = Some (l', h') \<and>
    iter_forward h' (dl_head l') = Some [7, 9]"
proof -
  have "dl_ok (\<lambda>_. \<lparr>el_prv = 0, el_nxt = 0\<rparr>) dlist_new []" by (simp add: dl_ok_def dlist_new_def)
  from dlist_is_a_list [OF this, of "[Append 5, Prepend 7, After 7 9, Detach 5]"] show ?thesis by auto
qed

text \<open>
  Moving a whole list behind or in front of another one takes all its elements, in order, at the
  place asked for, and leaves the other list empty.
\<close>

lemma dlist_splice:
  assumes "dl_ok h l xs" and "dl_ok h dl ys" and "set xs \<inter> set ys = {}"
  shows "(\<exists>l' h'. append_list dl (l, h) = (l', dlist_new, h') \<and> dl_ok h' l' (xs @ ys)) \<and>
    (\<exists>l' h'. prepend_list dl (l, h) = (l', dlist_new, h') \<and> dl_ok h' l' (ys @ xs))"
proof -
  have d: "distinct (xs @ ys @ [])" "distinct ([] @ ys @ xs)" using assms by (auto simp: dl_ok_def)
  have e: "dl_tail l = last_or 0 xs" "dl_head l = first_or 0 xs" using assms(1) by (simp_all add: dl_ok_def)
  show ?thesis
    using addAfter_list_ok [of h l xs "[]" dl ys] addBefore_list_ok [of h l "[]" xs dl ys] assms dl_ok_chain [OF assms(2)] d
    by (auto simp: append_list_def prepend_list_def e)
qed

lemma dlist_splice_witness:
  "\<exists>l' h'. append_list (dl_single 4) (dl_single 3, \<lambda>_. \<lparr>el_prv = 0, el_nxt = 0\<rparr>) = (l', dlist_new, h') \<and> dl_ok h' l' [3, 4]"
proof -
  have "dl_ok (\<lambda>_. \<lparr>el_prv = 0, el_nxt = 0\<rparr>) (dl_single n) [n]" if "n \<noteq> 0" for n using that by (simp add: dl_ok_def dl_single_def)
  from dlist_splice [OF this [of 3] this [of 4]] show ?thesis by auto
qed

text \<open>
  Copying a list with enough memory gives a list of new elements with the same values in the same
  order, and leaves the original as it was; emptying it deletes each element once.
\<close>

lemma dlist_copy_empty:
  assumes ok: "dl_ok h other xs" and mem: "length xs \<le> length mem" "distinct mem" "0 \<notin> set mem" "set mem \<inter> set xs = {}"
  shows "\<exists>l' h' val'. dl_copy mem other (h, val) = Some (l', h', val') \<and> dl_ok h' l' (take (length xs) mem) \<and>
    map val' (take (length xs) mem) = map val xs \<and> dl_ok h' other xs \<and> map val' xs = map val xs \<and>
    dl_empty (l', h') = Some (take (length xs) mem, dlist_new)"
proof -
  have seg: "dlseg h 0 xs 0" "dl_head other = first_or 0 xs" using ok by (simp_all add: dl_ok_def)
  have new: "dl_ok h dlist_new []" by (simp add: dl_ok_def dlist_new_def)
  obtain l' h' val' where r: "copy_loop (first_or 0 xs) mem (dlist_new, h, val) = Some (l', h', val')"
    "dl_ok h' l' (take (length xs) mem)" "map val' (take (length xs) mem) = map val xs"
    "\<And>x. x \<notin> set mem \<Longrightarrow> h' x = h x" "\<And>x. x \<notin> set mem \<Longrightarrow> val' x = val x"
    using copy_loop_ok [OF seg(1) new mem(1-3), of val] mem(4) by auto
  have "dlseg h' 0 xs 0 = dlseg h 0 xs 0" by (rule dlseg_cong) (use r(4) mem(4) in blast)
  then have "dl_ok h' other xs" using ok by (simp add: dl_ok_def)
  moreover have "map val' xs = map val xs" using r(5) mem(4) by auto
  moreover have "dl_empty (l', h') = Some (take (length xs) mem, dlist_new)"
    using r(2) empty_loop_ok [of h' 0 "take (length xs) mem"] by (simp add: dl_empty_def dl_ok_def)
  ultimately show ?thesis using r(1-3) seg(2) by (simp add: dl_copy_def)
qed

lemma dlist_copy_empty_witness:
  "\<exists>l' h' val'. dl_copy [8] (dl_single 3) (\<lambda>_. \<lparr>el_prv = 0, el_nxt = 0\<rparr>, \<lambda>p. p + 1) = Some (l', h', val') \<and> dl_ok h' l' [8] \<and> val' 8 = 4"
proof -
  have "dl_ok (\<lambda>_. \<lparr>el_prv = 0, el_nxt = 0\<rparr>) (dl_single 3) [3]" by (simp add: dl_ok_def dl_single_def)
  from dlist_copy_empty [OF this, of "[8]" "\<lambda>p. p + 1"] show ?thesis by auto
qed

end
