(* ===== verification/Genf_Itq.thy ===== *)
theory Genf_Itq
  imports Prelude
begin

text \<open>
  The queue between threads, \<open>genf/itq.cc\<close>: a writer lays its messages out in a chain of memory blocks
  and puts their headers on a list; the reader takes the headers off the list, finds the contents,
  and releases the memory. An address is a block and an offset in it; block 0 is the null pointer.
  \<open>im_alloc\<close> holds the blocks that are allocated and not freed. The lock of the list is held for the
  whole of \<open>registerWriter\<close> and \<open>wait\<close> and for the part of \<open>send\<close> modelled here; every operation is one
  step. \<open>None\<close> says that the code follows a null pointer, touches a freed block, or calls \<open>wait\<close>
  when it has to sleep.
\<close>

section \<open>Memory\<close>

type_synonym blk = nat
type_synonym it_addr = "blk \<times> int"

record it_header =
  ih_msgId :: u16
  ih_writerId :: u16
  ih_length :: u32
  ih_next :: "it_addr option"

record it_block =
  ib_size :: int
  ib_next :: blk

record it_mem =
  im_alloc :: "blk set"
  im_block :: "blk \<Rightarrow> it_block"
  im_header :: "it_addr \<Rightarrow> it_header"

record it_writer =
  iw_id :: int
  iw_hblk :: blk
  iw_tblk :: blk
  iw_hoff :: int
  iw_toff :: int
  iw_mlen :: int
  iw_toSend :: "it_addr option"
  iw_contents :: "it_addr option"

record it_queue =
  iq_head :: "it_addr option"
  iq_tail :: "it_addr option"
  iq_writerList :: "int list"
  iq_writerVect :: "it_writer option list"

definition IT_BLOCK_SZ :: int where [simp]: "IT_BLOCK_SZ = 4098"
definition sizeof_ItHeader :: int where [simp]: "sizeof_ItHeader = 16"

section \<open>Writers\<close>

definition itWriter_new :: it_writer where
  "itWriter_new = \<lparr>iw_id = -1, iw_hblk = 0, iw_tblk = 0, iw_hoff = 0, iw_toff = 0, iw_mlen = 0, iw_toSend = None, iw_contents = None\<rparr>"

definition itQueue_new :: it_queue where
  "itQueue_new = \<lparr>iq_head = None, iq_tail = None, iq_writerList = [], iq_writerVect = []\<rparr>"

text \<open>The id is the first free slot of the vector, or a new one at its end. A writer is named by its id in the list of writers.\<close>

fun free_slot :: "'w option list \<Rightarrow> nat option" where
  "free_slot [] = None"
| "free_slot (w # ws) = (if w = None then Some 0 else map_option Suc (free_slot ws))"

definition registerWriter :: "it_queue \<Rightarrow> nat \<times> it_queue" where
  "registerWriter q =
     (let (i, vect) =
        (case free_slot (iq_writerVect q) of
           Some i \<Rightarrow> (i, (iq_writerVect q)[i := Some (itWriter_new\<lparr>iw_id := int i\<rparr>)])
         | None \<Rightarrow> (length (iq_writerVect q), iq_writerVect q @ [Some (itWriter_new\<lparr>iw_id := int (length (iq_writerVect q))\<rparr>)]))
      in (i, q\<lparr>iq_writerVect := vect, iq_writerList := iq_writerList q @ [int i]\<rparr>))"

definition writer_at :: "it_queue \<Rightarrow> nat \<Rightarrow> it_writer option" where
  "writer_at q i = (if i < length (iq_writerVect q) then iq_writerVect q ! i else None)"

definition set_writer :: "nat \<Rightarrow> it_writer \<Rightarrow> it_queue \<Rightarrow> it_queue" where
  "set_writer i w q = q\<lparr>iq_writerVect := (iq_writerVect q)[i := Some w]\<rparr>"

section \<open>Writing\<close>

text \<open>\<open>b\<close> is the address that \<open>new\<close> returns. The number of usable bytes is what matters of a block.\<close>

definition allocateBlock :: "blk \<Rightarrow> int \<Rightarrow> it_mem \<Rightarrow> it_mem" where
  "allocateBlock b supporting m =
     (let sz = (if supporting > IT_BLOCK_SZ then supporting else IT_BLOCK_SZ) in
      m\<lparr>im_alloc := insert b (im_alloc m), im_block := (im_block m)(b := \<lparr>ib_size = sz, ib_next = 0\<rparr>)\<rparr>)"

definition freeBlock :: "blk \<Rightarrow> it_mem \<Rightarrow> it_mem" where
  "freeBlock b m = m\<lparr>im_alloc := im_alloc m - {b}\<rparr>"

definition set_bnext :: "blk \<Rightarrow> blk \<Rightarrow> it_mem \<Rightarrow> it_mem" where
  "set_bnext b n m = m\<lparr>im_block := (im_block m)(b := (im_block m b)\<lparr>ib_next := n\<rparr>)\<rparr>"

definition it_allocBytes :: "blk \<Rightarrow> int \<Rightarrow> it_writer \<times> it_mem \<Rightarrow> (it_addr \<times> it_writer \<times> it_mem) option" where
  "it_allocBytes b sz wm =
     (case wm of (w, m) \<Rightarrow>
      if iw_tblk w \<noteq> 0 \<and> iw_tblk w \<notin> im_alloc m then None
      else
        let (w, m) =
          (if iw_tblk w = 0 then (w\<lparr>iw_hblk := b, iw_tblk := b, iw_hoff := 0, iw_toff := 0\<rparr>, allocateBlock b sz m)
           else
             let avail = ib_size (im_block m (iw_tblk w)) - iw_toff w in
             if sz > avail then
               (w\<lparr>iw_tblk := b, iw_toff := 0, iw_mlen := iw_mlen w + avail\<rparr>, set_bnext (iw_tblk w) b (allocateBlock b sz m))
             else (w, m))
        in Some ((iw_tblk w, iw_toff w), w\<lparr>iw_toff := iw_toff w + sz, iw_mlen := iw_mlen w + sz\<rparr>, m))"

definition set_hopen :: "it_addr \<Rightarrow> u16 \<Rightarrow> int \<Rightarrow> it_mem \<Rightarrow> it_mem" where
  "set_hopen a ID wid m =
     m\<lparr>im_header := (im_header m)(a := (im_header m a)\<lparr>ih_msgId := ID, ih_writerId := word_of_int wid, ih_length := 0\<rparr>)\<rparr>"

definition itqOpen :: "blk \<Rightarrow> blk \<Rightarrow> u16 \<Rightarrow> int \<Rightarrow> it_writer \<times> it_mem \<Rightarrow> (it_addr \<times> it_writer \<times> it_mem) option" where
  "itqOpen b1 b2 ID SZ wm =
     (case wm of (w, m) \<Rightarrow>
      Option.bind (it_allocBytes b1 sizeof_ItHeader (w\<lparr>iw_mlen := 0\<rparr>, m)) (\<lambda>(header, w, m).
      Option.bind (it_allocBytes b2 SZ (w, set_hopen header ID (iw_id w) m)) (\<lambda>(msg, w, m).
      Some (msg, w\<lparr>iw_toSend := Some header, iw_contents := Some msg\<rparr>, m))))"

definition set_hlength :: "it_addr \<Rightarrow> int \<Rightarrow> it_mem \<Rightarrow> it_mem" where
  "set_hlength a n m = m\<lparr>im_header := (im_header m)(a := (im_header m a)\<lparr>ih_length := word_of_int n\<rparr>)\<rparr>"

definition set_hnext :: "it_addr \<Rightarrow> it_addr option \<Rightarrow> it_mem \<Rightarrow> it_mem" where
  "set_hnext a n m = m\<lparr>im_header := (im_header m)(a := (im_header m a)\<lparr>ih_next := n\<rparr>)\<rparr>"

text \<open>The part of \<open>send\<close> under the lock; the signal to the reader's thread follows it.\<close>

definition itq_send :: "it_writer \<Rightarrow> it_queue \<times> it_mem \<Rightarrow> (it_queue \<times> it_mem) option" where
  "itq_send w qm =
     (case qm of (q, m) \<Rightarrow>
      (case iw_toSend w of None \<Rightarrow> None
       | Some s \<Rightarrow>
           if fst s \<notin> im_alloc m then None
           else
             let m = set_hlength s (iw_mlen w) m in
             (case iq_head q of
                None \<Rightarrow> Some (q\<lparr>iq_head := Some s, iq_tail := Some s\<rparr>, set_hnext s None m)
              | Some _ \<Rightarrow>
                  (case iq_tail q of None \<Rightarrow> None
                   | Some t \<Rightarrow>
                       if fst t \<notin> im_alloc m then None
                       else Some (q\<lparr>iq_tail := Some s\<rparr>, set_hnext s None (set_hnext t (Some s) m))))))"

section \<open>Reading\<close>

definition itq_wait :: "it_queue \<times> it_mem \<Rightarrow> (it_addr \<times> it_queue \<times> it_mem) option" where
  "itq_wait qm =
     (case qm of (q, m) \<Rightarrow>
        (case iq_head q of None \<Rightarrow> None
         | Some header \<Rightarrow>
             if fst header \<notin> im_alloc m then None
             else Some (header, q\<lparr>iq_head := ih_next (im_header m header)\<rparr>, set_hnext header None m)))"

definition itq_poll :: "it_queue \<Rightarrow> bool" where
  "itq_poll q = (iq_head q \<noteq> None)"

text \<open>A block that may be read: not null and not freed.\<close>

definition live :: "it_mem \<Rightarrow> blk \<Rightarrow> bool" where
  "live m b = (b \<noteq> 0 \<and> b \<in> im_alloc m)"

text \<open>Where \<open>n\<close> bytes are found from a position on; the next block when they do not fit.\<close>

definition skip_to :: "it_mem \<Rightarrow> int \<Rightarrow> it_addr \<Rightarrow> it_addr option" where
  "skip_to m n p =
     (case p of (hblk, off) \<Rightarrow>
      if \<not> live m hblk then None
      else if off + n > ib_size (im_block m hblk) then Some (ib_next (im_block m hblk), 0)
      else Some (hblk, off))"

definition itqRead :: "it_queue \<Rightarrow> it_mem \<Rightarrow> it_addr \<Rightarrow> int \<Rightarrow> it_addr option" where
  "itqRead q m header SZ =
     (if fst header \<notin> im_alloc m then None
      else case writer_at q (unat (ih_writerId (im_header m header))) of None \<Rightarrow> None
      | Some w \<Rightarrow>
          Option.bind (skip_to m sizeof_ItHeader (iw_hblk w, iw_hoff w)) (\<lambda>(hblk, off).
          Option.bind (skip_to m SZ (hblk, off + sizeof_ItHeader)) (\<lambda>(hblk, off).
          if live m hblk then Some (hblk, off) else None)))"

text \<open>The loop of \<open>release\<close>: whole blocks are popped and freed; \<open>remaining\<close> is 0 after the last one.\<close>

partial_function (option) release_loop :: "int \<Rightarrow> int \<Rightarrow> it_writer \<times> it_mem \<Rightarrow> (int \<times> it_writer \<times> it_mem) option" where
  [code]: "release_loop len remaining wm =
     (case wm of (w, m) \<Rightarrow>
      if len > 0 \<and> len \<ge> remaining then
        if \<not> live m (iw_hblk w) then None
        else
          let pop = iw_hblk w;
              w = w\<lparr>iw_hblk := ib_next (im_block m pop), iw_hoff := 0\<rparr>;
              w = (if iw_hblk w = 0 then w\<lparr>iw_tblk := 0, iw_toff := 0\<rparr> else w);
              m = freeBlock pop m
          in release_loop (len - remaining) (if iw_hblk w \<noteq> 0 then ib_size (im_block m (iw_hblk w)) else 0) (w, m)
      else Some (len, w, m))"

definition release_writer :: "int \<Rightarrow> it_writer \<times> it_mem \<Rightarrow> (it_writer \<times> it_mem) option" where
  "release_writer len wm =
     (case wm of (w, m) \<Rightarrow>
      if \<not> live m (iw_hblk w) then None
      else Option.bind (release_loop len (ib_size (im_block m (iw_hblk w)) - iw_hoff w) (w, m)) (\<lambda>(len, w, m).
        Some (w\<lparr>iw_hoff := iw_hoff w + len\<rparr>, m)))"

definition it_release :: "it_addr \<Rightarrow> it_queue \<times> it_mem \<Rightarrow> (it_queue \<times> it_mem) option" where
  "it_release header qm =
     (case qm of (q, m) \<Rightarrow>
      if fst header \<notin> im_alloc m then None
      else
        let i = unat (ih_writerId (im_header m header)) in
        case writer_at q i of None \<Rightarrow> None
        | Some w \<Rightarrow> Option.bind (release_writer (sint (ih_length (im_header m header))) (w, m)) (\<lambda>(w, m).
            Some (set_writer i w q, m)))"

end
