(* ===== verification/Genf_Itq_Layout.thy ===== *)
theory Genf_Itq_Layout
  imports Genf_Itq
begin

text \<open>
  How a writer's messages lie in its blocks. A message is a header followed by pieces of memory; a
  piece that does not fit into what is left of a block goes to the next one, and what was left counts
  as part of the message. The operations of a writer are proved against this layout: allocation
  extends it at the end, release takes the first message off.
\<close>

section \<open>Layouts\<close>

text \<open>
  The blocks from a position on, with their sizes; where a piece of \<open>n\<close> bytes goes when the position is
  \<open>off\<close> in the first of them, and how many bytes that takes, padding included.
\<close>

type_synonym blocks = "(blk \<times> int) list"

fun blk_chain :: "it_mem \<Rightarrow> blk \<Rightarrow> blocks \<Rightarrow> bool" where
  "blk_chain m p [] = (p = 0)"
| "blk_chain m p ((b, s) # bs) =
     (p = b \<and> b \<noteq> 0 \<and> b \<in> im_alloc m \<and> ib_size (im_block m b) = s \<and> blk_chain m (ib_next (im_block m b)) bs)"

fun lay1 :: "blocks \<Rightarrow> int \<Rightarrow> int \<Rightarrow> (it_addr \<times> blocks \<times> int \<times> int) option" where
  "lay1 [] off n = None"
| "lay1 ((b, s) # bs) off n =
     (if n \<le> s - off then Some ((b, off), (b, s) # bs, off + n, n)
      else case bs of [] \<Rightarrow> None
      | (b', s') # _ \<Rightarrow> if n \<le> s' then Some ((b', 0), bs, n, s - off + n) else None)"

fun layout :: "blocks \<Rightarrow> int \<Rightarrow> int list \<Rightarrow> (it_addr list \<times> blocks \<times> int \<times> int) option" where
  "layout bs off [] = Some ([], bs, off, 0)"
| "layout bs off (n # ns) =
     (case lay1 bs off n of None \<Rightarrow> None
      | Some (a, bs', off', c) \<Rightarrow>
          (case layout bs' off' ns of None \<Rightarrow> None
           | Some (as, bs'', off'', c') \<Rightarrow> Some (a # as, bs'', off'', c + c')))"

lemma lay1_cases:
  assumes "lay1 bs off n = Some (a, bs', off', c)"
  obtains (here) b s bs1 where "bs = (b, s) # bs1" "n \<le> s - off" "a = (b, off)" "bs' = (b, s) # bs1" "off' = off + n" "c = n"
  | (beyond) b s b' s' bs1 where "bs = (b, s) # (b', s') # bs1" "n > s - off" "n \<le> s'" "a = (b', 0)" "bs' = (b', s') # bs1" "off' = n" "c = s - off + n"
proof -
  obtain b s bs1 where bs: "bs = (b, s) # bs1" using assms by (cases bs) auto
  show ?thesis
  proof (cases "n \<le> s - off")
    case True
    show ?thesis by (rule here [of b s bs1]) (use assms bs True in auto)
  next
    case False
    then obtain b' s' bs2 where bs1: "bs1 = (b', s') # bs2" using assms bs by (cases bs1) auto
    then have "n \<le> s'" using assms bs False by (simp split: if_splits)
    then show ?thesis by (intro beyond [of b s b' s' bs2]) (use assms bs bs1 False in auto)
  qed
qed

lemma layout_Cons:
  assumes "layout bs off (n # ns) = Some (as, bs2, off2, c)"
  obtains a as' bs1 off1 c1 c2 where "lay1 bs off n = Some (a, bs1, off1, c1)" "layout bs1 off1 ns = Some (as', bs2, off2, c2)"
    "as = a # as'" "c = c1 + c2"
  using assms by (auto split: option.splits prod.splits)

lemma layout_append:
  "layout bs off (ns @ ks) =
     (case layout bs off ns of None \<Rightarrow> None
      | Some (as, bs', off', c) \<Rightarrow>
          (case layout bs' off' ks of None \<Rightarrow> None
           | Some (as', bs'', off'', c') \<Rightarrow> Some (as @ as', bs'', off'', c + c')))"
  by (induction ns arbitrary: bs off) (auto split: option.splits)

lemma layout_length: "layout bs off ns = Some (as, bs', off', c) \<Longrightarrow> length as = length ns"
  by (induction ns arbitrary: bs off as c) (auto split: option.splits)

lemma lay1_extend:
  assumes "lay1 bs off n = Some (a, bs', off', c)"
  shows "lay1 (bs @ ext) off n = Some (a, bs' @ ext, off', c)"
  using assms by (cases rule: lay1_cases) simp_all

lemma layout_extend: "layout bs off ns = Some (as, bs', off', c) \<Longrightarrow> layout (bs @ ext) off ns = Some (as, bs' @ ext, off', c)"
proof (induction ns arbitrary: bs off as c)
  case (Cons n ns)
  obtain a as' bs1 off1 c1 c2 where l: "lay1 bs off n = Some (a, bs1, off1, c1)" "layout bs1 off1 ns = Some (as', bs', off', c2)"
    "as = a # as'" "c = c1 + c2" by (rule layout_Cons [OF Cons.prems])
  show ?case using lay1_extend [OF l(1)] Cons.IH [OF l(2)] l(3,4) by simp
qed simp

text \<open>A position at the very end of a block is as good as the start of the next.\<close>

lemma layout_normal:
  assumes "layout ((b, s) # bs) s (n # ns) = Some r" "0 < n"
  shows "layout bs 0 (n # ns) = Some r"
proof -
  obtain as bs2 off2 c where r: "r = (as, bs2, off2, c)" by (cases r)
  obtain a as' bs1 off1 c1 c2 where l: "lay1 ((b, s) # bs) s n = Some (a, bs1, off1, c1)" "layout bs1 off1 ns = Some (as', bs2, off2, c2)"
    "as = a # as'" "c = c1 + c2" by (rule layout_Cons [OF assms(1)[unfolded r]])
  have "lay1 bs 0 n = Some (a, bs1, off1, c1)" using l(1) by (cases rule: lay1_cases) (use assms(2) in simp_all)
  then show ?thesis using l r by simp
qed

text \<open>The bytes a layout takes are the distance from its start to its end.\<close>

definition total_size :: "blocks \<Rightarrow> int" where
  "total_size bs = sum_list (map snd bs)"

lemma total_size_simps [simp]: "total_size [] = 0" "total_size (x # bs) = snd x + total_size bs" "total_size (bs @ cs) = total_size bs + total_size cs"
  by (simp_all add: total_size_def)

lemma lay1_distance:
  assumes "lay1 bs off n = Some (a, bs', off', c)"
  shows "\<exists>pre. bs = pre @ bs' \<and> bs' \<noteq> [] \<and> c = total_size pre + off' - off \<and> off' \<le> snd (hd bs')"
  using assms
proof (cases rule: lay1_cases)
  case (here b s bs1)
  then show ?thesis by (intro exI [of _ "[]"]) simp
next
  case (beyond b s b' s' bs1)
  then show ?thesis by (intro exI [of _ "[(b, s)]"]) simp
qed

lemma layout_distance:
  assumes "layout bs off ns = Some (as, bs', off', c)" "ns \<noteq> []"
  shows "\<exists>pre. bs = pre @ bs' \<and> bs' \<noteq> [] \<and> c = total_size pre + off' - off \<and> off' \<le> snd (hd bs')"
  using assms
proof (induction ns arbitrary: bs off as c)
  case (Cons n ns)
  obtain a as' bs1 off1 c1 c2 where l: "lay1 bs off n = Some (a, bs1, off1, c1)" "layout bs1 off1 ns = Some (as', bs', off', c2)" "c = c1 + c2"
    using layout_Cons [OF Cons.prems(1)] by metis
  obtain pre1 where p1: "bs = pre1 @ bs1" "bs1 \<noteq> []" "c1 = total_size pre1 + off1 - off" "off1 \<le> snd (hd bs1)" using lay1_distance [OF l(1)] by blast
  show ?case
  proof (cases "ns = []")
    case True
    then show ?thesis using l p1 by (intro exI [of _ pre1]) simp
  next
    case False
    obtain pre2 where "bs1 = pre2 @ bs'" "bs' \<noteq> []" "c2 = total_size pre2 + off' - off1" "off' \<le> snd (hd bs')" using Cons.IH [OF l(2) False] by blast
    then show ?thesis using p1 l(3) by (intro exI [of _ "pre1 @ pre2"]) simp
  qed
qed simp

text \<open>The bytes a layout can still use, and the bytes of a piece; each piece uses up its own.\<close>

definition ahead :: "blocks \<Rightarrow> int \<Rightarrow> it_addr set" where
  "ahead bs off = (if bs = [] then {} else {(b, o'). b = fst (hd bs) \<and> off \<le> o' \<or> b \<in> fst ` set (tl bs) \<and> 0 \<le> o'})"

definition bytes :: "it_addr \<times> int \<Rightarrow> it_addr set" where
  "bytes p = {(b, o'). b = fst (fst p) \<and> snd (fst p) \<le> o' \<and> o' < snd (fst p) + snd p}"

lemma lay1_ahead:
  assumes "lay1 bs off n = Some (a, bs', off', c)" "0 < n" "0 \<le> off" "distinct (map fst bs)"
  shows "bytes (a, n) \<subseteq> ahead bs off" "bytes (a, n) \<inter> ahead bs' off' = {}" "ahead bs' off' \<subseteq> ahead bs off"
    "distinct (map fst bs')" "0 \<le> off'"
  using assms(1) by (cases rule: lay1_cases; use assms(2-4) in \<open>force simp: ahead_def bytes_def\<close>)+

fun disjoint_pieces :: "(it_addr \<times> int) list \<Rightarrow> bool" where
  "disjoint_pieces [] = True"
| "disjoint_pieces (p # ps) = ((\<forall>q \<in> set ps. bytes p \<inter> bytes q = {}) \<and> disjoint_pieces ps)"

lemma layout_ahead:
  assumes "layout bs off ns = Some (as, bs', off', c)" "\<forall>n \<in> set ns. 0 < n" "0 \<le> off" "distinct (map fst bs)"
  shows "(\<forall>p \<in> set (zip as ns). bytes p \<subseteq> ahead bs off \<and> bytes p \<inter> ahead bs' off' = {}) \<and> disjoint_pieces (zip as ns) \<and>
    ahead bs' off' \<subseteq> ahead bs off \<and> distinct (map fst bs') \<and> 0 \<le> off'"
  using assms
proof (induction ns arbitrary: bs off as c)
  case (Cons n ns)
  obtain a as' bs1 off1 c1 c2 where l: "lay1 bs off n = Some (a, bs1, off1, c1)" "layout bs1 off1 ns = Some (as', bs', off', c2)" "as = a # as'"
    using layout_Cons [OF Cons.prems(1)] by metis
  have n: "0 < n" using Cons.prems(2) by simp
  note la = lay1_ahead [OF l(1) n Cons.prems(3,4)]
  have ih: "(\<forall>p \<in> set (zip as' ns). bytes p \<subseteq> ahead bs1 off1 \<and> bytes p \<inter> ahead bs' off' = {}) \<and> disjoint_pieces (zip as' ns) \<and>
    ahead bs' off' \<subseteq> ahead bs1 off1 \<and> distinct (map fst bs') \<and> 0 \<le> off'"
    by (rule Cons.IH [OF l(2) _ la(5) la(4)]) (use Cons.prems(2) in simp)
  have "bytes (a, n) \<inter> bytes p = {}" if "p \<in> set (zip as' ns)" for p using ih la(2) that by blast
  moreover have "bytes (a, n) \<inter> ahead bs' off' = {}" "ahead bs' off' \<subseteq> ahead bs off" using la ih by blast+
  moreover have "bytes p \<subseteq> ahead bs off" if "p \<in> set (zip as' ns)" for p using ih la(3) that by blast
  ultimately show ?case using la(1) ih l(3) by simp
qed simp

section \<open>Messages\<close>

text \<open>A message: its id, its header, and its pieces with their sizes, the struct first.\<close>

record it_msg =
  mg_id :: u16
  mg_header :: it_addr
  mg_pieces :: "(it_addr \<times> int) list"

definition msg_sizes :: "it_msg \<Rightarrow> int list" where
  "msg_sizes g = sizeof_ItHeader # map snd (mg_pieces g)"

definition msg_addrs :: "it_msg \<Rightarrow> it_addr list" where
  "msg_addrs g = mg_header g # map fst (mg_pieces g)"

definition msg_memory :: "it_msg \<Rightarrow> (it_addr \<times> int) list" where
  "msg_memory g = (mg_header g, sizeof_ItHeader) # mg_pieces g"

text \<open>The messages lie one behind the other; the first component is their lengths.\<close>

fun lay_msgs :: "blocks \<Rightarrow> int \<Rightarrow> it_msg list \<Rightarrow> (int list \<times> blocks \<times> int) option" where
  "lay_msgs bs off [] = Some ([], bs, off)"
| "lay_msgs bs off (g # gs) =
     (case layout bs off (msg_sizes g) of None \<Rightarrow> None
      | Some (as, bs1, off1, c) \<Rightarrow>
          if as = msg_addrs g then
            (case lay_msgs bs1 off1 gs of None \<Rightarrow> None
             | Some (cs, bs2, off2) \<Rightarrow> Some (c # cs, bs2, off2))
          else None)"

lemma lay_msgs_Cons:
  assumes "lay_msgs bs off (g # gs) = Some (cs, bs2, off2)"
  obtains c cs' bs1 off1 where "layout bs off (msg_sizes g) = Some (msg_addrs g, bs1, off1, c)" "lay_msgs bs1 off1 gs = Some (cs', bs2, off2)" "cs = c # cs'"
  using assms by (auto split: option.splits prod.splits if_splits)

lemma lay_msgs_append:
  "lay_msgs bs off (gs @ hs) =
     (case lay_msgs bs off gs of None \<Rightarrow> None
      | Some (cs, bs', off') \<Rightarrow>
          (case lay_msgs bs' off' hs of None \<Rightarrow> None
           | Some (cs', bs'', off'') \<Rightarrow> Some (cs @ cs', bs'', off'')))"
  by (induction gs arbitrary: bs off) (auto split: option.splits)

lemma lay_msgs_extend: "lay_msgs bs off gs = Some (cs, bs', off') \<Longrightarrow> lay_msgs (bs @ ext) off gs = Some (cs, bs' @ ext, off')"
proof (induction gs arbitrary: bs off cs)
  case (Cons g gs)
  obtain c cs' bs1 off1 where l: "layout bs off (msg_sizes g) = Some (msg_addrs g, bs1, off1, c)" "lay_msgs bs1 off1 gs = Some (cs', bs', off')" "cs = c # cs'"
    by (rule lay_msgs_Cons [OF Cons.prems])
  show ?case using layout_extend [OF l(1)] Cons.IH [OF l(2)] l(3) by simp
qed simp

lemma lay_msgs_length: "lay_msgs bs off gs = Some (cs, bs', off') \<Longrightarrow> length cs = length gs"
  by (induction gs arbitrary: bs off cs) (auto split: option.splits if_splits)

lemma lay_msgs_normal:
  assumes "lay_msgs ((b, s) # bs) s (g # gs) = Some r"
  shows "lay_msgs bs 0 (g # gs) = Some r"
proof -
  obtain cs bs2 off2 where r: "r = (cs, bs2, off2)" by (cases r)
  obtain c cs' bs1 off1 where l: "layout ((b, s) # bs) s (msg_sizes g) = Some (msg_addrs g, bs1, off1, c)" "lay_msgs bs1 off1 gs = Some (cs', bs2, off2)" "cs = c # cs'"
    by (rule lay_msgs_Cons [OF assms[unfolded r]])
  have "layout bs 0 (msg_sizes g) = Some (msg_addrs g, bs1, off1, c)" using l(1) layout_normal by (simp add: msg_sizes_def del: layout.simps)
  then show ?thesis using l r by simp
qed

text \<open>Adding a piece to the last message.\<close>

lemma msg_sizes_more:
  "msg_sizes (g\<lparr>mg_pieces := mg_pieces g @ [(a, n)]\<rparr>) = msg_sizes g @ [n]"
  "msg_addrs (g\<lparr>mg_pieces := mg_pieces g @ [(a, n)]\<rparr>) = msg_addrs g @ [a]"
  by (simp_all add: msg_sizes_def msg_addrs_def)

lemma lay_msgs_more:
  assumes l: "lay_msgs bs off (gs @ [g]) = Some (cs @ [c], bs1, off1)" "length cs = length gs" and a: "lay1 bs1 off1 n = Some (a, bs2, off2, c2)"
  shows "lay_msgs bs off (gs @ [g\<lparr>mg_pieces := mg_pieces g @ [(a, n)]\<rparr>]) = Some (cs @ [c + c2], bs2, off2)"
proof -
  obtain cs0 bs0 off0 where l0: "lay_msgs bs off gs = Some (cs0, bs0, off0)" using l(1) by (auto simp: lay_msgs_append split: option.splits)
  moreover have lg: "lay_msgs bs0 off0 [g] = Some ([c], bs1, off1)" "cs0 = cs" using l l0 lay_msgs_length [OF l0] by (auto simp: lay_msgs_append split: option.splits if_splits)
  moreover have "layout bs0 off0 (msg_sizes g) = Some (msg_addrs g, bs1, off1, c)" by (rule lay_msgs_Cons [OF lg(1)]) simp
  then have "lay_msgs bs0 off0 [g\<lparr>mg_pieces := mg_pieces g @ [(a, n)]\<rparr>] = Some ([c + c2], bs2, off2)"
    using a by (simp add: msg_sizes_more layout_append)
  ultimately show ?thesis by (simp add: lay_msgs_append)
qed

text \<open>The memory of the messages is pairwise disjoint, and it is in the blocks.\<close>

lemma zip_memory: "zip (msg_addrs g) (msg_sizes g) = msg_memory g"
  by (simp add: msg_addrs_def msg_sizes_def msg_memory_def zip_map_fst_snd)

lemma disjoint_pieces_append:
  "disjoint_pieces (ps @ qs) \<longleftrightarrow> disjoint_pieces ps \<and> disjoint_pieces qs \<and> (\<forall>p \<in> set ps. \<forall>q \<in> set qs. bytes p \<inter> bytes q = {})"
  by (induction ps) auto

lemma lay_msgs_disjoint:
  assumes "lay_msgs bs off gs = Some (cs, bs', off')" "\<forall>g \<in> set gs. \<forall>p \<in> set (mg_pieces g). 0 < snd p" "0 \<le> off" "distinct (map fst bs)"
  shows "disjoint_pieces (concat (map msg_memory gs)) \<and> (\<forall>p \<in> set (concat (map msg_memory gs)). bytes p \<subseteq> ahead bs off \<and> bytes p \<inter> ahead bs' off' = {}) \<and>
    ahead bs' off' \<subseteq> ahead bs off"
  using assms
proof (induction gs arbitrary: bs off cs)
  case (Cons g gs)
  obtain c cs' bs1 off1 where l: "layout bs off (msg_sizes g) = Some (msg_addrs g, bs1, off1, c)" "lay_msgs bs1 off1 gs = Some (cs', bs', off')" "cs = c # cs'"
    by (rule lay_msgs_Cons [OF Cons.prems(1)])
  have "\<forall>n \<in> set (msg_sizes g). 0 < n" using Cons.prems(2) by (auto simp: msg_sizes_def)
  note la = layout_ahead [OF l(1) this Cons.prems(3,4), unfolded zip_memory]
  have ih: "disjoint_pieces (concat (map msg_memory gs)) \<and> (\<forall>p \<in> set (concat (map msg_memory gs)). bytes p \<subseteq> ahead bs1 off1 \<and> bytes p \<inter> ahead bs' off' = {}) \<and>
    ahead bs' off' \<subseteq> ahead bs1 off1" using Cons.IH [OF l(2)] Cons.prems(2) la by simp
  let ?new = "msg_memory g" and ?old = "concat (map msg_memory gs)"
  have "bytes p \<inter> bytes q = {}" if "p \<in> set ?new" "q \<in> set ?old" for p q using la ih that by blast
  moreover have "bytes p \<subseteq> ahead bs off \<and> bytes p \<inter> ahead bs' off' = {}" if "p \<in> set ?new \<or> p \<in> set ?old" for p using la ih that by blast
  moreover have "ahead bs' off' \<subseteq> ahead bs off" using la ih by blast
  moreover have "concat (map msg_memory (g # gs)) = ?new @ ?old" by simp
  ultimately show ?case using la ih unfolding disjoint_pieces_append set_append Un_iff
    by (metis (no_types, lifting) disjoint_pieces_append set_append Un_iff)
qed simp

end
