(* ===== verification/Genf_Itq_Writer.thy ===== *)
theory Genf_Itq_Writer
  imports Genf_Itq_Layout
begin

text \<open>What the operations of \<open>genf/itq.cc\<close> do to the blocks of one writer.\<close>

section \<open>The blocks of a writer\<close>

definition tailblks :: "blocks \<Rightarrow> blocks" where
  "tailblks bs = drop (length bs - 1) bs"

lemma tailblks_simps [simp]: "tailblks [] = []" "tailblks (bs @ [x]) = [x]" "tailblks [x] = [x]" "tailblks (x # y # bs) = tailblks (y # bs)"
  by (simp_all add: tailblks_def)

lemma tailblks_append: "cs \<noteq> [] \<Longrightarrow> tailblks (bs @ cs) = tailblks cs"
  by (cases cs rule: rev_cases) (simp_all flip: append_assoc)

definition wcore :: "it_writer \<Rightarrow> it_mem \<Rightarrow> blocks \<Rightarrow> bool" where
  "wcore w m bs =
     (blk_chain m (iw_hblk w) bs \<and> distinct (map fst bs) \<and> (\<forall>x \<in> set bs. 0 < snd x) \<and>
      iw_tblk w = (if bs = [] then 0 else fst (last bs)) \<and> 0 \<le> iw_hoff w \<and> 0 \<le> iw_toff w \<and>
      (bs = [] \<longrightarrow> iw_hoff w = 0 \<and> iw_toff w = 0) \<and>
      (bs \<noteq> [] \<longrightarrow> iw_hoff w < snd (hd bs) \<and> iw_toff w \<le> snd (last bs)))"

lemma chain_alloc: "blk_chain m p bs \<Longrightarrow> fst ` set bs \<subseteq> im_alloc m - {0}"
  by (induction m p bs rule: blk_chain.induct) auto

lemma chain_size: "blk_chain m p bs \<Longrightarrow> (b, s) \<in> set bs \<Longrightarrow> ib_size (im_block m b) = s"
  by (induction m p bs rule: blk_chain.induct) auto

lemma chain_cong:
  assumes "\<And>b. b \<in> fst ` set bs \<Longrightarrow> (b \<in> im_alloc m' \<longleftrightarrow> b \<in> im_alloc m) \<and> im_block m' b = im_block m b"
  shows "blk_chain m' p bs = blk_chain m p bs"
  using assms by (induction m p bs rule: blk_chain.induct) auto

text \<open>\<open>wcore\<close> depends on nothing else of the writer and the memory.\<close>

lemma wcore_cong:
  assumes "\<And>b. b \<in> fst ` set bs \<Longrightarrow> (b \<in> im_alloc m' \<longleftrightarrow> b \<in> im_alloc m) \<and> im_block m' b = im_block m b"
    and "iw_hblk w' = iw_hblk w" "iw_tblk w' = iw_tblk w" "iw_hoff w' = iw_hoff w" "iw_toff w' = iw_toff w"
  shows "wcore w' m' bs = wcore w m bs"
  using chain_cong [of bs m' m, OF assms(1)] assms(2-) by (simp add: wcore_def)

lemma set_bnext_simps [simp]:
  "im_alloc (set_bnext b n m) = im_alloc m" "im_header (set_bnext b n m) = im_header m"
  "im_block (set_bnext b n m) x = (if x = b then (im_block m b)\<lparr>ib_next := n\<rparr> else im_block m x)"
  by (simp_all add: set_bnext_def)

lemma allocateBlock_simps [simp]:
  "im_alloc (allocateBlock b n m) = insert b (im_alloc m)" "im_header (allocateBlock b n m) = im_header m"
  "im_block (allocateBlock b n m) x = (if x = b then \<lparr>ib_size = max n 4098, ib_next = 0\<rparr> else im_block m x)"
  by (simp_all add: allocateBlock_def Let_def max_def)

lemma chain_link:
  assumes "blk_chain m p (bs @ [(t, s)])" "distinct (map fst (bs @ [(t, s)]))" "b \<notin> im_alloc m" "b \<noteq> 0"
  shows "blk_chain (set_bnext t b (allocateBlock b n m)) p (bs @ [(t, s), (b, max n 4098)])"
  using assms
proof (induction bs arbitrary: p)
  case (Cons x bs)
  obtain b0 s0 where x: "x = (b0, s0)" by fastforce
  have "b0 \<noteq> t" "b0 \<noteq> b" using Cons.prems x by auto
  then show ?case using Cons x by simp
qed auto

section \<open>Allocation\<close>

lemma it_allocBytes_ok:
  assumes core: "wcore w m bs" and n: "0 < n" and b: "b \<noteq> 0" "b \<notin> im_alloc m"
  obtains a w' m' ext c where "it_allocBytes b n (w, m) = Some (a, w', m')" "wcore w' m' (bs @ ext)"
    "lay1 (tailblks bs @ ext) (iw_toff w) n = Some (a, tailblks (bs @ ext), iw_toff w', c)"
    "w' = w\<lparr>iw_hblk := iw_hblk w', iw_tblk := iw_tblk w', iw_toff := iw_toff w', iw_mlen := iw_mlen w + c\<rparr>"
    "im_header m' = im_header m" "im_alloc m' = im_alloc m \<union> fst ` set ext" "fst ` set ext \<subseteq> {b}"
    "\<And>x. x \<notin> fst ` set (bs @ ext) \<Longrightarrow> im_block m' x = im_block m x"
proof (cases bs rule: rev_cases)
  case Nil
  have w: "iw_tblk w = 0" "iw_hoff w = 0" "iw_toff w = 0" using core Nil by (auto simp: wcore_def)
  show ?thesis
    by (rule that [of "(b, 0)" "w\<lparr>iw_hblk := b, iw_tblk := b, iw_hoff := 0, iw_toff := n, iw_mlen := iw_mlen w + n\<rparr>" "allocateBlock b n m" "[(b, max n 4098)]" n])
      (use w n b Nil in \<open>simp_all add: it_allocBytes_def wcore_def\<close>)
next
  case (snoc bs0 x)
  obtain t s where x: "x = (t, s)" by fastforce
  have chain: "blk_chain m (iw_hblk w) (bs0 @ [(t, s)])" "distinct (map fst (bs0 @ [(t, s)]))" using core snoc x by (simp_all add: wcore_def)
  have t: "iw_tblk w = t" "t \<noteq> 0" "t \<in> im_alloc m" "ib_size (im_block m t) = s" "0 \<le> iw_toff w" "iw_toff w \<le> s"
    using core snoc x chain_alloc [OF chain(1)] chain_size [OF chain(1)] by (auto simp: wcore_def)
  show ?thesis
  proof (cases "n > s - iw_toff w")
    case False
    show ?thesis
      by (rule that [of "(t, iw_toff w)" "w\<lparr>iw_toff := iw_toff w + n, iw_mlen := iw_mlen w + n\<rparr>" m "[]" n])
        (use False t n core snoc x in \<open>simp_all add: it_allocBytes_def Let_def wcore_def\<close>)
  next
    case True
    have bb: "b \<notin> fst ` set bs" using chain_alloc [OF chain(1)] b snoc x by auto
    let ?m = "set_bnext t b (allocateBlock b n m)"
    have "blk_chain ?m (iw_hblk w) (bs @ [(b, max n 4098)])" using chain_link [OF chain b(2,1)] snoc x by simp
    then have "wcore (w\<lparr>iw_tblk := b, iw_toff := n, iw_mlen := iw_mlen w + (s - iw_toff w + n)\<rparr>) ?m (bs @ [(b, max n 4098)])"
      using core bb n snoc by (auto simp: wcore_def hd_append)
    moreover have "it_allocBytes b n (w, m) = Some ((b, 0), w\<lparr>iw_tblk := b, iw_toff := n, iw_mlen := iw_mlen w + (s - iw_toff w + n)\<rparr>, ?m)"
      using True t by (simp add: it_allocBytes_def Let_def)
    moreover have "im_block ?m y = im_block m y" if "y \<notin> fst ` set (bs @ [(b, max n 4098)])" for y using that snoc x by auto
    ultimately show ?thesis
      by (intro that [of "(b, 0)" "w\<lparr>iw_tblk := b, iw_toff := n, iw_mlen := iw_mlen w + (s - iw_toff w + n)\<rparr>" ?m "[(b, max n 4098)]" "s - iw_toff w + n"])
        (use True snoc x t n in \<open>simp_all add: tailblks_append\<close>)
  qed
qed


section \<open>The messages of a writer\<close>

text \<open>
  The writer's messages: those sent and not yet released, whose length is in the header, and the one
  that is open, whose length so far is \<open>mlen\<close>. Together they fill the blocks from the head position to
  the tail position.
\<close>

definition header_ok :: "it_mem \<Rightarrow> int \<Rightarrow> it_msg \<Rightarrow> bool" where
  "header_ok m i g = (ih_msgId (im_header m (mg_header g)) = mg_id g \<and> ih_writerId (im_header m (mg_header g)) = word_of_int i)"

definition sent_ok :: "it_mem \<Rightarrow> it_msg \<Rightarrow> int \<Rightarrow> bool" where
  "sent_ok m g c = (c < 2 ^ 31 \<and> ih_length (im_header m (mg_header g)) = word_of_int c)"

definition sized :: "it_msg \<Rightarrow> bool" where
  "sized g = (mg_pieces g \<noteq> [] \<and> (\<forall>p \<in> set (mg_pieces g). 0 < snd p))"

definition open_ok :: "it_writer \<Rightarrow> blocks \<Rightarrow> int \<Rightarrow> it_msg option \<Rightarrow> blocks \<Rightarrow> bool" where
  "open_ok w bs1 off1 opn end_bs =
     (case opn of None \<Rightarrow> bs1 = end_bs \<and> off1 = iw_toff w
      | Some g \<Rightarrow> lay_msgs bs1 off1 [g] = Some ([iw_mlen w], end_bs, iw_toff w) \<and> iw_toSend w = Some (mg_header g))"

definition writer_inv :: "it_writer \<Rightarrow> it_mem \<Rightarrow> blocks \<Rightarrow> it_msg list \<Rightarrow> it_msg option \<Rightarrow> bool" where
  "writer_inv w m bs sent opn =
     (wcore w m bs \<and> (\<forall>g \<in> set sent \<union> set_option opn. header_ok m (iw_id w) g \<and> sized g) \<and>
      (\<exists>cs bs1 off1. lay_msgs bs (iw_hoff w) sent = Some (cs, bs1, off1) \<and> list_all2 (sent_ok m) sent cs \<and>
         open_ok w bs1 off1 opn (tailblks bs)))"

lemma writer_inv_lay:
  assumes "writer_inv w m bs sent opn"
  shows "\<exists>cs. lay_msgs bs (iw_hoff w) (sent @ (case opn of None \<Rightarrow> [] | Some g \<Rightarrow> [g])) = Some (cs, tailblks bs, iw_toff w)"
  using assms by (auto simp: writer_inv_def open_ok_def lay_msgs_append split: option.splits)

abbreviation all_msgs :: "it_msg list \<Rightarrow> it_msg option \<Rightarrow> it_msg list" where
  "all_msgs sent opn \<equiv> sent @ (case opn of None \<Rightarrow> [] | Some g \<Rightarrow> [g])"

lemma ahead_blocks: "x \<in> ahead bs off \<Longrightarrow> fst x \<in> fst ` set bs"
  by (cases bs) (force simp: ahead_def split: if_splits)+

lemma start_in_bytes: "0 < snd p \<Longrightarrow> fst p \<in> bytes p"
  by (cases p; cases "fst p") (auto simp: bytes_def)

text \<open>The memory of the messages is in the blocks and pairwise disjoint.\<close>

lemma writer_inv_memory:
  assumes "writer_inv w m bs sent opn"
  shows "disjoint_pieces (concat (map msg_memory (all_msgs sent opn)))"
    and "\<And>p. p \<in> set (concat (map msg_memory (all_msgs sent opn))) \<Longrightarrow> fst (fst p) \<in> fst ` set bs"
    and "\<And>p. p \<in> set (concat (map msg_memory (all_msgs sent opn))) \<Longrightarrow> 0 < snd p"
proof -
  obtain cs where l: "lay_msgs bs (iw_hoff w) (all_msgs sent opn) = Some (cs, tailblks bs, iw_toff w)" using writer_inv_lay [OF assms] by blast
  have c: "wcore w m bs" using assms by (simp add: writer_inv_def)
  have z: "\<forall>g \<in> set (all_msgs sent opn). \<forall>p \<in> set (mg_pieces g). 0 < snd p" using assms by (auto simp: writer_inv_def sized_def split: option.splits)
  note d = lay_msgs_disjoint [OF l z]
  show "disjoint_pieces (concat (map msg_memory (all_msgs sent opn)))" using d c by (simp add: wcore_def)
  show pos: "0 < snd p" if "p \<in> set (concat (map msg_memory (all_msgs sent opn)))" for p
    using that z by (auto simp: msg_memory_def)
  show "fst (fst p) \<in> fst ` set bs" if p: "p \<in> set (concat (map msg_memory (all_msgs sent opn)))" for p
  proof -
    have "fst p \<in> bytes p" by (rule start_in_bytes [OF pos [OF p]])
    then have "fst p \<in> ahead bs (iw_hoff w)" using d c p by (simp add: wcore_def) blast
    then show ?thesis by (rule ahead_blocks)
  qed
qed

lemma header_in_memory: "g \<in> set gs \<Longrightarrow> (mg_header g, 16) \<in> set (concat (map msg_memory gs))"
  by (auto simp: msg_memory_def)

lemma writer_inv_header:
  assumes "writer_inv w m bs sent opn" "g \<in> set (all_msgs sent opn)"
  shows "fst (mg_header g) \<in> fst ` set bs"
  using writer_inv_memory(2) [OF assms(1) header_in_memory [OF assms(2)]] by simp

lemma disjoint_headers:
  assumes "disjoint_pieces (concat (map msg_memory gs))"
  shows "distinct (map mg_header gs)"
  using assms
proof (induction gs)
  case (Cons g gs)
  have "mg_header g \<noteq> mg_header h" if "h \<in> set gs" for h
  proof
    assume eq: "mg_header g = mg_header h"
    have "bytes (mg_header g, 16) \<inter> bytes (mg_header h, 16) = {}"
      using Cons.prems header_in_memory [OF that] by (auto simp: disjoint_pieces_append msg_memory_def)
    moreover have "mg_header g \<in> bytes (mg_header g, 16)" using start_in_bytes [of "(mg_header g, 16)"] by simp
    ultimately show False using eq by auto
  qed
  then show ?case using Cons by (auto simp: disjoint_pieces_append)
qed simp

text \<open>The invariant depends on the blocks of the writer and the headers of its messages, but for their links.\<close>

lemma writer_inv_cong:
  assumes inv: "writer_inv w m bs sent opn"
    and blk: "\<And>b. b \<in> fst ` set bs \<Longrightarrow> b \<in> im_alloc m' \<and> im_block m' b = im_block m b"
    and hdr: "\<And>g. g \<in> set (all_msgs sent opn) \<Longrightarrow>
      ih_msgId (im_header m' (mg_header g)) = ih_msgId (im_header m (mg_header g)) \<and>
      ih_writerId (im_header m' (mg_header g)) = ih_writerId (im_header m (mg_header g))"
    and len: "\<And>g. g \<in> set sent \<Longrightarrow> ih_length (im_header m' (mg_header g)) = ih_length (im_header m (mg_header g))"
  shows "writer_inv w m' bs sent opn"
proof -
  obtain cs bs1 off1 where l: "wcore w m bs" "\<forall>g \<in> set sent \<union> set_option opn. header_ok m (iw_id w) g \<and> sized g"
    "lay_msgs bs (iw_hoff w) sent = Some (cs, bs1, off1)" "list_all2 (sent_ok m) sent cs" "open_ok w bs1 off1 opn (tailblks bs)"
    using inv by (auto simp: writer_inv_def)
  have "fst ` set bs \<subseteq> im_alloc m" using l(1) chain_alloc by (fastforce simp: wcore_def)
  then have "wcore w m' bs" using wcore_cong [of bs m' m w w] blk l(1) by blast
  moreover have "list_all2 (sent_ok m') sent cs"
    by (rule list.rel_mono_strong [OF l(4)]) (auto simp: sent_ok_def len)
  moreover have "header_ok m' (iw_id w) g \<and> sized g" if "g \<in> set sent \<union> set_option opn" for g
    using l(2) hdr [of g] that by (auto simp: header_ok_def split: option.splits)
  ultimately show ?thesis using l(3,5) by (auto simp: writer_inv_def)
qed

section \<open>Opening a message and adding to it\<close>

text \<open>The memory changed by an allocation: new blocks behind the writer's own, and nothing of others.\<close>

definition grown :: "it_mem \<Rightarrow> it_mem \<Rightarrow> blocks \<Rightarrow> blocks \<Rightarrow> bool" where
  "grown m m' bs ext =
     (im_alloc m' = im_alloc m \<union> fst ` set ext \<and> fst ` set ext \<inter> im_alloc m = {} \<and>
      (\<forall>x. x \<notin> fst ` set (bs @ ext) \<longrightarrow> im_block m' x = im_block m x))"

lemma set_hopen_simps [simp]:
  "im_alloc (set_hopen a i n m) = im_alloc m" "im_block (set_hopen a i n m) = im_block m"
  "im_header (set_hopen a i n m) x = (if x = a then (im_header m a)\<lparr>ih_msgId := i, ih_writerId := word_of_int n, ih_length := 0\<rparr> else im_header m x)"
  by (simp_all add: set_hopen_def)

lemma itqOpen_ok:
  assumes inv: "writer_inv w m bs sent None" and SZ: "0 < SZ" and b: "b1 \<noteq> 0" "b2 \<noteq> 0" "b1 \<noteq> b2" "b1 \<notin> im_alloc m" "b2 \<notin> im_alloc m"
  obtains hdr msg w' m' ext where "itqOpen b1 b2 ID SZ (w, m) = Some (msg, w', m')"
    "writer_inv w' m' (bs @ ext) sent (Some \<lparr>mg_id = ID, mg_header = hdr, mg_pieces = [(msg, SZ)]\<rparr>)"
    "iw_id w' = iw_id w" "iw_toSend w' = Some hdr" "grown m m' bs ext" "\<And>x. x \<noteq> hdr \<Longrightarrow> im_header m' x = im_header m x"
    "\<And>x. ih_next (im_header m' x) = ih_next (im_header m x)"
proof -
  obtain cs where l: "wcore w m bs" "\<forall>g \<in> set sent. header_ok m (iw_id w) g \<and> sized g"
    "lay_msgs bs (iw_hoff w) sent = Some (cs, tailblks bs, iw_toff w)" "list_all2 (sent_ok m) sent cs"
    using inv by (auto simp: writer_inv_def open_ok_def)
  have core0: "wcore (w\<lparr>iw_mlen := 0\<rparr>) m bs" using l(1) wcore_cong [of bs m m "w\<lparr>iw_mlen := 0\<rparr>" w] by simp
  obtain a1 w1 m1 e1 c1 where s1: "it_allocBytes b1 16 (w\<lparr>iw_mlen := 0\<rparr>, m) = Some (a1, w1, m1)" "wcore w1 m1 (bs @ e1)"
    "lay1 (tailblks bs @ e1) (iw_toff w) 16 = Some (a1, tailblks (bs @ e1), iw_toff w1, c1)"
    "w1 = w\<lparr>iw_mlen := 0, iw_hblk := iw_hblk w1, iw_tblk := iw_tblk w1, iw_toff := iw_toff w1, iw_mlen := 0 + c1\<rparr>"
    "im_header m1 = im_header m" "im_alloc m1 = im_alloc m \<union> fst ` set e1" "fst ` set e1 \<subseteq> {b1}"
    "\<And>x. x \<notin> fst ` set (bs @ e1) \<Longrightarrow> im_block m1 x = im_block m x"
    by (rule it_allocBytes_ok [OF core0 _ b(1,4), of 16]) auto
  let ?m1 = "set_hopen a1 ID (iw_id w) m1"
  have core1: "wcore w1 ?m1 (bs @ e1)" using s1(2) wcore_cong [of "bs @ e1" ?m1 m1 w1 w1] by simp
  have "b2 \<notin> im_alloc ?m1" using s1(6,7) b by auto
  then obtain a2 w2 m2 e2 c2 where s2: "it_allocBytes b2 SZ (w1, ?m1) = Some (a2, w2, m2)" "wcore w2 m2 ((bs @ e1) @ e2)"
    "lay1 (tailblks (bs @ e1) @ e2) (iw_toff w1) SZ = Some (a2, tailblks ((bs @ e1) @ e2), iw_toff w2, c2)"
    "w2 = w1\<lparr>iw_hblk := iw_hblk w2, iw_tblk := iw_tblk w2, iw_toff := iw_toff w2, iw_mlen := iw_mlen w1 + c2\<rparr>"
    "im_header m2 = im_header ?m1" "im_alloc m2 = im_alloc ?m1 \<union> fst ` set e2" "fst ` set e2 \<subseteq> {b2}"
    "\<And>x. x \<notin> fst ` set ((bs @ e1) @ e2) \<Longrightarrow> im_block m2 x = im_block ?m1 x"
    by (rule it_allocBytes_ok [OF core1 SZ b(2)]) auto
  let ?w = "w2\<lparr>iw_toSend := Some a1, iw_contents := Some a2\<rparr>" and ?bs = "bs @ e1 @ e2"
    and ?g = "\<lparr>mg_id = ID, mg_header = a1, mg_pieces = [(a2, SZ)]\<rparr>"
  have ids: "iw_id w1 = iw_id w" "iw_hoff w1 = iw_hoff w" "iw_mlen w1 = c1" by (subst s1(4), simp)+
  have ids2: "iw_id w2 = iw_id w" "iw_hoff w2 = iw_hoff w" "iw_mlen w2 = c1 + c2" by (subst s2(4), simp add: ids)+
  have core2: "wcore ?w m2 ?bs" using s2(2) wcore_cong [of ?bs m2 m2 ?w w2] by simp
  have lay: "lay_msgs ?bs (iw_hoff w) sent = Some (cs, tailblks bs @ e1 @ e2, iw_toff w)" by (rule lay_msgs_extend [OF l(3)])
  have opn: "lay_msgs (tailblks bs @ e1 @ e2) (iw_toff w) [?g] = Some ([c1 + c2], tailblks ?bs, iw_toff w2)"
    using lay1_extend [OF s1(3), of e2] s2(3) by (simp add: msg_sizes_def msg_addrs_def)
  have "lay_msgs ?bs (iw_hoff w) (sent @ [?g]) = Some (cs @ [c1 + c2], tailblks ?bs, iw_toff w2)" using lay opn by (simp add: lay_msgs_append del: lay_msgs.simps(2))
  moreover have "0 \<le> iw_hoff w" "distinct (map fst ?bs)" using l(1) core2 by (auto simp: wcore_def)
  ultimately have "distinct (map mg_header (sent @ [?g]))"
    using l(2) SZ by (intro disjoint_headers) (use lay_msgs_disjoint [of ?bs "iw_hoff w" "sent @ [?g]"] in \<open>auto simp: sized_def\<close>)
  then have ne: "mg_header g \<noteq> a1" if "g \<in> set sent" for g using that by auto
  have "list_all2 (sent_ok m2) sent cs" by (rule list.rel_mono_strong [OF l(4)]) (auto simp: sent_ok_def s2(5) s1(5) dest: ne)
  moreover have "header_ok m2 (iw_id w) g \<and> sized g" if "g \<in> set sent \<union> set_option (Some ?g)" for g
    using that l(2) ne [of g] SZ by (auto simp: header_ok_def sized_def s2(5) s1(5))
  ultimately have "writer_inv ?w m2 ?bs sent (Some ?g)" using core2 lay opn by (simp add: writer_inv_def open_ok_def ids2 del: lay_msgs.simps(2))
  moreover have "itqOpen b1 b2 ID SZ (w, m) = Some (a2, ?w, m2)" using s1(1) s2(1) ids by (simp add: itqOpen_def)
  moreover have "grown m m2 bs (e1 @ e2)" unfolding grown_def using s1(6-8) s2(6-8) b by (auto simp: image_Un)
  moreover have "im_header m2 x = im_header m x" if "x \<noteq> a1" for x using that by (simp add: s2(5) s1(5))
  moreover have "ih_next (im_header m2 x) = ih_next (im_header m x)" for x by (simp add: s2(5) s1(5))
  ultimately show ?thesis using that [of a2 ?w m2 "e1 @ e2" a1] ids2(1) by simp
qed

lemma it_more_ok:
  assumes inv: "writer_inv w m bs sent (Some g)" and n: "0 < n" and b: "b \<noteq> 0" "b \<notin> im_alloc m"
  obtains a w' m' ext where "it_allocBytes b n (w, m) = Some (a, w', m')"
    "writer_inv w' m' (bs @ ext) sent (Some (g\<lparr>mg_pieces := mg_pieces g @ [(a, n)]\<rparr>))"
    "iw_id w' = iw_id w" "grown m m' bs ext" "im_header m' = im_header m"
proof -
  obtain cs bs1 off1 where l: "wcore w m bs" "\<forall>h \<in> set sent \<union> {g}. header_ok m (iw_id w) h \<and> sized h"
    "lay_msgs bs (iw_hoff w) sent = Some (cs, bs1, off1)" "list_all2 (sent_ok m) sent cs"
    "lay_msgs bs1 off1 [g] = Some ([iw_mlen w], tailblks bs, iw_toff w)" "iw_toSend w = Some (mg_header g)"
    using inv by (auto simp: writer_inv_def open_ok_def)
  obtain a w' m' e c where s: "it_allocBytes b n (w, m) = Some (a, w', m')" "wcore w' m' (bs @ e)"
    "lay1 (tailblks bs @ e) (iw_toff w) n = Some (a, tailblks (bs @ e), iw_toff w', c)"
    "w' = w\<lparr>iw_hblk := iw_hblk w', iw_tblk := iw_tblk w', iw_toff := iw_toff w', iw_mlen := iw_mlen w + c\<rparr>"
    "im_header m' = im_header m" "im_alloc m' = im_alloc m \<union> fst ` set e" "fst ` set e \<subseteq> {b}"
    "\<And>x. x \<notin> fst ` set (bs @ e) \<Longrightarrow> im_block m' x = im_block m x"
    by (rule it_allocBytes_ok [OF l(1) n b]) auto
  have ids: "iw_id w' = iw_id w" "iw_hoff w' = iw_hoff w" "iw_mlen w' = iw_mlen w + c" "iw_toSend w' = iw_toSend w" by (subst s(4), simp)+
  let ?g = "g\<lparr>mg_pieces := mg_pieces g @ [(a, n)]\<rparr>"
  have "lay_msgs (bs1 @ e) off1 ([] @ [g]) = Some ([] @ [iw_mlen w], tailblks bs @ e, iw_toff w)" using lay_msgs_extend [OF l(5)] by simp
  from lay_msgs_more [OF this _ s(3)] have opn: "lay_msgs (bs1 @ e) off1 [?g] = Some ([iw_mlen w + c], tailblks (bs @ e), iw_toff w')"
    by (simp del: lay_msgs.simps(2))
  have "list_all2 (sent_ok m') sent cs" by (rule list.rel_mono_strong [OF l(4)]) (auto simp: sent_ok_def s(5))
  moreover have "header_ok m' (iw_id w) h \<and> sized h" if "h \<in> set sent \<union> set_option (Some ?g)" for h
    using that l(2) n by (auto simp: header_ok_def sized_def s(5))
  ultimately have "writer_inv w' m' (bs @ e) sent (Some ?g)"
    using s(2) lay_msgs_extend [OF l(3), of e] opn l(6) by (simp add: writer_inv_def open_ok_def ids del: lay_msgs.simps(2))
  moreover have "grown m m' bs e" unfolding grown_def using s(6-8) b by auto
  ultimately show ?thesis using that [of a w' m' e] s(1,5) ids(1) by simp
qed

end
