(* ===== verification/Genf_Itq_Release.thy ===== *)
theory Genf_Itq_Release
  imports Genf_Itq_Writer
begin

text \<open>Reading and releasing the first message of a writer, \<open>itqRead\<close> and \<open>ItQueue::release\<close> of \<open>genf/itq.cc\<close>.\<close>

definition first_blk :: "blocks \<Rightarrow> blk" where
  "first_blk bs = (if bs = [] then 0 else fst (hd bs))"

lemma chain_first: "blk_chain m p bs \<Longrightarrow> p = first_blk bs"
  by (cases bs) (auto simp: first_blk_def)

section \<open>Reading and releasing the first message\<close>

lemma skip_to_ok:
  assumes "blk_chain m (first_blk bs) bs" "lay1 bs off n = Some (a, bs', off', c)"
  shows "skip_to m n (first_blk bs, off) = Some a" "fst a = first_blk bs'" "live m (fst a)" "blk_chain m (first_blk bs') bs'" "off' = snd a + n"
  using assms(2) by (cases rule: lay1_cases; use assms(1) in \<open>auto simp: skip_to_def first_blk_def live_def\<close>)+

lemma read_first:
  assumes "writer_inv w m bs (g # sent) opn" "mg_pieces g = (a, SZ) # ps"
  shows "Option.bind (skip_to m 16 (iw_hblk w, iw_hoff w)) (\<lambda>(hblk, off).
      Option.bind (skip_to m SZ (hblk, off + 16)) (\<lambda>(hblk, off). if live m hblk then Some (hblk, off) else None)) = Some a"
proof -
  obtain cs bs1 off1 where l: "wcore w m bs" "lay_msgs bs (iw_hoff w) (g # sent) = Some (cs, bs1, off1)" using assms(1) by (auto simp: writer_inv_def)
  obtain c bs2 off2 where lg: "layout bs (iw_hoff w) (msg_sizes g) = Some (msg_addrs g, bs2, off2, c)" by (rule lay_msgs_Cons [OF l(2)])
  obtain bs3 off3 c3 bs4 off4 c4 where l1: "lay1 bs (iw_hoff w) 16 = Some (mg_header g, bs3, off3, c3)" and l2: "lay1 bs3 off3 SZ = Some (a, bs4, off4, c4)"
    using lg assms(2) by (auto simp: msg_sizes_def msg_addrs_def elim!: layout_Cons simp del: layout.simps)
  have chain: "blk_chain m (first_blk bs) bs" "iw_hblk w = first_blk bs" using l(1) chain_first by (auto simp: wcore_def)
  note s1 = skip_to_ok [OF chain(1) l1]
  note s2 = skip_to_ok [OF s1(4) l2]
  show ?thesis using s1 s2 chain(2) by (cases a; cases "mg_header g") simp
qed

lemma freeBlock_simps [simp]:
  "im_alloc (freeBlock b m) = im_alloc m - {b}" "im_block (freeBlock b m) = im_block m" "im_header (freeBlock b m) = im_header m"
  by (simp_all add: freeBlock_def)

definition free_blocks :: "blocks \<Rightarrow> it_mem \<Rightarrow> it_mem" where
  "free_blocks bs m = m\<lparr>im_alloc := im_alloc m - fst ` set bs\<rparr>"

lemma free_blocks_simps [simp]:
  "im_alloc (free_blocks bs m) = im_alloc m - fst ` set bs" "im_block (free_blocks bs m) = im_block m" "im_header (free_blocks bs m) = im_header m"
  "free_blocks [] m = m"
  by (simp_all add: free_blocks_def)

lemma free_blocks_Cons: "free_blocks ((b, s) # bs) m = free_blocks bs (freeBlock b m)"
  by (simp add: free_blocks_def freeBlock_def Diff_insert2 [symmetric])

text \<open>Where a release of \<open>len\<close> bytes from \<open>off\<close> in the first block ends: at \<open>off'\<close> of \<open>b\<close>, or at the start of the block behind it.\<close>

definition rel_blocks :: "int \<Rightarrow> blk \<times> int \<Rightarrow> blocks \<Rightarrow> blocks" where
  "rel_blocks off' x post = (if off' = snd x then post else x # post)"

definition rel_writer :: "int \<Rightarrow> blocks \<Rightarrow> it_writer \<Rightarrow> it_writer" where
  "rel_writer off bs w = w\<lparr>iw_hblk := first_blk bs, iw_hoff := off,
     iw_tblk := (if bs = [] then 0 else iw_tblk w), iw_toff := (if bs = [] then 0 else iw_toff w)\<rparr>"

lemma total_pos: "\<forall>x \<in> set bs. 0 < snd x \<Longrightarrow> bs \<noteq> [] \<Longrightarrow> 0 < total_size bs"
proof (induction bs)
  case (Cons x bs)
  then show ?case by (cases "bs = []") (auto intro: add_pos_pos)
qed simp

lemma release_loop_ok:
  assumes "blk_chain m (iw_hblk w) (pre @ (b, s) # post)" "\<forall>x \<in> set (pre @ (b, s) # post). 0 < snd x" "distinct (map fst (pre @ (b, s) # post))"
    and "iw_hoff w < snd (hd (pre @ [(b, s)]))" "0 \<le> off'" "off' \<le> s" "0 < len" "len = total_size pre + off' - iw_hoff w"
  shows "\<exists>rest off m'. release_loop len (snd (hd (pre @ [(b, s)])) - iw_hoff w) (w, m) = Some (rest, rel_writer off (rel_blocks off' (b, s) post) w, m') \<and>
    off + rest = (if off' = s then 0 else off') \<and> m' = free_blocks (pre @ (if off' = s then [(b, s)] else [])) m"
  using assms
proof (induction pre arbitrary: w m len)
  case Nil
  have chain: "iw_hblk w = b" "b \<noteq> 0" "b \<in> im_alloc m" "blk_chain m (ib_next (im_block m b)) post" using Nil.prems(1) by auto
  show ?case
  proof (cases "off' = s")
    case False
    then show ?thesis using Nil.prems chain by (subst release_loop.simps) (auto simp: rel_blocks_def rel_writer_def first_blk_def)
  next
    case True
    have nx: "ib_next (im_block m b) = first_blk post" by (rule chain_first [OF chain(4)])
    have fz: "first_blk post = 0 \<longleftrightarrow> post = []" using chain(4) by (cases post) (auto simp: first_blk_def)
    have "release_loop len (s - iw_hoff w) (w, m) = Some (0, rel_writer 0 post w, freeBlock b m)"
      using Nil.prems True chain(1-3) fz
      by (subst release_loop.simps, subst release_loop.simps) (simp add: Let_def rel_writer_def live_def nx)
    then show ?thesis using True by (simp add: rel_blocks_def free_blocks_Cons)
  qed
next
  case (Cons x pre)
  obtain b0 s0 where x: "x = (b0, s0)" by fastforce
  have chain: "iw_hblk w = b0" "b0 \<noteq> 0" "b0 \<in> im_alloc m" "blk_chain m (ib_next (im_block m b0)) (pre @ (b, s) # post)" using Cons.prems(1) x by auto
  define w1 where "w1 = w\<lparr>iw_hblk := ib_next (im_block m b0), iw_hoff := 0\<rparr>"
  have nx: "ib_next (im_block m b0) \<noteq> 0" using chain(4) by (cases pre; auto)
  have sz: "ib_size (im_block m (ib_next (im_block m b0))) = snd (hd (pre @ [(b, s)]))" "0 < snd (hd (pre @ [(b, s)]))"
    using chain(4) Cons.prems(2) by (cases pre; auto)+
  have tp: "0 \<le> total_size pre" using total_pos [of pre] Cons.prems(2) by (cases "pre = []") simp_all
  have chain1: "blk_chain (freeBlock b0 m) (iw_hblk w1) (pre @ (b, s) # post)"
    using chain(4) chain_cong [of "pre @ (b, s) # post" "freeBlock b0 m" m] Cons.prems(3) x by (auto simp: w1_def)
  have step: "release_loop len (snd (hd (x # pre @ [(b, s)])) - iw_hoff w) (w, m) =
      release_loop (total_size pre + off' - iw_hoff w1) (snd (hd (pre @ [(b, s)])) - iw_hoff w1) (w1, freeBlock b0 m)"
    using Cons.prems(4-8) chain(1-3) nx sz tp x by (subst release_loop.simps) (simp add: Let_def w1_def live_def)
  have rw: "rel_writer off bs w1 = rel_writer off bs w" for off bs by (simp add: rel_writer_def w1_def)
  have "\<exists>rest off m'. release_loop (total_size pre + off' - iw_hoff w1) (snd (hd (pre @ [(b, s)])) - iw_hoff w1) (w1, freeBlock b0 m) =
      Some (rest, rel_writer off (rel_blocks off' (b, s) post) w1, m') \<and>
    off + rest = (if off' = s then 0 else off') \<and> m' = free_blocks (pre @ (if off' = s then [(b, s)] else [])) (freeBlock b0 m)"
  proof (cases "0 < total_size pre + off' - iw_hoff w1")
    case True
    then show ?thesis using chain1 Cons.prems(2,3,5,6) sz by (intro Cons.IH) (auto simp: w1_def)
  next
    case False
    have w1: "iw_hoff w1 = 0" by (simp add: w1_def)
    have "0 < total_size pre" if "pre \<noteq> []" using total_pos [OF _ that] Cons.prems(2) by simp
    then have "pre = []" using False w1 Cons.prems(5) by linarith
    moreover have "off' = 0" using False w1 Cons.prems(5) tp by linarith
    moreover from calculation have "rel_writer 0 (rel_blocks 0 (b, s) post) w1 = w1" "s \<noteq> 0"
      using chain1 Cons.prems(2) w1 by (auto simp: rel_writer_def rel_blocks_def first_blk_def w1_def)
    moreover have "release_loop 0 r (w1, freeBlock b0 m) = Some (0, w1, freeBlock b0 m)" for r by (subst release_loop.simps) simp
    ultimately show ?thesis by (intro exI [of _ 0] exI [of _ "freeBlock b0 m"]) (simp add: w1_def)
  qed
  then show ?case using step rw x by (simp add: free_blocks_Cons)
qed

lemma tailblks_length: "length (tailblks bs) \<le> 1"
  by (simp add: tailblks_def)

lemma layout_pos:
  assumes "layout bs off ns = Some (as, bs', off', c)" "\<forall>n \<in> set ns. 0 < n" "bs \<noteq> [] \<longrightarrow> off \<le> snd (hd bs)" "ns \<noteq> []"
  shows "0 < c"
  using assms
proof (induction ns arbitrary: bs off as c)
  case (Cons n ns)
  obtain a as' bs1 off1 c1 c2 where l: "lay1 bs off n = Some (a, bs1, off1, c1)" "layout bs1 off1 ns = Some (as', bs', off', c2)" "c = c1 + c2"
    using layout_Cons [OF Cons.prems(1)] by metis
  have c1: "0 < c1" "off1 \<le> snd (hd bs1)" using l(1) by (cases rule: lay1_cases; use Cons.prems in simp)+
  show ?case
  proof (cases "ns = []")
    case False
    then show ?thesis using Cons.IH [OF l(2)] Cons.prems(2) c1 l(3) by simp
  qed (use l c1 in simp)
qed simp

text \<open>What is left of a writer's layout when the first message is taken off.\<close>

lemma rel_layout:
  assumes lay: "lay_msgs ((b, s) # post) off sent = Some (cs, bs1, off1)" and opn: "open_ok w bs1 off1 opn (tailblks (pre @ (b, s) # post))"
  defines "bs' \<equiv> rel_blocks off (b, s) post" and "off' \<equiv> (if off = s then 0 else off)"
  shows "\<exists>bs1' off1'. lay_msgs bs' off' sent = Some (cs, bs1', off1') \<and> open_ok (rel_writer off' bs' w) bs1' off1' opn (tailblks bs')"
proof (cases "off = s")
  case False
  then have "open_ok (rel_writer off' bs' w) bs1 off1 opn (tailblks bs')"
    using opn by (simp add: bs'_def rel_blocks_def rel_writer_def open_ok_def tailblks_append cong: option.case_cong)
  then show ?thesis using lay False by (auto simp: bs'_def off'_def rel_blocks_def)
next
  case True
  have e: "bs' = post" "off' = 0" using True by (simp_all add: bs'_def off'_def rel_blocks_def)
  have tb: "tailblks (pre @ (b, s) # post) = tailblks ((b, s) # post)" by (rule tailblks_append) simp
  have np: "post \<noteq> []" "tailblks ((b, s) # post) = tailblks post" if "lay_msgs post 0 (g # gs) = Some r" for g gs r
    using that by (cases post; simp add: msg_sizes_def)+
  have open_post: "open_ok (rel_writer off' bs' w) bs2 off2 opn (tailblks bs')"
    if "open_ok w bs2 off2 opn (tailblks ((b, s) # post))" "post \<noteq> []" for bs2 off2
    using that by (cases post) (simp_all add: e rel_writer_def open_ok_def cong: option.case_cong)
  show ?thesis
  proof (cases sent)
    case (Cons g gs)
    then have "lay_msgs post 0 sent = Some (cs, bs1, off1)" using lay True lay_msgs_normal by (simp del: lay_msgs.simps)
    then show ?thesis using open_post np Cons opn tb e by metis
  next
    case Nil
    then have l: "cs = []" "bs1 = (b, s) # post" "off1 = s" using lay True by auto
    show ?thesis
    proof (cases opn)
      case None
      then have "(b, s) # post = tailblks ((b, s) # post)" using opn l tb by (auto simp: open_ok_def)
      then have "length ((b, s) # post) \<le> 1" using tailblks_length by metis
      then have "post = []" by simp
      then show ?thesis using Nil None l e by (simp add: open_ok_def rel_writer_def)
    next
      case (Some g)
      then have g: "lay_msgs ((b, s) # post) s [g] = Some ([iw_mlen w], tailblks ((b, s) # post), iw_toff w)" "iw_toSend w = Some (mg_header g)"
        using opn l tb by (simp_all add: open_ok_def)
      have p: "lay_msgs post 0 [g] = Some ([iw_mlen w], tailblks ((b, s) # post), iw_toff w)" by (rule lay_msgs_normal [OF g(1)])
      then have "open_ok w post 0 opn (tailblks ((b, s) # post))" using Some g(2) by (simp add: open_ok_def)
      then show ?thesis using open_post np [OF p] Nil l e by simp
    qed
  qed
qed

lemma wcore_rel:
  assumes c: "wcore w m (pre @ (b, s) # post)" and off: "0 \<le> off" "off \<le> s"
  defines "bs' \<equiv> rel_blocks off (b, s) post" and "off' \<equiv> (if off = s then 0 else off)" and "dropped \<equiv> pre @ (if off = s then [(b, s)] else [])"
  shows "wcore (rel_writer off' bs' w) (free_blocks dropped m) bs'" "pre @ (b, s) # post = dropped @ bs'"
proof -
  show e: "pre @ (b, s) # post = dropped @ bs'" by (simp add: dropped_def bs'_def rel_blocks_def)
  have ch: "blk_chain m p (xs @ ys) \<Longrightarrow> blk_chain m (first_blk ys) ys" for p xs ys
    by (induction m p xs rule: blk_chain.induct) (auto dest: chain_first)
  have d: "distinct (map fst (dropped @ bs'))" using c e by (simp add: wcore_def)
  have "blk_chain m (first_blk bs') bs'" using c e by (auto simp: wcore_def intro: ch)
  then have "blk_chain (free_blocks dropped m) (first_blk bs') bs'"
    using chain_cong [of bs' "free_blocks dropped m" m] d by auto
  moreover have "bs' \<noteq> [] \<Longrightarrow> last bs' = last (pre @ (b, s) # post)" using e by simp
  moreover have "\<forall>x \<in> set bs'. 0 < snd x" using c e by (auto simp: wcore_def)
  moreover have "bs' \<noteq> [] \<Longrightarrow> off' < snd (hd bs')" using off calculation(3) by (auto simp: bs'_def off'_def rel_blocks_def)
  moreover have "bs' = [] \<Longrightarrow> off' = 0" by (simp add: bs'_def off'_def rel_blocks_def split: if_splits)
  moreover have "0 \<le> off'" using off by (simp add: off'_def)
  ultimately show "wcore (rel_writer off' bs' w) (free_blocks dropped m) bs'"
    using c d by (auto simp: wcore_def rel_writer_def)
qed

lemma wcore_head: "wcore w m bs \<Longrightarrow> bs \<noteq> [] \<Longrightarrow> live m (iw_hblk w) \<and> ib_size (im_block m (iw_hblk w)) = snd (hd bs)"
  by (cases bs) (auto simp: wcore_def live_def)

lemma free_ok [simp]:
  "sent_ok (free_blocks d m) = sent_ok m" "header_ok (free_blocks d m) = header_ok m" "iw_id (rel_writer off bs w) = iw_id w" "iw_hoff (rel_writer off bs w) = off"
  by (simp_all add: sent_ok_def header_ok_def fun_eq_iff rel_writer_def)

lemma release_writer_ok:
  assumes inv: "writer_inv w m bs (g # sent) opn"
  obtains w' dropped bs' where "release_writer (sint (ih_length (im_header m (mg_header g)))) (w, m) = Some (w', free_blocks dropped m)"
    "writer_inv w' (free_blocks dropped m) bs' sent opn" "bs = dropped @ bs'" "iw_id w' = iw_id w"
proof -
  obtain c cs bs1 off1 where l: "wcore w m bs" "\<forall>h \<in> set (g # sent) \<union> set_option opn. header_ok m (iw_id w) h \<and> sized h"
    "lay_msgs bs (iw_hoff w) (g # sent) = Some (c # cs, bs1, off1)" "sent_ok m g c" "list_all2 (sent_ok m) sent cs" "open_ok w bs1 off1 opn (tailblks bs)"
    using inv by (auto simp: writer_inv_def list_all2_Cons1)
  obtain bs2 off2 where lg: "layout bs (iw_hoff w) (msg_sizes g) = Some (msg_addrs g, bs2, off2, c)" "lay_msgs bs2 off2 sent = Some (cs, bs1, off1)"
    by (rule lay_msgs_Cons [OF l(3)]) auto
  have nz: "\<forall>n \<in> set (msg_sizes g). 0 < n" "msg_sizes g \<noteq> []" using l(2) by (auto simp: msg_sizes_def sized_def)
  obtain pre where d: "bs = pre @ bs2" "bs2 \<noteq> []" "c = total_size pre + off2 - iw_hoff w" "off2 \<le> snd (hd bs2)" using layout_distance [OF lg(1) nz(2)] by blast
  obtain b s post where bs2: "bs2 = (b, s) # post" using d(2) by (cases bs2) auto
  have off2: "0 \<le> off2" "off2 \<le> s" using layout_ahead [OF lg(1) nz(1)] l(1) d(4) bs2 by (auto simp: wcore_def)
  have bs: "bs = pre @ (b, s) # post" "bs \<noteq> []" using d(1) bs2 by simp_all
  have hd: "hd bs = hd (pre @ [(b, s)])" using bs by (cases pre) auto
  have pos: "0 < c" by (rule layout_pos [OF lg(1) nz(1) _ nz(2)]) (use l(1) in \<open>auto simp: wcore_def\<close>)
  have len: "sint (ih_length (im_header m (mg_header g))) = c" using l(4) pos by (auto simp: sent_ok_def sint_sbintrunc' signed_take_bit_int_eq_self)
  note hb = wcore_head [OF l(1) bs(2), unfolded hd]
  let ?bs = "rel_blocks off2 (b, s) post" and ?off = "if off2 = s then 0 else off2" and ?dr = "pre @ (if off2 = s then [(b, s)] else [])"
  obtain rest off where rl: "release_loop c (snd (hd (pre @ [(b, s)])) - iw_hoff w) (w, m) = Some (rest, rel_writer off ?bs w, free_blocks ?dr m)" "off + rest = ?off"
    using release_loop_ok [of m w pre b s post off2 c] l(1) bs hd off2 pos d(3) by (auto simp: wcore_def)
  have "release_writer c (w, m) = Some (rel_writer ?off ?bs w, free_blocks ?dr m)"
    using rl hb by (simp add: release_writer_def) (simp add: rel_writer_def)
  moreover have wc: "wcore (rel_writer ?off ?bs w) (free_blocks ?dr m) ?bs" "bs = ?dr @ ?bs" using wcore_rel [OF l(1)[unfolded bs(1)] off2] bs(1) by simp_all
  moreover obtain bs3 off3 where "lay_msgs ?bs ?off sent = Some (cs, bs3, off3)" "open_ok (rel_writer ?off ?bs w) bs3 off3 opn (tailblks ?bs)"
    using rel_layout [OF lg(2)[unfolded bs2] l(6)[unfolded bs(1)]] by blast
  then have "writer_inv (rel_writer ?off ?bs w) (free_blocks ?dr m) ?bs sent opn"
    using wc(1) l(2,5) unfolding writer_inv_def by (simp add: free_ok)
  ultimately show ?thesis using that [of "rel_writer ?off ?bs w" ?dr ?bs] len by (simp add: rel_writer_def)
qed

end
