(* ===== verification/Genf_Itq_Queue.thy ===== *)
theory Genf_Itq_Queue
  imports Genf_Itq_Release
begin

text \<open>
  The queue between threads as a whole: any number of writers and one reader, whose operations
  interleave. The specification is a queue of messages; the implementation is the code of
  \<open>genf/itq.cc\<close> on the memory. A message's pieces of memory are given out once, do not overlap those of
  any other live message, and the reader finds the messages in the order in which they were sent.
\<close>

section \<open>The implementation\<close>

text \<open>\<open>iy_current\<close> is the header that the loop of the receiving thread holds between \<open>wait\<close> and \<open>release\<close>.\<close>

record itq_sys =
  iy_queue :: it_queue
  iy_mem :: it_mem
  iy_current :: "it_addr option"

datatype itq_event =
    Register
  | Open nat blk blk u16 int
  | More nat blk int
  | Send nat
  | Wait
  | Read int
  | Release

datatype itq_out = Done | Writer nat | Opened it_addr it_addr | Memory it_addr | Header it_addr u16

fun itq_exec :: "itq_event \<Rightarrow> itq_sys \<Rightarrow> (itq_out \<times> itq_sys) option" where
  "itq_exec Register y = (case registerWriter (iy_queue y) of (i, q) \<Rightarrow> Some (Writer i, y\<lparr>iy_queue := q\<rparr>))"
| "itq_exec (Open i b1 b2 ID SZ) y =
     (case writer_at (iy_queue y) i of None \<Rightarrow> None
      | Some w \<Rightarrow> Option.bind (itqOpen b1 b2 ID SZ (w, iy_mem y)) (\<lambda>(msg, w, m).
          (case iw_toSend w of None \<Rightarrow> None
           | Some hdr \<Rightarrow> Some (Opened hdr msg, y\<lparr>iy_queue := set_writer i w (iy_queue y), iy_mem := m\<rparr>))))"
| "itq_exec (More i b n) y =
     (case writer_at (iy_queue y) i of None \<Rightarrow> None
      | Some w \<Rightarrow> Option.bind (it_allocBytes b n (w, iy_mem y)) (\<lambda>(a, w, m).
          Some (Memory a, y\<lparr>iy_queue := set_writer i w (iy_queue y), iy_mem := m\<rparr>)))"
| "itq_exec (Send i) y =
     (case writer_at (iy_queue y) i of None \<Rightarrow> None
      | Some w \<Rightarrow> Option.bind (itq_send w (iy_queue y, iy_mem y)) (\<lambda>(q, m). Some (Done, y\<lparr>iy_queue := q, iy_mem := m\<rparr>)))"
| "itq_exec Wait y =
     Option.bind (itq_wait (iy_queue y, iy_mem y)) (\<lambda>(h, q, m).
       Some (Header h (ih_msgId (im_header m h)), y\<lparr>iy_queue := q, iy_mem := m, iy_current := Some h\<rparr>))"
| "itq_exec (Read SZ) y =
     (case iy_current y of None \<Rightarrow> None
      | Some h \<Rightarrow> Option.bind (itqRead (iy_queue y) (iy_mem y) h SZ) (\<lambda>a. Some (Memory a, y)))"
| "itq_exec Release y =
     (case iy_current y of None \<Rightarrow> None
      | Some h \<Rightarrow> Option.bind (it_release h (iy_queue y, iy_mem y)) (\<lambda>(q, m).
          Some (Done, y\<lparr>iy_queue := q, iy_mem := m, iy_current := None\<rparr>)))"

definition itq_init :: itq_sys where
  "itq_init = \<lparr>iy_queue = itQueue_new,
     iy_mem = \<lparr>im_alloc = {}, im_block = \<lambda>_. \<lparr>ib_size = 0, ib_next = 0\<rparr>,
       im_header = \<lambda>_. \<lparr>ih_msgId = 0, ih_writerId = 0, ih_length = 0, ih_next = None\<rparr>\<rparr>,
     iy_current = None\<rparr>"

section \<open>The specification\<close>

record itq_spec =
  is_writers :: nat
  is_open :: "nat \<Rightarrow> it_msg option"
  is_queue :: "(nat \<times> it_msg) list"
  is_reading :: "(nat \<times> it_msg) option"

definition spec_init :: itq_spec where
  "spec_init = \<lparr>is_writers = 0, is_open = \<lambda>_. None, is_queue = [], is_reading = None\<rparr>"

definition sent :: "itq_spec \<Rightarrow> (nat \<times> it_msg) list" where
  "sent a = (case is_reading a of None \<Rightarrow> [] | Some x \<Rightarrow> [x]) @ is_queue a"

definition sent_of :: "nat \<Rightarrow> itq_spec \<Rightarrow> it_msg list" where
  "sent_of i a = map snd (filter (\<lambda>x. fst x = i) (sent a))"

definition live_msgs :: "nat \<Rightarrow> itq_spec \<Rightarrow> it_msg list" where
  "live_msgs i a = all_msgs (sent_of i a) (is_open a i)"

definition live_memory :: "itq_spec \<Rightarrow> (it_addr \<times> int) list" where
  "live_memory a = concat (map (\<lambda>i. concat (map msg_memory (live_msgs i a))) [0..<is_writers a])"

text \<open>Pieces of memory that do not overlap.\<close>

definition apart :: "it_addr \<times> int \<Rightarrow> it_addr \<times> int \<Rightarrow> bool" where
  "apart p q = (fst (fst p) \<noteq> fst (fst q) \<or> snd (fst p) + snd p \<le> snd (fst q) \<or> snd (fst q) + snd q \<le> snd (fst p))"

text \<open>
  What the callers have to do: a writer opens a message before it adds to it and sends it, the reader
  releases a message before it waits for the next, and reads it with the size it was opened with; what
  the environment has to provide: \<open>new\<close> returns blocks that are not in use, there are no more than
  65536 writers, and messages are shorter than \<open>2 ^ 31\<close> bytes.
\<close>

definition fresh :: "blk \<Rightarrow> itq_sys \<Rightarrow> bool" where
  "fresh b y = (b \<noteq> 0 \<and> b \<notin> im_alloc (iy_mem y))"

fun allowed :: "itq_event \<Rightarrow> itq_sys \<Rightarrow> itq_spec \<Rightarrow> bool" where
  "allowed Register y a = (is_writers a < 65536)"
| "allowed (Open i b1 b2 ID SZ) y a = (i < is_writers a \<and> is_open a i = None \<and> 0 < SZ \<and> fresh b1 y \<and> fresh b2 y \<and> b1 \<noteq> b2)"
| "allowed (More i b n) y a = (is_open a i \<noteq> None \<and> 0 < n \<and> fresh b y)"
| "allowed (Send i) y a = (is_open a i \<noteq> None \<and> (case writer_at (iy_queue y) i of None \<Rightarrow> True | Some w \<Rightarrow> iw_mlen w < 2 ^ 31))"
| "allowed Wait y a = (is_reading a = None \<and> is_queue a \<noteq> [])"
| "allowed (Read SZ) y a = (case is_reading a of None \<Rightarrow> False | Some (i, g) \<Rightarrow> SZ = snd (hd (mg_pieces g)))"
| "allowed Release y a = (is_reading a \<noteq> None)"

text \<open>What an operation promises of its result, and the effect on the queue of messages.\<close>

fun promised :: "itq_event \<Rightarrow> itq_out \<Rightarrow> itq_spec \<Rightarrow> bool" where
  "promised Register out a = (out = Writer (is_writers a))"
| "promised (Open i b1 b2 ID SZ) out a =
     (case out of Opened hdr msg \<Rightarrow> apart (hdr, sizeof_ItHeader) (msg, SZ) \<and> (\<forall>q \<in> set (live_memory a). apart (hdr, sizeof_ItHeader) q \<and> apart (msg, SZ) q) | _ \<Rightarrow> False)"
| "promised (More i b n) out a = (case out of Memory x \<Rightarrow> (\<forall>q \<in> set (live_memory a). apart (x, n) q) | _ \<Rightarrow> False)"
| "promised (Send i) out a = (out = Done)"
| "promised Wait out a = (case is_queue a of [] \<Rightarrow> False | (i, g) # _ \<Rightarrow> out = Header (mg_header g) (mg_id g))"
| "promised (Read SZ) out a = (case is_reading a of None \<Rightarrow> False | Some (i, g) \<Rightarrow> out = Memory (fst (hd (mg_pieces g))))"
| "promised Release out a = (out = Done)"

fun spec_next :: "itq_event \<Rightarrow> itq_out \<Rightarrow> itq_spec \<Rightarrow> itq_spec" where
  "spec_next Register out a = a\<lparr>is_writers := is_writers a + 1\<rparr>"
| "spec_next (Open i b1 b2 ID SZ) (Opened hdr msg) a =
     a\<lparr>is_open := (is_open a)(i := Some \<lparr>mg_id = ID, mg_header = hdr, mg_pieces = [(msg, SZ)]\<rparr>)\<rparr>"
| "spec_next (More i b n) (Memory x) a =
     a\<lparr>is_open := (is_open a)(i := map_option (\<lambda>g. g\<lparr>mg_pieces := mg_pieces g @ [(x, n)]\<rparr>) (is_open a i))\<rparr>"
| "spec_next (Send i) out a =
     (case is_open a i of None \<Rightarrow> a | Some g \<Rightarrow> a\<lparr>is_open := (is_open a)(i := None), is_queue := is_queue a @ [(i, g)]\<rparr>)"
| "spec_next Wait out a = (case is_queue a of [] \<Rightarrow> a | x # xs \<Rightarrow> a\<lparr>is_reading := Some x, is_queue := xs\<rparr>)"
| "spec_next Release out a = a\<lparr>is_reading := None\<rparr>"
| "spec_next _ out a = a"

inductive itq_reachable :: "itq_sys \<Rightarrow> itq_spec \<Rightarrow> bool" where
  init: "itq_reachable itq_init spec_init"
| step: "itq_reachable y a \<Longrightarrow> allowed ev y a \<Longrightarrow> itq_exec ev y = Some (out, y') \<Longrightarrow> itq_reachable y' (spec_next ev out a)"

section \<open>The simulation\<close>

fun hchain :: "it_mem \<Rightarrow> it_addr option \<Rightarrow> it_addr list \<Rightarrow> bool" where
  "hchain m h [] = (h = None)"
| "hchain m h (x # xs) = (h = Some x \<and> hchain m (ih_next (im_header m x)) xs)"

abbreviation headers :: "(nat \<times> it_msg) list \<Rightarrow> it_addr list" where
  "headers xs \<equiv> map (\<lambda>x. mg_header (snd x)) xs"

definition writers_ok :: "it_queue \<Rightarrow> it_mem \<Rightarrow> itq_spec \<Rightarrow> (nat \<Rightarrow> blocks) \<Rightarrow> bool" where
  "writers_ok q m a B =
     (length (iq_writerVect q) = is_writers a \<and> is_writers a \<le> 65536 \<and>
      (\<forall>i < is_writers a. \<exists>w. iq_writerVect q ! i = Some w \<and> iw_id w = int i \<and> writer_inv w m (B i) (sent_of i a) (is_open a i)) \<and>
      (\<forall>i \<ge> is_writers a. B i = [] \<and> is_open a i = None) \<and> (\<forall>x \<in> set (sent a). fst x < is_writers a) \<and>
      (\<forall>i j. i \<noteq> j \<longrightarrow> fst ` set (B i) \<inter> fst ` set (B j) = {}) \<and>
      im_alloc m = (\<Union>i. fst ` set (B i)))"

definition links_ok :: "it_queue \<Rightarrow> it_mem \<Rightarrow> itq_spec \<Rightarrow> bool" where
  "links_ok q m a =
     (hchain m (iq_head q) (headers (is_queue a)) \<and> (is_queue a \<noteq> [] \<longrightarrow> iq_tail q = Some (last (headers (is_queue a)))))"

definition itq_inv :: "itq_sys \<Rightarrow> itq_spec \<Rightarrow> (nat \<Rightarrow> blocks) \<Rightarrow> bool" where
  "itq_inv y a B =
     (writers_ok (iy_queue y) (iy_mem y) a B \<and> links_ok (iy_queue y) (iy_mem y) a \<and>
      iy_current y = map_option (\<lambda>x. mg_header (snd x)) (is_reading a))"

lemma writers_okD:
  assumes "writers_ok q m a B" "i < is_writers a"
  obtains w where "writer_at q i = Some w" "iw_id w = int i" "writer_inv w m (B i) (sent_of i a) (is_open a i)"
  using assms by (auto simp: writers_ok_def writer_at_def)

lemma writers_ok_open: "writers_ok q m a B \<Longrightarrow> is_open a i \<noteq> None \<Longrightarrow> i < is_writers a"
  by (metis not_le writers_ok_def)

lemma Union_update:
  assumes "\<And>j k. j \<noteq> k \<Longrightarrow> S j \<inter> S k = {}"
  shows "(\<Union>j. S j) - S i \<union> T = (\<Union>j. if j = i then T else S j)"
proof -
  have "x \<notin> S i" if "x \<in> S j" "j \<noteq> i" for x j using assms [OF that(2)] that(1) by blast
  then show ?thesis by (auto split: if_splits) metis
qed

text \<open>What one writer does leaves the others alone.\<close>

lemma writers_ok_update:
  assumes ok: "writers_ok q m a B" and i: "i < is_writers a"
    and w: "iw_id w' = int i" "writer_inv w' m' bs' (sent_of i a') (is_open a' i)"
    and a: "is_writers a' = is_writers a" "\<And>j. j \<noteq> i \<Longrightarrow> is_open a' j = is_open a j" "\<And>j. j \<noteq> i \<Longrightarrow> sent_of j a' = sent_of j a" "fst ` set (sent a') \<subseteq> insert i (fst ` set (sent a))"
    and q: "iq_writerVect q' = (iq_writerVect q)[i := Some w']"
    and m: "im_alloc m' = (im_alloc m - fst ` set (B i)) \<union> fst ` set bs'" "fst ` set bs' \<inter> (im_alloc m - fst ` set (B i)) = {}"
      "\<And>x. x \<in> im_alloc m - fst ` set (B i) \<Longrightarrow> im_block m' x = im_block m x"
      "\<And>x. fst x \<in> im_alloc m - fst ` set (B i) \<Longrightarrow> ih_msgId (im_header m' x) = ih_msgId (im_header m x) \<and>
         ih_writerId (im_header m' x) = ih_writerId (im_header m x) \<and> ih_length (im_header m' x) = ih_length (im_header m x)"
  shows "writers_ok q' m' a' (B(i := bs'))"
proof -
  note ok' = ok[unfolded writers_ok_def]
  have odis: "fst ` set (B j) \<inter> fst ` set (B k) = {}" if "j \<noteq> k" for j k using ok' that by simp
  have oal: "im_alloc m = (\<Union>i. fst ` set (B i))" using ok' by simp
  have oth: "fst ` set (B j) \<subseteq> im_alloc m - fst ` set (B i)" if "j \<noteq> i" for j using odis [OF that] oal by auto
  have inv: "\<exists>w. iq_writerVect q' ! j = Some w \<and> iw_id w = int j \<and> writer_inv w m' ((B(i := bs')) j) (sent_of j a') (is_open a' j)"
    if "j < is_writers a" for j
  proof (cases "j = i")
    case True
    then show ?thesis using w q i ok' by (simp add: nth_list_update)
  next
    case False
    have ex: "\<exists>w. iq_writerVect q ! j = Some w \<and> iw_id w = int j \<and> writer_inv w m (B j) (sent_of j a) (is_open a j)" using ok' that by simp
    obtain wj where wj: "iq_writerVect q ! j = Some wj" "iw_id wj = int j" "writer_inv wj m (B j) (sent_of j a) (is_open a j)" using ex by blast
    have "writer_inv wj m' (B j) (sent_of j a) (is_open a j)"
    proof (rule writer_inv_cong [OF wj(3)])
      fix b assume "b \<in> fst ` set (B j)"
      then have "b \<in> im_alloc m - fst ` set (B i)" using oth [OF False] by blast
      then show "b \<in> im_alloc m' \<and> im_block m' b = im_block m b" using m(1,3) by simp
    next
      fix g assume "g \<in> set (all_msgs (sent_of j a) (is_open a j))"
      then have "fst (mg_header g) \<in> im_alloc m - fst ` set (B i)" using writer_inv_header [OF wj(3)] oth [OF False] by blast
      then show "ih_msgId (im_header m' (mg_header g)) = ih_msgId (im_header m (mg_header g)) \<and>
          ih_writerId (im_header m' (mg_header g)) = ih_writerId (im_header m (mg_header g))" using m(4) by blast
    next
      fix g assume "g \<in> set (sent_of j a)"
      then have "fst (mg_header g) \<in> im_alloc m - fst ` set (B i)" using writer_inv_header [OF wj(3), of g] oth [OF False] by auto
      then show "ih_length (im_header m' (mg_header g)) = ih_length (im_header m (mg_header g))" using m(4) by blast
    qed
    then show ?thesis using wj False q a by auto
  qed
  have new: "fst ` set bs' \<inter> fst ` set (B j) = {}" if "j \<noteq> i" for j using m(2) oth [OF that] by blast
  have dis: "fst ` set ((B(i := bs')) j) \<inter> fst ` set ((B(i := bs')) k) = {}" if "j \<noteq> k" for j k
    using that odis [OF that] new [of j] new [of k] by (simp add: Int_commute)
  have "im_alloc m' = (\<Union>j. if j = i then fst ` set bs' else fst ` set (B j))"
    unfolding m(1) oal by (rule Union_update) (rule odis)
  then have al: "im_alloc m' = (\<Union>j. fst ` set ((B(i := bs')) j))" by (simp add: if_distrib)
  have "\<forall>x \<in> set (sent a'). fst x < is_writers a" using a(4) i ok' by fastforce
  moreover have "\<forall>j \<ge> is_writers a. (B(i := bs')) j = [] \<and> is_open a' j = None" using ok' i a(2) by auto
  moreover have "length (iq_writerVect q') = is_writers a" "is_writers a \<le> 65536" using ok' q by simp_all
  ultimately show ?thesis unfolding writers_ok_def a(1) using inv dis al by blast
qed

lemma distinct_headers:
  assumes "\<And>i. distinct (map mg_header (map snd (filter (\<lambda>x. fst x = i) xs)))" "\<And>x. x \<in> set xs \<Longrightarrow> fst (mg_header (snd x)) \<in> S (fst x)"
    and "\<And>j k. j \<noteq> k \<Longrightarrow> S j \<inter> S k = {}"
  shows "distinct (headers xs)"
  using assms(1,2)
proof (induction xs)
  case (Cons x xs)
  have "mg_header (snd x) \<noteq> mg_header (snd y)" if y: "y \<in> set xs" for y
  proof (cases "fst y = fst x")
    case True
    then have "snd y \<in> set (map snd (filter (\<lambda>z. fst z = fst x) xs))" using y by auto
    moreover have "mg_header (snd x) \<notin> mg_header ` set (map snd (filter (\<lambda>z. fst z = fst x) xs))" using Cons.prems(1) [of "fst x"] by (simp add: image_image)
    ultimately show ?thesis by (metis imageI)
  next
    case False
    then show ?thesis using Cons.prems(2) [of x] Cons.prems(2) [of y] y assms(3) [OF False] by auto
  qed
  moreover have "distinct (map mg_header (map snd (filter (\<lambda>x. fst x = i) xs)))" for i
    using Cons.prems(1) [of i] by (auto split: if_splits)
  then have "distinct (headers xs)" using Cons by simp
  ultimately show ?case by auto
qed simp

text \<open>The headers of all messages are different; they are in allocated memory.\<close>

lemma live_distinct:
  assumes ok: "writers_ok q m a B" "i < is_writers a"
  shows "distinct (map mg_header (live_msgs i a))"
proof -
  obtain w where "writer_inv w m (B i) (sent_of i a) (is_open a i)" using writers_okD [OF ok] by blast
  from disjoint_headers [OF writer_inv_memory(1) [OF this]] show ?thesis by (simp only: live_msgs_def)
qed

lemma live_header:
  assumes ok: "writers_ok q m a B" "i < is_writers a" and g: "g \<in> set (live_msgs i a)"
  shows "fst (mg_header g) \<in> fst ` set (B i)" "fst (mg_header g) \<in> im_alloc m"
proof -
  obtain w where "writer_inv w m (B i) (sent_of i a) (is_open a i)" using writers_okD [OF ok(1,2)] by blast
  from writer_inv_header [OF this] show b: "fst (mg_header g) \<in> fst ` set (B i)" using g by (simp only: live_msgs_def)
  have "im_alloc m = (\<Union>i. fst ` set (B i))" using ok by (simp add: writers_ok_def)
  then show "fst (mg_header g) \<in> im_alloc m" using b by blast
qed

lemma sent_live: "x \<in> set (sent a) \<Longrightarrow> snd x \<in> set (live_msgs (fst x) a)"
  by (auto simp: live_msgs_def sent_of_def)

lemma sent_writer: "writers_ok q m a B \<Longrightarrow> x \<in> set (sent a) \<Longrightarrow> fst x < is_writers a"
  by (simp add: writers_ok_def)

lemma blocks_disjoint: "writers_ok q m a B \<Longrightarrow> i \<noteq> j \<Longrightarrow> fst ` set (B i) \<inter> fst ` set (B j) = {}"
  by (simp add: writers_ok_def)

lemma sent_distinct:
  assumes ok: "writers_ok q m a B"
  shows "distinct (headers (sent a))"
proof (rule distinct_headers [where S = "\<lambda>i. fst ` set (B i)"])
  show "distinct (map mg_header (map snd (filter (\<lambda>x. fst x = i) (sent a))))" for i
  proof (cases "i < is_writers a")
    case True
    then show ?thesis using live_distinct [OF ok True] by (simp add: live_msgs_def sent_of_def)
  next
    case False
    then have "filter (\<lambda>x. fst x = i) (sent a) = []" using sent_writer [OF ok] by (auto simp: filter_empty_conv)
    then show ?thesis by simp
  qed
  show "fst (mg_header (snd x)) \<in> fst ` set (B (fst x))" if "x \<in> set (sent a)" for x
    using live_header(1) [OF ok sent_writer [OF ok that] sent_live [OF that]] .
qed (rule blocks_disjoint [OF ok])

lemma open_not_sent:
  assumes ok: "writers_ok q m a B" and g: "is_open a i = Some g"
  shows "mg_header g \<notin> set (headers (sent a))"
proof
  assume "mg_header g \<in> set (headers (sent a))"
  then obtain x where x: "x \<in> set (sent a)" "mg_header g = mg_header (snd x)" by auto
  have i: "i < is_writers a" using writers_ok_open [OF ok, of i] g by simp
  have gl: "g \<in> set (live_msgs i a)" using g by (simp add: live_msgs_def)
  show False
  proof (cases "fst x = i")
    case True
    then have "snd x \<in> set (sent_of i a)" using x by (auto simp: sent_of_def)
    then show False using live_distinct [OF ok i] g x(2) by (force simp: live_msgs_def)
  next
    case False
    then show False using live_header(1) [OF ok i gl] live_header(1) [OF ok sent_writer [OF ok x(1)] sent_live [OF x(1)]] x(2)
        blocks_disjoint [OF ok False] by auto
  qed
qed

lemma hchain_cong: "(\<And>x. x \<in> set xs \<Longrightarrow> ih_next (im_header m' x) = ih_next (im_header m x)) \<Longrightarrow> hchain m' h xs = hchain m h xs"
  by (induction xs arbitrary: h) auto

lemma links_ok_cong:
  assumes "links_ok q m a" "is_queue a' = is_queue a" "iq_head q' = iq_head q" "iq_tail q' = iq_tail q" "\<And>x. ih_next (im_header m' x) = ih_next (im_header m x)"
  shows "links_ok q' m' a'"
  using assms hchain_cong [of "headers (is_queue a)" m' m] by (simp add: links_ok_def)

text \<open>New memory is apart from all memory in use.\<close>

lemma bytes_apart:
  assumes "bytes p \<inter> bytes q = {}" "0 < snd p" "0 < snd q"
  shows "apart p q"
proof (rule ccontr)
  assume "\<not> apart p q"
  then have "(fst (fst p), max (snd (fst p)) (snd (fst q))) \<in> bytes p \<inter> bytes q" using assms(2,3) by (auto simp: apart_def bytes_def)
  then show False using assms(1) by simp
qed

lemma live_memory_apart:
  assumes ok: "writers_ok q m a B" and ok': "writers_ok q' m' a' B'" and i: "i < is_writers a" and a': "is_writers a' = is_writers a" "\<And>j. j \<noteq> i \<Longrightarrow> live_msgs j a' = live_msgs j a"
    and p: "concat (map msg_memory (live_msgs i a')) = concat (map msg_memory (live_msgs i a)) @ ps" "p \<in> set ps" and r: "r \<in> set (live_memory a)"
  shows "apart p r"
proof -
  obtain w where w: "writer_inv w m' (B' i) (sent_of i a') (is_open a' i)" using writers_okD [OF ok', of i] i a'(1) by auto
  note mem = writer_inv_memory [OF w, folded live_msgs_def, unfolded p(1)]
  obtain j where j: "j < is_writers a" "r \<in> set (concat (map msg_memory (live_msgs j a)))" using r by (fastforce simp: live_memory_def)
  show ?thesis
  proof (cases "j = i")
    case True
    then have "bytes r \<inter> bytes p = {}" using mem(1) j p(2) unfolding disjoint_pieces_append by blast
    then show ?thesis using mem(3) [of p] mem(3) [of r] j True p(2) by (intro bytes_apart) auto
  next
    case False
    obtain wj where wj: "writer_inv wj m' (B' j) (sent_of j a') (is_open a' j)" using writers_okD [OF ok', of j] j a'(1) by auto
    have "fst (fst r) \<in> fst ` set (B' j)" using writer_inv_memory(2) [OF wj, folded live_msgs_def, unfolded a'(2) [OF False], OF j(2)] .
    moreover have "fst (fst p) \<in> fst ` set (B' i)" using mem(2) [of p] p(2) by simp
    ultimately have "fst (fst p) \<noteq> fst (fst r)" using blocks_disjoint [OF ok' False] by (metis disjoint_iff)
    then show ?thesis by (simp add: apart_def)
  qed
qed

end
