(* ===== verification/Genf_Itq_Steps.thy ===== *)
theory Genf_Itq_Steps
  imports Genf_Itq_Queue
begin

text \<open>
  Each operation of the queue between threads keeps the invariant and does what the specification
  promises; the properties of all reachable states follow.
\<close>

section \<open>Each operation\<close>

definition simulated :: "itq_event \<Rightarrow> itq_sys \<Rightarrow> itq_spec \<Rightarrow> bool" where
  "simulated ev y a = (\<exists>out y' B'. itq_exec ev y = Some (out, y') \<and> promised ev out a \<and> itq_inv y' (spec_next ev out a) B')"

lemma free_slot_None: "None \<notin> set ws \<Longrightarrow> free_slot ws = None"
proof (induction ws)
  case (Cons w ws)
  then show ?case by (cases w) auto
qed simp

lemma simulatedI:
  "itq_exec ev y = Some (out, y') \<Longrightarrow> promised ev out a \<Longrightarrow> itq_inv y' a' B' \<Longrightarrow> spec_next ev out a = a' \<Longrightarrow> simulated ev y a"
  by (auto simp: simulated_def)

lemma register_step:
  assumes inv: "itq_inv y a B" and al: "allowed Register y a"
  shows "simulated Register y a"
proof -
  let ?q = "iy_queue y" and ?n = "is_writers a" and ?a = "a\<lparr>is_writers := is_writers a + 1\<rparr>"
  have ok: "writers_ok ?q (iy_mem y) a B" "links_ok ?q (iy_mem y) a" using inv by (simp_all add: itq_inv_def)
  note ok' = ok(1)[unfolded writers_ok_def]
  have some: "\<exists>w. iq_writerVect ?q ! i = Some w" if "i < ?n" for i using ok' that by meson
  have "None \<notin> set (iq_writerVect ?q)"
  proof
    assume "None \<in> set (iq_writerVect ?q)"
    then obtain i where "i < ?n" "iq_writerVect ?q ! i = None" using ok' by (auto simp: in_set_conv_nth)
    then show False using some [of i] by auto
  qed
  from free_slot_None [OF this] obtain q' where r: "registerWriter ?q = (?n, q')"
    "iq_writerVect q' = iq_writerVect ?q @ [Some (itWriter_new\<lparr>iw_id := int ?n\<rparr>)]" "iq_head q' = iq_head ?q" "iq_tail q' = iq_tail ?q"
    using ok' by (simp add: registerWriter_def Let_def)
  have s: "sent ?a = sent a" "\<And>i. sent_of i ?a = sent_of i a" by (simp_all add: sent_def sent_of_def)
  have nil: "sent_of ?n a = []" using sent_writer [OF ok(1)] by (fastforce simp: sent_of_def filter_empty_conv)
  have new: "writer_inv (itWriter_new\<lparr>iw_id := int ?n\<rparr>) (iy_mem y) (B ?n) (sent_of ?n a) (is_open a ?n)"
    using ok' nil by (simp add: writer_inv_def wcore_def itWriter_new_def open_ok_def)
  have "\<exists>w. iq_writerVect q' ! i = Some w \<and> iw_id w = int i \<and> writer_inv w (iy_mem y) (B i) (sent_of i a) (is_open a i)" if "i < ?n + 1" for i
  proof (cases "i = ?n")
    case True
    then show ?thesis using new r(2) ok' by (simp add: nth_append)
  next
    case False
    then have "i < ?n" using that by simp
    moreover from this have "\<exists>w. iq_writerVect ?q ! i = Some w \<and> iw_id w = int i \<and> writer_inv w (iy_mem y) (B i) (sent_of i a) (is_open a i)" using ok' by meson
    ultimately show ?thesis using r(2) ok' by (simp add: nth_append)
  qed
  moreover have "\<forall>x \<in> set (sent a). fst x < Suc ?n" using sent_writer [OF ok(1)] by (simp add: less_SucI)
  ultimately have "writers_ok q' (iy_mem y) ?a B" unfolding writers_ok_def using ok' r(2) s al by simp
  moreover have "links_ok q' (iy_mem y) ?a" by (rule links_ok_cong [OF ok(2)]) (simp_all add: r)
  ultimately have "itq_inv (y\<lparr>iy_queue := q'\<rparr>) ?a B" using inv by (simp add: itq_inv_def)
  then show ?thesis using r(1) by (auto simp: simulated_def)
qed

text \<open>The effect of a growing writer on the others.\<close>

lemma grown_update:
  assumes ok: "writers_ok q m a B" and i: "i < is_writers a" and g: "grown m m' (B i) ext"
  shows "im_alloc m' = (im_alloc m - fst ` set (B i)) \<union> fst ` set (B i @ ext)" "fst ` set (B i @ ext) \<inter> (im_alloc m - fst ` set (B i)) = {}"
    "\<And>x. x \<in> im_alloc m - fst ` set (B i) \<Longrightarrow> im_block m' x = im_block m x"
proof -
  have al: "fst ` set (B i) \<subseteq> im_alloc m" using ok by (auto simp: writers_ok_def)
  show "im_alloc m' = (im_alloc m - fst ` set (B i)) \<union> fst ` set (B i @ ext)" using al g by (auto simp: grown_def image_Un)
  show "fst ` set (B i @ ext) \<inter> (im_alloc m - fst ` set (B i)) = {}" using al g by (auto simp: grown_def image_Un)
  show "im_block m' x = im_block m x" if "x \<in> im_alloc m - fst ` set (B i)" for x using g that by (simp add: grown_def image_Un) blast
qed

lemma open_step:
  assumes inv: "itq_inv y a B" and al: "allowed (Open i b1 b2 ID SZ) y a"
  shows "simulated (Open i b1 b2 ID SZ) y a"
proof -
  let ?q = "iy_queue y" and ?m = "iy_mem y"
  have ok: "writers_ok ?q ?m a B" "links_ok ?q ?m a" using inv by (simp_all add: itq_inv_def)
  have i: "i < is_writers a" "is_open a i = None" using al by simp_all
  obtain w where w: "writer_at ?q i = Some w" "iw_id w = int i" "writer_inv w ?m (B i) (sent_of i a) None" using writers_okD [OF ok(1) i(1)] i(2) by metis
  obtain hdr msg w' m' ext where o: "itqOpen b1 b2 ID SZ (w, ?m) = Some (msg, w', m')"
    "writer_inv w' m' (B i @ ext) (sent_of i a) (Some \<lparr>mg_id = ID, mg_header = hdr, mg_pieces = [(msg, SZ)]\<rparr>)"
    "iw_id w' = iw_id w" "iw_toSend w' = Some hdr" "grown ?m m' (B i) ext" "\<And>x. x \<noteq> hdr \<Longrightarrow> im_header m' x = im_header ?m x"
    "\<And>x. ih_next (im_header m' x) = ih_next (im_header ?m x)"
    by (rule itqOpen_ok [OF w(3), of SZ b1 b2 ID]) (use al in \<open>auto simp: fresh_def\<close>)
  let ?g = "\<lparr>mg_id = ID, mg_header = hdr, mg_pieces = [(msg, SZ)]\<rparr>"
  let ?a = "a\<lparr>is_open := (is_open a)(i := Some ?g)\<rparr>" and ?q' = "set_writer i w' ?q"
  have s: "sent ?a = sent a" "\<And>j. sent_of j ?a = sent_of j a" by (simp_all add: sent_def sent_of_def)
  have hb: "fst hdr \<in> fst ` set (B i @ ext)" using writer_inv_header [OF o(2), of ?g] by simp
  have gu: "im_alloc m' = (im_alloc ?m - fst ` set (B i)) \<union> fst ` set (B i @ ext)" "fst ` set (B i @ ext) \<inter> (im_alloc ?m - fst ` set (B i)) = {}"
    "\<And>x. x \<in> im_alloc ?m - fst ` set (B i) \<Longrightarrow> im_block m' x = im_block ?m x" using grown_update [OF ok(1) i(1) o(5)] by blast+
  have "im_header m' x = im_header ?m x" if "fst x \<in> im_alloc ?m - fst ` set (B i)" for x using hb gu(2) that by (intro o(6)) blast
  then have ok1: "writers_ok ?q' m' ?a (B(i := B i @ ext))"
    by (intro writers_ok_update [OF ok(1) i(1), where w' = w', OF _ _ _ _ _ _ _ gu]) (use o(2,3) w(2) s in \<open>auto simp: set_writer_def\<close>)
  have mem: "concat (map msg_memory (live_msgs i ?a)) = concat (map msg_memory (live_msgs i a)) @ [(hdr, 16), (msg, SZ)]"
    using i(2) s by (simp add: live_msgs_def msg_memory_def)
  have ap: "apart p r" if "p \<in> set [(hdr, 16), (msg, SZ)]" "r \<in> set (live_memory a)" for p r
    by (rule live_memory_apart [OF ok(1) ok1 i(1) _ _ mem that]) (use s in \<open>simp_all add: live_msgs_def\<close>)
  have "disjoint_pieces (concat (map msg_memory (live_msgs i ?a)))"
    using writer_inv_memory(1) [OF o(2)] s by (simp add: live_msgs_def)
  then have "apart (hdr, 16) (msg, SZ)" using al unfolding mem disjoint_pieces_append by (intro bytes_apart) auto
  then have pr: "promised (Open i b1 b2 ID SZ) (Opened hdr msg) a" using ap by simp
  have "links_ok ?q' m' ?a" by (rule links_ok_cong [OF ok(2)]) (simp_all add: set_writer_def o(7))
  then have inv': "itq_inv (y\<lparr>iy_queue := ?q', iy_mem := m'\<rparr>) ?a (B(i := B i @ ext))" using ok1 inv by (simp add: itq_inv_def)
  have ex: "itq_exec (Open i b1 b2 ID SZ) y = Some (Opened hdr msg, y\<lparr>iy_queue := ?q', iy_mem := m'\<rparr>)" using w(1) o(1,4) by simp
  show ?thesis by (rule simulatedI [OF ex pr inv']) simp
qed

lemma more_step:
  assumes inv: "itq_inv y a B" and al: "allowed (More i b n) y a"
  shows "simulated (More i b n) y a"
proof -
  let ?q = "iy_queue y" and ?m = "iy_mem y"
  have ok: "writers_ok ?q ?m a B" "links_ok ?q ?m a" using inv by (simp_all add: itq_inv_def)
  obtain g where g: "is_open a i = Some g" using al by auto
  have i: "i < is_writers a" using writers_ok_open [OF ok(1)] g by simp
  obtain w where w: "writer_at ?q i = Some w" "iw_id w = int i" "writer_inv w ?m (B i) (sent_of i a) (Some g)" using writers_okD [OF ok(1) i] g by metis
  obtain x w' m' ext where o: "it_allocBytes b n (w, ?m) = Some (x, w', m')"
    "writer_inv w' m' (B i @ ext) (sent_of i a) (Some (g\<lparr>mg_pieces := mg_pieces g @ [(x, n)]\<rparr>))"
    "iw_id w' = iw_id w" "grown ?m m' (B i) ext" "im_header m' = im_header ?m"
    by (rule it_more_ok [OF w(3), of n b]) (use al in \<open>auto simp: fresh_def\<close>)
  let ?g = "g\<lparr>mg_pieces := mg_pieces g @ [(x, n)]\<rparr>"
  let ?a = "a\<lparr>is_open := (is_open a)(i := Some ?g)\<rparr>" and ?q' = "set_writer i w' ?q"
  have s: "sent ?a = sent a" "\<And>j. sent_of j ?a = sent_of j a" by (simp_all add: sent_def sent_of_def)
  have gu: "im_alloc m' = (im_alloc ?m - fst ` set (B i)) \<union> fst ` set (B i @ ext)" "fst ` set (B i @ ext) \<inter> (im_alloc ?m - fst ` set (B i)) = {}"
    "\<And>x. x \<in> im_alloc ?m - fst ` set (B i) \<Longrightarrow> im_block m' x = im_block ?m x" using grown_update [OF ok(1) i o(4)] by blast+
  have ok1: "writers_ok ?q' m' ?a (B(i := B i @ ext))"
    by (intro writers_ok_update [OF ok(1) i, where w' = w', OF _ _ _ _ _ _ _ gu]) (use o(2,3,5) w(2) s in \<open>auto simp: set_writer_def\<close>)
  have mem: "concat (map msg_memory (live_msgs i ?a)) = concat (map msg_memory (live_msgs i a)) @ [(x, n)]"
    using g s by (simp add: live_msgs_def msg_memory_def)
  have "apart (x, n) r" if "r \<in> set (live_memory a)" for r
    by (rule live_memory_apart [OF ok(1) ok1 i _ _ mem _ that]) (use s in \<open>simp_all add: live_msgs_def\<close>)
  then have pr: "promised (More i b n) (Memory x) a" by simp
  have "links_ok ?q' m' ?a" by (rule links_ok_cong [OF ok(2)]) (simp_all add: set_writer_def o(5))
  then have inv': "itq_inv (y\<lparr>iy_queue := ?q', iy_mem := m'\<rparr>) ?a (B(i := B i @ ext))" using ok1 inv by (simp add: itq_inv_def)
  have ex: "itq_exec (More i b n) y = Some (Memory x, y\<lparr>iy_queue := ?q', iy_mem := m'\<rparr>)" using w(1) o(1) by simp
  show ?thesis by (rule simulatedI [OF ex pr inv']) (simp add: g)
qed

lemma set_hnext_simps [simp]:
  "im_alloc (set_hnext h n m) = im_alloc m" "im_block (set_hnext h n m) = im_block m"
  "im_header (set_hnext h n m) x = (if x = h then (im_header m h)\<lparr>ih_next := n\<rparr> else im_header m x)"
  by (simp_all add: set_hnext_def)

lemma set_hlength_simps [simp]:
  "im_alloc (set_hlength h n m) = im_alloc m" "im_block (set_hlength h n m) = im_block m"
  "im_header (set_hlength h n m) x = (if x = h then (im_header m h)\<lparr>ih_length := word_of_int n\<rparr> else im_header m x)"
  by (simp_all add: set_hlength_def)

text \<open>Sending puts the open message behind the sent ones; its length is now in the header.\<close>

lemma writer_inv_send:
  assumes inv: "writer_inv w m bs gs (Some g)" and len: "iw_mlen w < 2 ^ 31"
    and hdr: "ih_length (im_header m' (mg_header g)) = word_of_int (iw_mlen w)" "\<And>x. x \<noteq> mg_header g \<Longrightarrow> ih_length (im_header m' x) = ih_length (im_header m x)"
    and ids: "\<And>x. ih_msgId (im_header m' x) = ih_msgId (im_header m x)" "\<And>x. ih_writerId (im_header m' x) = ih_writerId (im_header m x)"
    and blk: "im_alloc m' = im_alloc m" "im_block m' = im_block m"
  shows "writer_inv w m' bs (gs @ [g]) None"
proof -
  have "mg_header g \<notin> mg_header ` set gs" using disjoint_headers [OF writer_inv_memory(1) [OF inv]] by simp
  then have ne: "mg_header h \<noteq> mg_header g" if "h \<in> set gs" for h using that by (metis imageI)
  have al: "fst ` set bs \<subseteq> im_alloc m" using inv chain_alloc by (fastforce simp: writer_inv_def wcore_def)
  have "writer_inv w m' bs gs (Some g)"
    by (rule writer_inv_cong [OF inv]) (use al blk hdr(2) ids ne in auto)
  then obtain cs bs1 off1 where l: "wcore w m' bs" "\<forall>h \<in> set gs \<union> {g}. header_ok m' (iw_id w) h \<and> sized h"
    "lay_msgs bs (iw_hoff w) gs = Some (cs, bs1, off1)" "list_all2 (sent_ok m') gs cs"
    "lay_msgs bs1 off1 [g] = Some ([iw_mlen w], tailblks bs, iw_toff w)"
    by (auto simp: writer_inv_def open_ok_def)
  have "lay_msgs bs (iw_hoff w) (gs @ [g]) = Some (cs @ [iw_mlen w], tailblks bs, iw_toff w)" using l(3,5) by (simp add: lay_msgs_append del: lay_msgs.simps(2))
  moreover have "list_all2 (sent_ok m') (gs @ [g]) (cs @ [iw_mlen w])" using l(4) len hdr(1) by (auto simp: sent_ok_def intro: list_all2_appendI)
  ultimately show ?thesis using l(1,2) by (simp add: writer_inv_def open_ok_def)
qed

lemma hchain_snoc:
  assumes "hchain m h xs" "xs \<noteq> []" "distinct (xs @ [s])"
    and "\<And>x. ih_next (im_header m' x) = (if x = s then None else if x = last xs then Some s else ih_next (im_header m x))"
  shows "hchain m' h (xs @ [s])"
  using assms
proof (induction xs arbitrary: h)
  case (Cons x xs)
  show ?case
  proof (cases "xs = []")
    case False
    then have "x \<noteq> last xs" "x \<noteq> s" using Cons.prems(3) by (auto dest: last_in_set)
    moreover have "hchain m' (ih_next (im_header m x)) (xs @ [s])" using Cons.prems False by (intro Cons.IH) auto
    ultimately show ?thesis using Cons.prems(1,4) False by simp
  qed (use Cons.prems in auto)
qed simp

lemma hchain_None: "hchain m h xs \<Longrightarrow> h = None \<longleftrightarrow> xs = []"
  by (cases xs) auto

text \<open>The list of headers after \<open>send\<close>, and that nothing but links and the length of the new message changes.\<close>

lemma itq_send_ok:
  assumes lk: "links_ok q m a" and dis: "distinct (headers (is_queue a) @ [s])" and s: "iw_toSend w = Some s" "fst s \<in> im_alloc m"
    and al: "\<And>x. x \<in> set (headers (is_queue a)) \<Longrightarrow> fst x \<in> im_alloc m"
  obtains q' m' where "itq_send w (q, m) = Some (q', m')" "iq_writerVect q' = iq_writerVect q"
    "hchain m' (iq_head q') (headers (is_queue a) @ [s])" "iq_tail q' = Some s"
    "im_alloc m' = im_alloc m" "im_block m' = im_block m"
    "\<And>x. ih_msgId (im_header m' x) = ih_msgId (im_header m x)" "\<And>x. ih_writerId (im_header m' x) = ih_writerId (im_header m x)"
    "ih_length (im_header m' s) = word_of_int (iw_mlen w)" "\<And>x. x \<noteq> s \<Longrightarrow> ih_length (im_header m' x) = ih_length (im_header m x)"
proof (cases "is_queue a = []")
  case True
  then have "iq_head q = None" using lk by (simp add: links_ok_def)
  then show ?thesis using s True
    by (intro that [of "q\<lparr>iq_head := Some s, iq_tail := Some s\<rparr>" "set_hnext s None (set_hlength s (iw_mlen w) m)"]) (simp_all add: itq_send_def)
next
  case False
  let ?t = "last (headers (is_queue a))"
  have h: "hchain m (iq_head q) (headers (is_queue a))" "iq_tail q = Some ?t" using lk False by (simp_all add: links_ok_def)
  have hd: "iq_head q \<noteq> None" using hchain_None [OF h(1)] False by simp
  have t: "?t \<in> set (headers (is_queue a))" using False last_in_set [of "headers (is_queue a)"] by simp
  let ?m = "set_hnext s None (set_hnext ?t (Some s) (set_hlength s (iw_mlen w) m))"
  have "?t \<noteq> s" using dis t by auto
  then have ch: "hchain ?m (iq_head q) (headers (is_queue a) @ [s])" by (intro hchain_snoc [OF h(1) _ dis]) (use False in simp_all)
  show ?thesis
    by (rule that [of "q\<lparr>iq_tail := Some s\<rparr>" ?m]) (use s h(2) hd al [OF t] ch \<open>?t \<noteq> s\<close> in \<open>auto simp: itq_send_def Let_def\<close>)
qed

lemma queue_sent: "x \<in> set (is_queue a) \<Longrightarrow> x \<in> set (sent a)"
  by (simp add: sent_def)

lemma send_step:
  assumes inv: "itq_inv y a B" and al: "allowed (Send i) y a"
  shows "simulated (Send i) y a"
proof -
  let ?q = "iy_queue y" and ?m = "iy_mem y"
  have ok: "writers_ok ?q ?m a B" "links_ok ?q ?m a" using inv by (simp_all add: itq_inv_def)
  obtain g where g: "is_open a i = Some g" using al by auto
  have i: "i < is_writers a" using writers_ok_open [OF ok(1)] g by simp
  obtain w where w: "writer_at ?q i = Some w" "iw_id w = int i" "writer_inv w ?m (B i) (sent_of i a) (Some g)" using writers_okD [OF ok(1) i] g by metis
  have ts: "iw_toSend w = Some (mg_header g)" using w(3) by (auto simp: writer_inv_def open_ok_def)
  have gl: "g \<in> set (live_msgs i a)" using g by (simp add: live_msgs_def)
  have dis: "distinct (headers (is_queue a) @ [mg_header g])" using sent_distinct [OF ok(1)] open_not_sent [OF ok(1) g] by (auto simp: sent_def split: option.splits)
  have alq: "fst x \<in> im_alloc ?m" if "x \<in> set (headers (is_queue a))" for x
    using that live_header(2) [OF ok(1) sent_writer [OF ok(1)] sent_live] queue_sent by fastforce
  obtain q' m' where s: "itq_send w (?q, ?m) = Some (q', m')" "iq_writerVect q' = iq_writerVect ?q"
    "hchain m' (iq_head q') (headers (is_queue a) @ [mg_header g])" "iq_tail q' = Some (mg_header g)"
    "im_alloc m' = im_alloc ?m" "im_block m' = im_block ?m"
    "\<And>x. ih_msgId (im_header m' x) = ih_msgId (im_header ?m x)" "\<And>x. ih_writerId (im_header m' x) = ih_writerId (im_header ?m x)"
    "ih_length (im_header m' (mg_header g)) = word_of_int (iw_mlen w)" "\<And>x. x \<noteq> mg_header g \<Longrightarrow> ih_length (im_header m' x) = ih_length (im_header ?m x)"
    by (rule itq_send_ok [OF ok(2) dis ts live_header(2) [OF ok(1) i gl] alq]) blast+
  let ?a = "a\<lparr>is_open := (is_open a)(i := None), is_queue := is_queue a @ [(i, g)]\<rparr>"
  have so: "sent ?a = sent a @ [(i, g)]" "sent_of i ?a = sent_of i a @ [g]" "\<And>j. j \<noteq> i \<Longrightarrow> sent_of j ?a = sent_of j a"
    by (simp_all add: sent_def sent_of_def split: option.splits)
  have wi: "writer_inv w m' (B i) (sent_of i ?a) None" unfolding so(2)
    by (rule writer_inv_send [OF w(3) _ s(9,10,7,8,5,6)]) (use al w(1) in simp)
  have alB: "fst ` set (B i) \<subseteq> im_alloc ?m" using ok(1) by (auto simp: writers_ok_def)
  have hb: "fst (mg_header g) \<in> fst ` set (B i)" by (rule live_header(1) [OF ok(1) i gl])
  have vec: "iq_writerVect q' = (iq_writerVect ?q)[i := Some w]" using s(2) w(1) i by (simp add: writer_at_def split: if_splits) (metis list_update_id)
  have ok1: "writers_ok q' m' ?a (B(i := B i))"
  proof (rule writers_ok_update [OF ok(1) i w(2)])
    show "writer_inv w m' (B i) (sent_of i ?a) (is_open ?a i)" using wi by simp
    show "ih_msgId (im_header m' x) = ih_msgId (im_header ?m x) \<and> ih_writerId (im_header m' x) = ih_writerId (im_header ?m x) \<and>
        ih_length (im_header m' x) = ih_length (im_header ?m x)" if "fst x \<in> im_alloc ?m - fst ` set (B i)" for x
      using s(7,8) s(10) [of x] hb that by auto
  qed (use so vec s(5,6) alB in auto)
  have lk: "links_ok q' m' ?a" using s(3,4) by (simp add: links_ok_def)
  have ex: "itq_exec (Send i) y = Some (Done, y\<lparr>iy_queue := q', iy_mem := m'\<rparr>)" using w(1) s(1) by simp
  have inv': "itq_inv (y\<lparr>iy_queue := q', iy_mem := m'\<rparr>) ?a (B(i := B i))" using ok1 lk inv by (simp add: itq_inv_def)
  show ?thesis by (rule simulatedI [OF ex _ inv']) (simp_all add: g)
qed

lemma wait_step:
  assumes inv: "itq_inv y a B" and al: "allowed Wait y a"
  shows "simulated Wait y a"
proof -
  let ?q = "iy_queue y" and ?m = "iy_mem y"
  have ok: "writers_ok ?q ?m a B" "links_ok ?q ?m a" using inv by (simp_all add: itq_inv_def)
  obtain i g xs where q: "is_queue a = (i, g) # xs" "is_reading a = None" using al by (cases "is_queue a") auto
  let ?h = "mg_header g" and ?a = "a\<lparr>is_reading := Some (i, g), is_queue := xs\<rparr>"
  let ?m' = "set_hnext ?h None ?m" and ?q' = "?q\<lparr>iq_head := ih_next (im_header ?m ?h)\<rparr>"
  have hd: "iq_head ?q = Some ?h" "hchain ?m (ih_next (im_header ?m ?h)) (headers xs)" using ok(2) q by (simp_all add: links_ok_def)
  have gs: "(i, g) \<in> set (sent a)" using q by (simp add: sent_def)
  have alloc: "fst ?h \<in> im_alloc ?m" using live_header(2) [OF ok(1) sent_writer [OF ok(1) gs] sent_live [OF gs]] by simp
  have so: "sent ?a = sent a" "\<And>j. sent_of j ?a = sent_of j a" using q by (simp_all add: sent_def sent_of_def)
  have nh: "?h \<notin> set (headers xs)" using sent_distinct [OF ok(1)] q by (simp add: sent_def)
  have same: "(\<exists>w. iq_writerVect ?q ! j = Some w \<and> iw_id w = int j \<and> writer_inv w ?m' (B j) (sent_of j a) (is_open a j))" if j: "j < is_writers a" for j
  proof -
    obtain w where w: "iq_writerVect ?q ! j = Some w" "iw_id w = int j" "writer_inv w ?m (B j) (sent_of j a) (is_open a j)"
      using writers_okD [OF ok(1) j] j ok(1) by (auto simp: writer_at_def writers_ok_def)
    have "fst ` set (B j) \<subseteq> im_alloc ?m" using ok(1) by (auto simp: writers_ok_def)
    then have "writer_inv w ?m' (B j) (sent_of j a) (is_open a j)" by (intro writer_inv_cong [OF w(3)]) auto
    then show ?thesis using w by blast
  qed
  have ok1: "writers_ok ?q' ?m' ?a B" using ok(1) same so unfolding writers_ok_def by simp
  have "hchain ?m' h (headers xs) = hchain ?m h (headers xs)" for h by (rule hchain_cong) (use nh in \<open>metis set_hnext_simps(3)\<close>)
  then have "hchain ?m' (ih_next (im_header ?m ?h)) (headers xs)" using hd(2) by blast
  then have lk: "links_ok ?q' ?m' ?a" using ok(2) q by (simp add: links_ok_def split: if_splits)
  obtain w where "writer_inv w ?m (B i) (sent_of i a) (is_open a i)" using writers_okD [OF ok(1), of i] sent_writer [OF ok(1) gs] by auto
  moreover have "g \<in> set (sent_of i a)" using gs by (force simp: sent_of_def)
  ultimately have id: "ih_msgId (im_header ?m ?h) = mg_id g" by (simp add: writer_inv_def header_ok_def)
  have ex: "itq_exec Wait y = Some (Header ?h (mg_id g), y\<lparr>iy_queue := ?q', iy_mem := ?m', iy_current := Some ?h\<rparr>)"
    using hd(1) alloc id by (simp add: itq_wait_def)
  have inv': "itq_inv (y\<lparr>iy_queue := ?q', iy_mem := ?m', iy_current := Some ?h\<rparr>) ?a B" using ok1 lk by (simp add: itq_inv_def)
  show ?thesis by (rule simulatedI [OF ex _ inv']) (simp_all add: q)
qed

text \<open>The message being read is the first of its writer.\<close>

lemma reading_first:
  assumes ok: "writers_ok q m a B" and r: "is_reading a = Some (i, g)"
  obtains w gs where "i < is_writers a" "writer_at q i = Some w" "iw_id w = int i" "writer_inv w m (B i) (g # gs) (is_open a i)" "sent_of i a = g # gs"
    "unat (ih_writerId (im_header m (mg_header g))) = i" "fst (mg_header g) \<in> im_alloc m"
proof -
  have gs: "(i, g) \<in> set (sent a)" using r by (simp add: sent_def)
  have i: "i < is_writers a" using sent_writer [OF ok gs] by simp
  obtain w where w: "writer_at q i = Some w" "iw_id w = int i" "writer_inv w m (B i) (sent_of i a) (is_open a i)" using writers_okD [OF ok i] by blast
  have so: "sent_of i a = g # map snd (filter (\<lambda>x. fst x = i) (is_queue a))" using r by (simp add: sent_of_def sent_def)
  then have "ih_writerId (im_header m (mg_header g)) = word_of_int (int i)" using w(2,3) by (simp add: writer_inv_def header_ok_def)
  moreover have "i < 65536" using i ok by (simp add: writers_ok_def)
  ultimately have "unat (ih_writerId (im_header m (mg_header g))) = i" by (simp add: unat_of_nat)
  moreover have "fst (mg_header g) \<in> im_alloc m" using live_header(2) [OF ok i] sent_live [OF gs] by simp
  ultimately show ?thesis using that i w so by simp
qed

lemma read_step:
  assumes inv: "itq_inv y a B" and al: "allowed (Read SZ) y a"
  shows "simulated (Read SZ) y a"
proof -
  let ?q = "iy_queue y" and ?m = "iy_mem y"
  obtain i g where r: "is_reading a = Some (i, g)" "SZ = snd (hd (mg_pieces g))" using al by (auto split: option.splits)
  have ok: "writers_ok ?q ?m a B" using inv by (simp add: itq_inv_def)
  obtain w gs where w: "writer_at ?q i = Some w" "writer_inv w ?m (B i) (g # gs) (is_open a i)"
    "unat (ih_writerId (im_header ?m (mg_header g))) = i" "fst (mg_header g) \<in> im_alloc ?m" using reading_first [OF ok r(1)] by blast
  have "mg_pieces g \<noteq> []" using w(2) by (simp add: writer_inv_def sized_def)
  then obtain ps where ps: "mg_pieces g = (fst (hd (mg_pieces g)), SZ) # ps" using r(2) by (cases "mg_pieces g") auto
  have "itqRead ?q ?m (mg_header g) SZ = Some (fst (hd (mg_pieces g)))"
    using read_first [OF w(2) ps] w by (simp add: itqRead_def)
  moreover have "iy_current y = Some (mg_header g)" using inv r by (simp add: itq_inv_def)
  ultimately have ex: "itq_exec (Read SZ) y = Some (Memory (fst (hd (mg_pieces g))), y)" by simp
  show ?thesis by (rule simulatedI [OF ex _ inv]) (simp_all add: r)
qed

lemma release_step:
  assumes inv: "itq_inv y a B" and al: "allowed Release y a"
  shows "simulated Release y a"
proof -
  let ?q = "iy_queue y" and ?m = "iy_mem y"
  obtain i g where r: "is_reading a = Some (i, g)" using al by auto
  have ok: "writers_ok ?q ?m a B" "links_ok ?q ?m a" using inv by (simp_all add: itq_inv_def)
  obtain w gs where w: "i < is_writers a" "writer_at ?q i = Some w" "iw_id w = int i" "writer_inv w ?m (B i) (g # gs) (is_open a i)" "sent_of i a = g # gs"
    "unat (ih_writerId (im_header ?m (mg_header g))) = i" "fst (mg_header g) \<in> im_alloc ?m" using reading_first [OF ok(1) r] by blast
  obtain w' dr bs' where rl: "release_writer (sint (ih_length (im_header ?m (mg_header g)))) (w, ?m) = Some (w', free_blocks dr ?m)"
    "writer_inv w' (free_blocks dr ?m) bs' gs (is_open a i)" "B i = dr @ bs'" "iw_id w' = iw_id w" using release_writer_ok [OF w(4)] by blast
  let ?a = "a\<lparr>is_reading := None\<rparr>" and ?q' = "set_writer i w' ?q" and ?m' = "free_blocks dr ?m"
  have so: "sent_of i ?a = gs" "\<And>j. j \<noteq> i \<Longrightarrow> sent_of j ?a = sent_of j a" "set (sent ?a) \<subseteq> set (sent a)"
    using r w(5) by (auto simp: sent_of_def sent_def)
  have alB: "fst ` set (B i) \<subseteq> im_alloc ?m" using ok(1) by (auto simp: writers_ok_def)
  have "distinct (map fst (B i))" using w(4) by (simp add: writer_inv_def wcore_def)
  then have dd: "fst ` set dr \<inter> fst ` set bs' = {}" using rl(3) by auto
  have "im_alloc ?m' = im_alloc ?m - fst ` set (B i) \<union> fst ` set bs'" using alB dd unfolding rl(3) by (auto simp: image_Un)
  moreover have "fst ` set bs' \<inter> (im_alloc ?m - fst ` set (B i)) = {}" unfolding rl(3) by auto
  ultimately have ok1: "writers_ok ?q' ?m' ?a (B(i := bs'))"
    by (intro writers_ok_update [OF ok(1) w(1), where w' = w']) (use rl(2,4) w(3) so in \<open>auto simp: set_writer_def\<close>)
  have lk: "links_ok ?q' ?m' ?a" by (rule links_ok_cong [OF ok(2)]) (simp_all add: set_writer_def)
  have "iy_current y = Some (mg_header g)" using inv r by (simp add: itq_inv_def)
  then have ex: "itq_exec Release y = Some (Done, y\<lparr>iy_queue := ?q', iy_mem := ?m', iy_current := None\<rparr>)"
    using rl(1) w by (simp add: it_release_def Let_def)
  have inv': "itq_inv (y\<lparr>iy_queue := ?q', iy_mem := ?m', iy_current := None\<rparr>) ?a (B(i := bs'))" using ok1 lk by (simp add: itq_inv_def)
  show ?thesis by (rule simulatedI [OF ex _ inv']) simp_all
qed

lemma itq_step: "itq_inv y a B \<Longrightarrow> allowed ev y a \<Longrightarrow> simulated ev y a"
  by (cases ev) (blast intro: register_step open_step more_step send_step wait_step read_step release_step)+

lemma itq_init_inv: "itq_inv itq_init spec_init (\<lambda>_. [])"
  by (simp add: itq_inv_def itq_init_def spec_init_def writers_ok_def links_ok_def itQueue_new_def sent_def)

lemma itq_reachable_inv: "itq_reachable y a \<Longrightarrow> \<exists>B. itq_inv y a B"
proof (induction rule: itq_reachable.induct)
  case init
  show ?case using itq_init_inv by blast
next
  case (step y a ev out y')
  then show ?case using itq_step [of y a _ ev] by (auto simp: simulated_def)
qed

section \<open>Properties\<close>

text \<open>Playing a sequence of events from the start, as long as they are allowed.\<close>

fun itq_play :: "itq_event list \<Rightarrow> itq_sys \<times> itq_spec \<Rightarrow> (itq_sys \<times> itq_spec) option" where
  "itq_play [] s = Some s"
| "itq_play (ev # evs) (y, a) =
     (if allowed ev y a then Option.bind (itq_exec ev y) (\<lambda>(out, y'). itq_play evs (y', spec_next ev out a)) else None)"

lemma itq_play_reachable: "itq_play evs (y, a) = Some (y', a') \<Longrightarrow> itq_reachable y a \<Longrightarrow> itq_reachable y' a'"
proof (induction evs arbitrary: y a)
  case (Cons ev evs)
  obtain out y1 where s: "allowed ev y a" "itq_exec ev y = Some (out, y1)" "itq_play evs (y1, spec_next ev out a) = Some (y', a')"
    using Cons.prems(1) by (auto split: if_splits bind_splits)
  show ?case by (rule Cons.IH [OF s(3) itq_reachable.step [OF Cons.prems(2) s(1,2)]])
qed simp


abbreviation demo_events :: "itq_event list" where
  "demo_events \<equiv> [Register, Open 0 10 11 7 4080, More 0 14 100, Send 0, Wait]"

lemmas itq_defs = itq_init_def itQueue_new_def spec_init_def registerWriter_def writer_at_def set_writer_def itWriter_new_def
  itqOpen_def it_allocBytes_def itq_send_def itq_wait_def itqRead_def it_release_def release_writer_def skip_to_def live_def
  allocateBlock_def set_bnext_def set_hopen_def set_hlength_def set_hnext_def freeBlock_def fresh_def Let_def



text \<open>
  (C37) The queue does not leak memory: when every message was sent and released, at most one block per
  writer is still allocated.
\<close>

theorem itq_no_leak:
  assumes "itq_reachable y a" and "is_queue a = []" and "is_reading a = None" and "is_open a = (\<lambda>_. None)"
  shows "finite (im_alloc (iy_mem y)) \<and> card (im_alloc (iy_mem y)) \<le> is_writers a"
proof -
  obtain B where inv: "itq_inv y a B" using itq_reachable_inv [OF assms(1)] by blast
  then have ok: "writers_ok (iy_queue y) (iy_mem y) a B" by (simp add: itq_inv_def)
  have one: "card (fst ` set (B i)) \<le> 1" if i: "i < is_writers a" for i
  proof -
    obtain w where "writer_inv w (iy_mem y) (B i) (sent_of i a) (is_open a i)" using writers_okD [OF ok i] by blast
    then have "B i = tailblks (B i)" using assms(2-4) by (simp add: writer_inv_def open_ok_def sent_of_def sent_def)
    then have "length (B i) \<le> 1" using tailblks_length by metis
    moreover have "card (fst ` set (B i)) \<le> card (set (B i))" by (rule card_image_le) simp
    ultimately show ?thesis using card_length [of "B i"] by linarith
  qed
  have al: "im_alloc (iy_mem y) = (\<Union>i. fst ` set (B i))" and nil: "\<And>i. \<not> i < is_writers a \<Longrightarrow> B i = []" using ok by (simp_all add: writers_ok_def)
  have "i < is_writers a" if "x \<in> fst ` set (B i)" for x i using nil [of i] that by (cases "i < is_writers a") auto
  then have al: "im_alloc (iy_mem y) = (\<Union>i \<in> {..<is_writers a}. fst ` set (B i))" unfolding al by blast
  have "card (\<Union>i \<in> {..<is_writers a}. fst ` set (B i)) \<le> (\<Sum>i \<in> {..<is_writers a}. card (fst ` set (B i)))" by (rule card_UN_le) simp
  also have "\<dots> \<le> (\<Sum>i \<in> {..<is_writers a}. 1)" by (rule sum_mono) (use one in simp)
  finally show ?thesis using al by simp
qed

lemma demo_released: "(case itq_play (demo_events @ [Release]) (itq_init, spec_init) of None \<Rightarrow> False
    | Some (y, a) \<Rightarrow> is_queue a = [] \<and> is_reading a = None \<and> is_open a = (\<lambda>_. None) \<and> is_writers a = 1)"
  by (simp add: itq_defs release_loop.simps)

lemma itq_no_leak_witness:
  "\<exists>y a. itq_play (demo_events @ [Release]) (itq_init, spec_init) = Some (y, a) \<and> card (im_alloc (iy_mem y)) \<le> 1"
proof -
  obtain y a where p: "itq_play (demo_events @ [Release]) (itq_init, spec_init) = Some (y, a)" "is_queue a = []" "is_reading a = None"
    "is_open a = (\<lambda>_. None)" "is_writers a = 1"
    using demo_released by (auto simp del: itq_play.simps split: option.splits)
  from itq_no_leak [OF itq_play_reachable [OF p(1) itq_reachable.init] p(2-4)] show ?thesis using p(1,5) by auto
qed

end
