(* ===== verification/Genf_Write.thy ===== *)
theory Genf_Write
  imports Prelude
begin

text \<open>
  Buffered writing on a descriptor: the flags of \<open>SelectFd\<close>, \<open>Connection::read\<close> and \<open>write\<close>, and
  \<open>WriteBuffer\<close> of \<open>genf/process.cc\<close>. What the kernel does with each call of \<open>write\<close> is a schedule;
  what it accepted is on the wire. The rope is a list of blocks of bytes; \<open>append\<close> is the library's,
  which may extend the last block or add blocks, and is an argument \<open>app\<close> here.
\<close>

section \<open>The descriptor\<close>

record select_fd =
  wantRead :: bool
  wantWrite :: bool
  fd_closed :: bool
  tlsWantRead :: bool
  tlsWantWrite :: bool
  tlsEstablished :: bool
  tlsWriteWantsRead :: bool
  tlsReadWantsWrite :: bool

definition selectFd_new :: select_fd where
  "selectFd_new = \<lparr>wantRead = False, wantWrite = False, fd_closed = False, tlsWantRead = False, tlsWantWrite = False,
     tlsEstablished = False, tlsWriteWantsRead = False, tlsReadWantsWrite = False\<rparr>"

definition wantReadGet :: "select_fd \<Rightarrow> bool" where
  "wantReadGet fd = (if \<not> tlsEstablished fd then wantRead fd else tlsWantRead fd \<or> tlsWantWrite fd \<and> tlsWriteWantsRead fd)"

definition wantWriteGet :: "select_fd \<Rightarrow> bool" where
  "wantWriteGet fd = (if \<not> tlsEstablished fd then wantWrite fd else tlsWantWrite fd \<or> tlsWantRead fd \<and> tlsReadWantsWrite fd)"

definition wantReadSet :: "bool \<Rightarrow> select_fd \<Rightarrow> select_fd" where
  "wantReadSet v fd = (if \<not> tlsEstablished fd then fd\<lparr>wantRead := v\<rparr> else fd\<lparr>tlsWantRead := v\<rparr>)"

definition wantWriteSet :: "bool \<Rightarrow> select_fd \<Rightarrow> select_fd" where
  "wantWriteSet v fd = (if \<not> tlsEstablished fd then fd\<lparr>wantWrite := v\<rparr> else fd\<lparr>tlsWantWrite := v\<rparr>)"

section \<open>System calls\<close>

text \<open>What \<open>write\<close> does: it takes some bytes, or fails with \<open>EAGAIN\<close>, or with another error. An exhausted schedule is a full socket.\<close>

datatype write_result = Accept nat | Again | Failure

record wire =
  wire_out :: "u8 list"
  wire_sched :: "write_result list"

definition sys_write :: "u8 list \<Rightarrow> wire \<Rightarrow> write_result \<times> wire" where
  "sys_write data k =
     (case wire_sched k of
        [] \<Rightarrow> (Again, k)
      | Accept n # s \<Rightarrow> (Accept (min n (length data)), k\<lparr>wire_out := wire_out k @ take n data, wire_sched := s\<rparr>)
      | r # s \<Rightarrow> (r, k\<lparr>wire_sched := s\<rparr>))"

definition WriteBuffer_write :: "u8 list \<Rightarrow> wire \<Rightarrow> int \<times> wire" where
  "WriteBuffer_write data k =
     (case sys_write data k of
        (Accept res, k) \<Rightarrow> (int res, k)
      | (Again, k) \<Rightarrow> (0, k)
      | (Failure, k) \<Rightarrow> (-1, k))"

text \<open>\<open>Connection::write\<close>; \<open>tlsWrite\<close> stands for the path through OpenSSL.\<close>

definition Connection_write :: "bool \<Rightarrow> (u8 list \<Rightarrow> wire \<Rightarrow> int \<times> wire) \<Rightarrow> u8 list \<Rightarrow> wire \<Rightarrow> int \<times> wire" where
  "Connection_write tlsConnect tlsWrite data k =
     (if tlsConnect then tlsWrite data k
      else case sys_write data k of
        (Accept res, k) \<Rightarrow> (int res, k)
      | (Again, k) \<Rightarrow> (0, k)
      | (Failure, k) \<Rightarrow> (-1, k))"

section \<open>The write buffer\<close>

type_synonym rope = "u8 list list"

record write_buffer =
  wb_fd :: select_fd
  wb_queue :: rope
  wb_closeOnFlushed :: bool
  wb_wire :: wire

text \<open>\<open>send\<close> of a piece of memory; it writes to the descriptor directly.\<close>

definition send_data :: "(rope \<Rightarrow> u8 list \<Rightarrow> rope) \<Rightarrow> (select_fd \<Rightarrow> select_fd) \<Rightarrow> u8 list \<Rightarrow> write_buffer \<Rightarrow> write_buffer" where
  "send_data app bufClose data wb =
     (if wantWriteGet (wb_fd wb) then wb\<lparr>wb_queue := app (wb_queue wb) data\<rparr>
      else
        let (res, k) = WriteBuffer_write data (wb_wire wb); wb = wb\<lparr>wb_wire := k\<rparr> in
        if res < 0 then wb\<lparr>wb_fd := bufClose (wb_fd wb)\<rparr>
        else if res < int (length data) then
          wb\<lparr>wb_queue := app (wb_queue wb) (drop (nat res) data), wb_fd := wantWriteSet True (wb_fd wb)\<rparr>
        else wb)"

text \<open>
  The loop of \<open>send\<close> for a rope. With \<open>canConsume\<close> the blocks are moved, otherwise copied; the first
  component is what is left of the rope.
\<close>

fun send_loop :: "(rope \<Rightarrow> u8 list \<Rightarrow> rope) \<Rightarrow> (rope \<Rightarrow> rope \<Rightarrow> rope) \<Rightarrow> (u8 list \<Rightarrow> wire \<Rightarrow> int \<times> wire) \<Rightarrow>
    (select_fd \<Rightarrow> select_fd) \<Rightarrow> bool \<Rightarrow> rope \<Rightarrow> write_buffer \<Rightarrow> rope \<times> write_buffer" where
  "send_loop app appr bufWrite bufClose canConsume [] wb = ([], wb)"
| "send_loop app appr bufWrite bufClose canConsume (b # bs) wb =
     (let (res, k) = bufWrite b (wb_wire wb); wb = wb\<lparr>wb_wire := k\<rparr> in
      if res < 0 then (b # bs, wb\<lparr>wb_fd := bufClose (wb_fd wb)\<rparr>)
      else if res < int (length b) then
        let (blocks, queue) =
          (if canConsume then ([], appr (wb_queue wb) (drop (nat res) b # bs))
           else (b # bs, foldl app (app (wb_queue wb) (drop (nat res) b)) bs))
        in (blocks, wb\<lparr>wb_queue := queue, wb_fd := wantWriteSet True (wb_fd wb)\<rparr>)
      else send_loop app appr bufWrite bufClose canConsume bs wb)"

definition send_rope :: "(rope \<Rightarrow> u8 list \<Rightarrow> rope) \<Rightarrow> (rope \<Rightarrow> rope \<Rightarrow> rope) \<Rightarrow> (u8 list \<Rightarrow> wire \<Rightarrow> int \<times> wire) \<Rightarrow>
    (select_fd \<Rightarrow> select_fd) \<Rightarrow> bool \<Rightarrow> rope \<Rightarrow> write_buffer \<Rightarrow> rope \<times> write_buffer" where
  "send_rope app appr bufWrite bufClose canConsume blocks wb =
     (if wantWriteGet (wb_fd wb) then
        if canConsume then ([], wb\<lparr>wb_queue := appr (wb_queue wb) blocks\<rparr>)
        else (blocks, wb\<lparr>wb_queue := foldl app (wb_queue wb) blocks\<rparr>)
      else case send_loop app appr bufWrite bufClose canConsume blocks wb of
        (rest, wb) \<Rightarrow> (if canConsume then rest else blocks, wb))"

definition sendEos :: "write_buffer \<Rightarrow> write_buffer" where
  "sendEos wb =
     (if wantWriteGet (wb_fd wb) then wb\<lparr>wb_closeOnFlushed := True\<rparr>
      else wb\<lparr>wb_fd := (wb_fd wb)\<lparr>fd_closed := True\<rparr>\<rparr>)"

fun ready_loop :: "(u8 list \<Rightarrow> wire \<Rightarrow> int \<times> wire) \<Rightarrow> (select_fd \<Rightarrow> select_fd) \<Rightarrow> rope \<Rightarrow> write_buffer \<Rightarrow> write_buffer" where
  "ready_loop bufWrite bufClose [] wb =
     (let wb = wb\<lparr>wb_queue := []\<rparr> in
      if wb_closeOnFlushed wb then wb\<lparr>wb_fd := (wb_fd wb)\<lparr>fd_closed := True\<rparr>\<rparr> else wb)"
| "ready_loop bufWrite bufClose (b # bs) wb =
     (let (res, k) = bufWrite b (wb_wire wb); wb = wb\<lparr>wb_wire := k\<rparr> in
      if res < 0 then wb\<lparr>wb_queue := b # bs, wb_fd := bufClose (wb_fd wb)\<rparr>
      else if res < int (length b) then wb\<lparr>wb_queue := drop (nat res) b # bs\<rparr>
      else ready_loop bufWrite bufClose bs wb)"

definition writeReady :: "(u8 list \<Rightarrow> wire \<Rightarrow> int \<times> wire) \<Rightarrow> (select_fd \<Rightarrow> select_fd) \<Rightarrow> write_buffer \<Rightarrow> write_buffer" where
  "writeReady bufWrite bufClose wb =
     (if concat (wb_queue wb) = [] then wb\<lparr>wb_fd := wantWriteSet False (wb_fd wb), wb_queue := []\<rparr>
      else ready_loop bufWrite bufClose (wb_queue wb) wb)"

text \<open>The functions a packet connection and a process provide for the buffer.\<close>

definition PacketConnection_bufWrite :: "bool \<Rightarrow> (u8 list \<Rightarrow> wire \<Rightarrow> int \<times> wire) \<Rightarrow> u8 list \<Rightarrow> wire \<Rightarrow> int \<times> wire" where
  "PacketConnection_bufWrite tlsConnect tlsWrite data k = Connection_write tlsConnect tlsWrite data k"

definition PacketConnection_bufClose :: "select_fd \<Rightarrow> select_fd" where
  "PacketConnection_bufClose fd = fd\<lparr>fd_closed := True\<rparr>"

definition Process_bufWrite :: "u8 list \<Rightarrow> wire \<Rightarrow> int \<times> wire" where
  "Process_bufWrite data k = WriteBuffer_write data k"

definition Process_bufClose :: "select_fd \<Rightarrow> select_fd" where
  "Process_bufClose fd = fd\<lparr>fd_closed := False\<rparr>"

section \<open>What the functions promise\<close>

text \<open>
  What the write buffer relies on: as long as the kernel does not fail, a call takes some of the bytes
  and puts exactly those on the wire.
\<close>

definition no_failure :: "wire \<Rightarrow> bool" where
  "no_failure k = (Failure \<notin> set (wire_sched k))"

locale write_funcs =
  fixes bufWrite :: "u8 list \<Rightarrow> wire \<Rightarrow> int \<times> wire"
  assumes write_takes: "no_failure k \<Longrightarrow> bufWrite data k = (res, k') \<Longrightarrow>
    0 \<le> res \<and> res \<le> int (length data) \<and> wire_out k' = wire_out k @ take (nat res) data \<and> no_failure k'"

text \<open>The library's promise about its rope.\<close>

definition rope_appends :: "(rope \<Rightarrow> u8 list \<Rightarrow> rope) \<Rightarrow> (rope \<Rightarrow> rope \<Rightarrow> rope) \<Rightarrow> bool" where
  "rope_appends app appr = ((\<forall>r d. concat (app r d) = concat r @ d) \<and> (\<forall>r s. concat (appr r s) = concat r @ concat s))"

lemma sys_write_takes:
  assumes "no_failure k" "sys_write data k = (r, k')"
  shows "(\<exists>n. r = Accept n \<and> n \<le> length data \<and> wire_out k' = wire_out k @ take n data) \<or> (r = Again \<and> wire_out k' = wire_out k)" "no_failure k'"
  using assms by (auto simp: sys_write_def no_failure_def min_def split: list.splits write_result.splits)

interpretation proc: write_funcs Process_bufWrite
proof
  fix k data res k'
  assume "no_failure k" "Process_bufWrite data k = (res, k')"
  then show "0 \<le> res \<and> res \<le> int (length data) \<and> wire_out k' = wire_out k @ take (nat res) data \<and> no_failure k'"
    using sys_write_takes [of k data] by (auto simp: Process_bufWrite_def WriteBuffer_write_def split: prod.splits write_result.splits)
qed

interpretation pconn: write_funcs "PacketConnection_bufWrite False tlsWrite"
proof
  fix k data res k'
  assume "no_failure k" "PacketConnection_bufWrite False tlsWrite data k = (res, k')"
  then show "0 \<le> res \<and> res \<le> int (length data) \<and> wire_out k' = wire_out k @ take (nat res) data \<and> no_failure k'"
    using sys_write_takes [of k data] by (auto simp: PacketConnection_bufWrite_def Connection_write_def split: prod.splits write_result.splits)
qed

section \<open>Order\<close>

declare concat_eq_Nil_conv [simp del]

text \<open>All that was sent: what is on the wire and what is queued. Nothing is queued outside of want-write mode.\<close>

definition wb_output :: "write_buffer \<Rightarrow> u8 list" where
  "wb_output wb = wire_out (wb_wire wb) @ concat (wb_queue wb)"

definition wb_ok :: "write_buffer \<Rightarrow> bool" where
  "wb_ok wb = (no_failure (wb_wire wb) \<and> (wantWriteGet (wb_fd wb) \<or> concat (wb_queue wb) = []))"

datatype wb_op = Send_data "u8 list" | Send_rope bool rope | Send_eos | Write_ready

fun wb_step :: "(rope \<Rightarrow> u8 list \<Rightarrow> rope) \<Rightarrow> (rope \<Rightarrow> rope \<Rightarrow> rope) \<Rightarrow> (u8 list \<Rightarrow> wire \<Rightarrow> int \<times> wire) \<Rightarrow>
    (select_fd \<Rightarrow> select_fd) \<Rightarrow> wb_op \<Rightarrow> write_buffer \<Rightarrow> write_buffer" where
  "wb_step app appr bufWrite bufClose (Send_data d) wb = send_data app bufClose d wb"
| "wb_step app appr bufWrite bufClose (Send_rope c r) wb = snd (send_rope app appr bufWrite bufClose c r wb)"
| "wb_step app appr bufWrite bufClose Send_eos wb = sendEos wb"
| "wb_step app appr bufWrite bufClose Write_ready wb = writeReady bufWrite bufClose wb"

fun op_data :: "wb_op \<Rightarrow> u8 list" where
  "op_data (Send_data d) = d"
| "op_data (Send_rope c r) = concat r"
| "op_data _ = []"

lemma wantWriteGet_Set [simp]: "wantWriteGet (wantWriteSet True fd)" "wantWriteGet (fd\<lparr>fd_closed := c\<rparr>) = wantWriteGet fd"
  by (simp_all add: wantWriteGet_def wantWriteSet_def)

lemma concat_foldl_app: "rope_appends app appr \<Longrightarrow> concat (foldl app q bs) = concat q @ concat bs"
  by (induction bs arbitrary: q) (simp_all add: rope_appends_def)

lemma send_data_keeps:
  assumes r: "rope_appends app appr" and ok: "wb_ok wb"
  shows "wb_ok (send_data app bufClose d wb) \<and> wb_output (send_data app bufClose d wb) = wb_output wb @ d"
proof (cases "wantWriteGet (wb_fd wb)")
  case True
  then show ?thesis using r ok by (simp add: send_data_def wb_ok_def wb_output_def rope_appends_def)
next
  case False
  obtain res k where w: "WriteBuffer_write d (wb_wire wb) = (res, k)" by fastforce
  have "0 \<le> res \<and> res \<le> int (length d) \<and> wire_out k = wire_out (wb_wire wb) @ take (nat res) d \<and> no_failure k"
    using proc.write_takes [of "wb_wire wb" d res k] ok w by (simp add: wb_ok_def Process_bufWrite_def)
  then show ?thesis using False r ok w by (auto simp: send_data_def wb_ok_def wb_output_def rope_appends_def Let_def)
qed

context write_funcs
begin

lemma send_loop_keeps:
  assumes "rope_appends app appr" "no_failure (wb_wire wb)" "concat (wb_queue wb) = []" "send_loop app appr bufWrite bufClose c blocks wb = (rest, wb')"
  shows "wb_ok wb' \<and> wb_output wb' = wb_output wb @ concat blocks"
  using assms(2-4)
proof (induction blocks arbitrary: wb)
  case (Cons b bs)
  obtain res k where w: "bufWrite b (wb_wire wb) = (res, k)" by fastforce
  note t = write_takes [OF Cons.prems(1) w]
  have app: "concat (app q d) = concat q @ d" "concat (appr q r) = concat q @ concat r" for q d r using assms(1) by (simp_all add: rope_appends_def)
  show ?case
  proof (cases "res < int (length b)")
    case True
    have "wire_out k @ drop (nat res) b = wire_out (wb_wire wb) @ b" using t by simp
    then show ?thesis using True t w Cons.prems concat_foldl_app [OF assms(1)]
      by (auto simp: wb_ok_def wb_output_def Let_def app append_assoc [symmetric] simp del: append_assoc split: if_splits)
  next
    case False
    then have "wire_out k = wire_out (wb_wire wb) @ b" using t by simp
    then show ?thesis using False t w Cons.prems Cons.IH [of "wb\<lparr>wb_wire := k\<rparr>"] by (simp add: wb_output_def Let_def)
  qed
qed (auto simp: wb_ok_def)

lemma ready_loop_keeps:
  assumes "no_failure (wb_wire wb)" "wantWriteGet (wb_fd wb)"
  shows "wb_ok (ready_loop bufWrite bufClose q wb) \<and> wb_output (ready_loop bufWrite bufClose q wb) = wire_out (wb_wire wb) @ concat q"
  using assms
proof (induction q arbitrary: wb)
  case (Cons b bs)
  obtain res k where w: "bufWrite b (wb_wire wb) = (res, k)" by fastforce
  note t = write_takes [OF Cons.prems(1) w]
  have "wire_out k @ drop (nat res) b = wire_out (wb_wire wb) @ b" using t by simp
  then show ?case using t w Cons.prems Cons.IH [of "wb\<lparr>wb_wire := k\<rparr>"]
    by (auto simp: wb_ok_def wb_output_def Let_def append_assoc [symmetric] simp del: append_assoc)
qed (simp add: wb_ok_def wb_output_def Let_def)

lemma wb_step_keeps:
  assumes r: "rope_appends app appr" and ok: "wb_ok wb"
  shows "wb_ok (wb_step app appr bufWrite bufClose p wb) \<and> wb_output (wb_step app appr bufWrite bufClose p wb) = wb_output wb @ op_data p"
proof (cases p)
  case (Send_data d)
  then show ?thesis using send_data_keeps [OF r ok] by simp
next
  case (Send_rope c blocks)
  show ?thesis
  proof (cases "wantWriteGet (wb_fd wb)")
    case True
    then show ?thesis using Send_rope r ok concat_foldl_app [OF r] by (simp add: send_rope_def wb_ok_def wb_output_def rope_appends_def)
  next
    case False
    obtain rest wb' where l: "send_loop app appr bufWrite bufClose c blocks wb = (rest, wb')" by fastforce
    then show ?thesis using send_loop_keeps [OF r _ _ l] ok False Send_rope by (simp add: send_rope_def wb_ok_def)
  qed
next
  case Send_eos
  then show ?thesis using ok by (auto simp: sendEos_def wb_ok_def wb_output_def)
next
  case Write_ready
  then show ?thesis using ok ready_loop_keeps [of wb bufClose "wb_queue wb"] by (auto simp: writeReady_def wb_ok_def wb_output_def)
qed

lemma wb_run_keeps:
  assumes "rope_appends app appr" "wb_ok wb"
  shows "wb_ok (fold (wb_step app appr bufWrite bufClose) ps wb) \<and>
    wb_output (fold (wb_step app appr bufWrite bufClose) ps wb) = wb_output wb @ concat (map op_data ps)"
  using assms(2) by (induction ps arbitrary: wb) (use wb_step_keeps [OF assms(1)] in auto)

end

section \<open>Properties\<close>

definition wb_new :: "write_result list \<Rightarrow> write_buffer" where
  "wb_new sched = \<lparr>wb_fd = selectFd_new, wb_queue = [], wb_closeOnFlushed = False, wb_wire = \<lparr>wire_out = [], wire_sched = sched\<rparr>\<rparr>"

lemma wb_new_ok: "Failure \<notin> set sched \<Longrightarrow> wb_ok (wb_new sched) \<and> wb_output (wb_new sched) = []"
  by (simp add: wb_ok_def wb_new_def no_failure_def wb_output_def)

text \<open>
  (C14) The write buffer keeps the order: whatever is sent in whatever pieces, however much the kernel
  takes on each call and whenever the descriptor becomes ready, what is on the wire followed by what
  is queued is exactly all the data sent, in order. So it is for a packet connection and for a process.
\<close>

theorem write_buffer_in_order:
  assumes "rope_appends app appr" and "Failure \<notin> set sched"
  shows "(let wb = fold (wb_step app appr (PacketConnection_bufWrite False tlsWrite) PacketConnection_bufClose) ops (wb_new sched) in
      wire_out (wb_wire wb) @ concat (wb_queue wb) = concat (map op_data ops)) \<and>
    (let wb = fold (wb_step app appr Process_bufWrite Process_bufClose) ops (wb_new sched) in
      wire_out (wb_wire wb) @ concat (wb_queue wb) = concat (map op_data ops))"
  using pconn.wb_run_keeps [OF assms(1)] proc.wb_run_keeps [OF assms(1)] wb_new_ok [OF assms(2)]
  by (simp add: wb_output_def Let_def)

abbreviation app_block :: "rope \<Rightarrow> u8 list \<Rightarrow> rope" where
  "app_block r d \<equiv> r @ [d]"

lemma write_buffer_in_order_witness:
  "let wb = fold (wb_step app_block append Process_bufWrite Process_bufClose) [Send_data [1, 2, 3], Send_rope True [[4], [5, 6]], Write_ready]
      (wb_new [Accept 2, Again, Accept 9]) in
    wire_out (wb_wire wb) @ concat (wb_queue wb) = [1, 2, 3, 4, 5, 6]"
proof -
  have "rope_appends app_block append" by (simp add: rope_appends_def)
  from write_buffer_in_order [OF this, of "[Accept 2, Again, Accept 9]" undefined "[Send_data [1, 2, 3], Send_rope True [[4], [5, 6]], Write_ready]"]
  show ?thesis by simp
qed

text \<open>
  A kernel that takes whole blocks.
\<close>

definition accepts :: "wire \<Rightarrow> rope \<Rightarrow> bool" where
  "accepts k q = (length q \<le> length (wire_sched k) \<and> (\<forall>(b, r) \<in> set (zip q (wire_sched k)). \<exists>n. r = Accept n \<and> length b \<le> n))"

lemma ready_loop_drains:
  assumes "accepts (wb_wire wb) q"
  shows "wire_out (wb_wire (ready_loop (PacketConnection_bufWrite False tlsWrite) bufClose q wb)) = wire_out (wb_wire wb) @ concat q \<and>
    wb_queue (ready_loop (PacketConnection_bufWrite False tlsWrite) bufClose q wb) = [] \<and>
    fd_closed (wb_fd (ready_loop (PacketConnection_bufWrite False tlsWrite) bufClose q wb)) = (wb_closeOnFlushed wb \<or> fd_closed (wb_fd wb)) \<and>
    tlsEstablished (wb_fd (ready_loop (PacketConnection_bufWrite False tlsWrite) bufClose q wb)) = tlsEstablished (wb_fd wb)"
  using assms
proof (induction q arbitrary: wb)
  case (Cons b bs)
  obtain n s where s: "wire_sched (wb_wire wb) = Accept n # s" "length b \<le> n" using Cons.prems by (cases "wire_sched (wb_wire wb)") (auto simp: accepts_def)
  let ?k = "(wb_wire wb)\<lparr>wire_out := wire_out (wb_wire wb) @ b, wire_sched := s\<rparr>"
  have w: "PacketConnection_bufWrite False tlsWrite b (wb_wire wb) = (int (length b), ?k)"
    using s by (simp add: PacketConnection_bufWrite_def Connection_write_def sys_write_def)
  have "accepts ?k bs" using Cons.prems s by (auto simp: accepts_def)
  then show ?case using Cons.IH [of "wb\<lparr>wb_wire := ?k\<rparr>"] w by (simp add: Let_def)
qed (simp add: Let_def)

text \<open>
  (C38) The write buffer drains: once the kernel takes the queued blocks, one call of \<open>writeReady\<close> puts
  all of the queue on the wire, closes the descriptor if that was asked for, and the next call leaves
  want-write mode.
\<close>

theorem write_buffer_drains:
  assumes "accepts (wb_wire wb) (wb_queue wb)" and "concat (wb_queue wb) \<noteq> []" and "\<not> tlsEstablished (wb_fd wb)"
  shows "let ready = writeReady (PacketConnection_bufWrite False tlsWrite) PacketConnection_bufClose; wb' = ready wb in
    wire_out (wb_wire wb') = wire_out (wb_wire wb) @ concat (wb_queue wb) \<and> wb_queue wb' = [] \<and>
    fd_closed (wb_fd wb') = (wb_closeOnFlushed wb \<or> fd_closed (wb_fd wb)) \<and> \<not> wantWriteGet (wb_fd (ready wb'))"
  using ready_loop_drains [OF assms(1), of tlsWrite PacketConnection_bufClose] assms(2,3)
  by (simp add: writeReady_def Let_def wantWriteGet_def wantWriteSet_def)

abbreviation wb_waiting :: write_buffer where
  "wb_waiting \<equiv> (wb_new [Accept 7, Accept 1])\<lparr>wb_queue := [[1, 2], [3]], wb_closeOnFlushed := True\<rparr>"

lemma write_buffer_drains_witness:
  "let wb' = writeReady (PacketConnection_bufWrite False (\<lambda>_ k. (0, k))) PacketConnection_bufClose wb_waiting in
    wire_out (wb_wire wb') = [1, 2, 3] \<and> wb_queue wb' = [] \<and> fd_closed (wb_fd wb')"
  using write_buffer_drains [of wb_waiting "\<lambda>_ k. (0, k)"] by (simp add: accepts_def wb_new_def selectFd_new_def Let_def)

end
