(* ===== verification/Genf_Packet.thy ===== *)
theory Genf_Packet
  imports Genf_Write
begin

text \<open>
  Packets, \<open>genf/packet.cc\<close>: a packet is laid out in the blocks of a rope; every block starts with the
  length of the next one, and the first goes on with the packet header. The receiver reads the stream
  in whatever pieces it arrives and rebuilds the blocks. The rope belongs to a library: what it does on
  \<open>append\<close> and \<open>appendBlock\<close> is an argument of the definitions, with its promise as a predicate.
  \<open>None\<close> says that memory outside of a block is accessed, or a block of negative size is asked for.
\<close>

section \<open>Integers in a block\<close>

definition bytes4 :: "int \<Rightarrow> u8 list" where
  "bytes4 v = map (put_int 4 0 v (\<lambda>_. 0)) [0..<4]"

definition put4 :: "nat \<Rightarrow> int \<Rightarrow> u8 list \<Rightarrow> u8 list" where
  "put4 off v b = take off b @ bytes4 v @ drop (off + 4) b"

definition get4 :: "nat \<Rightarrow> u8 list \<Rightarrow> int" where
  "get4 off b = get_sint 4 off (\<lambda>i. b ! i)"

definition sizeof_PacketBlockHeader :: nat where [simp]: "sizeof_PacketBlockHeader = 4"
definition sizeof_PacketHeader :: nat where [simp]: "sizeof_PacketHeader = 12"

text \<open>The fields of the packet header, which follows the block header of the first block.\<close>

definition off_firstLen :: nat where [simp]: "off_firstLen = 4"
definition off_totalLen :: nat where [simp]: "off_totalLen = 8"
definition off_msgId :: nat where [simp]: "off_msgId = 12"

section \<open>Writing a packet\<close>

text \<open>What can be seen of the rope: its blocks, and the space left in the last one.\<close>

record packet_buf =
  pb_blocks :: rope
  pb_avail :: nat

text \<open>\<open>append( 0, n )\<close> extends the last block by \<open>n\<close> bytes if there is space, and adds a block of them otherwise.\<close>

definition rope_grows :: "(nat \<Rightarrow> packet_buf \<Rightarrow> packet_buf) \<Rightarrow> bool" where
  "rope_grows ap = (\<forall>n pb. \<exists>d. length d = n \<and> pb_blocks (ap n pb) =
     (if pb_blocks pb \<noteq> [] \<and> n \<le> pb_avail pb then butlast (pb_blocks pb) @ [last (pb_blocks pb) @ d] else pb_blocks pb @ [d]))"

text \<open>A place in the rope: the block and the offset in it.\<close>

type_synonym place = "nat \<times> nat"

definition rope_length :: "rope \<Rightarrow> nat" where
  "rope_length r = length (concat r)"

definition pkt_allocBytes :: "(nat \<Rightarrow> packet_buf \<Rightarrow> packet_buf) \<Rightarrow> nat \<Rightarrow> packet_buf \<Rightarrow> place \<times> nat \<times> packet_buf" where
  "pkt_allocBytes ap nb pb =
     (if pb_blocks pb \<noteq> [] \<and> nb \<le> pb_avail pb then
        ((length (pb_blocks pb) - 1, length (last (pb_blocks pb))), rope_length (pb_blocks pb), ap nb pb)
      else
        ((length (pb_blocks pb), sizeof_PacketBlockHeader), rope_length (pb_blocks pb) + sizeof_PacketBlockHeader,
         ap (sizeof_PacketBlockHeader + nb) pb))"

definition upd_block :: "nat \<Rightarrow> (u8 list \<Rightarrow> u8 list) \<Rightarrow> packet_buf \<Rightarrow> packet_buf" where
  "upd_block i f pb = pb\<lparr>pb_blocks := (pb_blocks pb)[i := f (pb_blocks pb ! i)]\<rparr>"

definition zero_fill :: "nat \<Rightarrow> nat \<Rightarrow> u8 list \<Rightarrow> u8 list" where
  "zero_fill off n b = take off b @ replicate n 0 @ drop (off + n) b"

text \<open>\<open>open\<close> on a connection: the header, whose fields are stored through the pointer into the block, and the struct.\<close>

definition pkt_open :: "(nat \<Rightarrow> packet_buf \<Rightarrow> packet_buf) \<Rightarrow> packet_buf \<Rightarrow> int \<Rightarrow> nat \<Rightarrow> place \<times> packet_buf" where
  "pkt_open ap empty_buf ID SZ =
     (let (header, offset, pb) = pkt_allocBytes ap sizeof_PacketHeader empty_buf;
          pb = upd_block (fst header) (put4 (snd header + 8) ID) pb;
          (msg, offset, pb) = pkt_allocBytes ap SZ pb;
          pb = upd_block (fst msg) (zero_fill (snd msg) SZ) pb;
          pb = upd_block (fst header) (put4 (snd header + 4) 0) pb
      in (msg, pb))"

fun set_next_lens :: "rope \<Rightarrow> rope" where
  "set_next_lens [] = []"
| "set_next_lens [b] = [put4 0 0 b]"
| "set_next_lens (b # b' # bs) = put4 0 (int (length b')) b # set_next_lens (b' # bs)"

definition finish_packet :: "rope \<Rightarrow> rope" where
  "finish_packet r =
     (let r = r[0 := put4 off_totalLen (int (rope_length r)) (r ! 0)];
          r = r[0 := put4 off_firstLen (int (length (r ! 0))) (r ! 0)]
      in set_next_lens r)"

text \<open>\<open>send\<close> on a connection: the blocks are finished and copied to the write buffer.\<close>

definition pkt_send :: "(rope \<Rightarrow> u8 list \<Rightarrow> rope) \<Rightarrow> (rope \<Rightarrow> rope \<Rightarrow> rope) \<Rightarrow> (u8 list \<Rightarrow> wire \<Rightarrow> int \<times> wire) \<Rightarrow>
    packet_buf \<Rightarrow> write_buffer \<Rightarrow> write_buffer" where
  "pkt_send app appr bufWrite pb wb = snd (send_rope app appr bufWrite PacketConnection_bufClose False (finish_packet (pb_blocks pb)) wb)"

section \<open>Finding bytes by offset\<close>

fun pkt_find_from :: "nat \<Rightarrow> rope \<Rightarrow> nat \<Rightarrow> place option" where
  "pkt_find_from i [] l = None"
| "pkt_find_from i (b # bs) l = (if l < length b then Some (i, l) else pkt_find_from (Suc i) bs (l - length b))"

definition pktFind :: "rope \<Rightarrow> nat \<Rightarrow> place option" where
  "pktFind r l = (if l = 0 then None else pkt_find_from 0 r l)"

section \<open>Receiving\<close>

text \<open>
  What arrives: the pieces in which the kernel has the bytes, an empty one for a call that finds
  nothing, and whether the other side has closed.
\<close>

record source =
  src_chunks :: "u8 list list"
  src_closed :: bool

datatype read_result = Bytes "u8 list" | Eagain | Eof

definition sys_read :: "nat \<Rightarrow> source \<Rightarrow> read_result \<times> source" where
  "sys_read n s =
     (case src_chunks s of
        [] \<Rightarrow> (if src_closed s then Eof else Eagain, s)
      | c # cs \<Rightarrow>
          if c = [] then (Eagain, s\<lparr>src_chunks := cs\<rparr>)
          else if length c \<le> n then (Bytes c, s\<lparr>src_chunks := cs\<rparr>)
          else (Bytes (take n c), s\<lparr>src_chunks := drop n c # cs\<rparr>))"

text \<open>\<open>Connection::read\<close>: -1 for the end, 0 for nothing now; \<open>tlsRead\<close> stands for the path through OpenSSL.\<close>

definition Connection_read :: "bool \<Rightarrow> (nat \<Rightarrow> source \<Rightarrow> (int \<times> u8 list) \<times> source) \<Rightarrow> nat \<Rightarrow> source \<Rightarrow> (int \<times> u8 list) \<times> source" where
  "Connection_read tlsConnect tlsRead n s =
     (if tlsConnect then tlsRead n s
      else case sys_read n s of
        (Bytes d, s) \<Rightarrow> ((if d = [] then -1 else int (length d), d), s)
      | (Eagain, s) \<Rightarrow> ((0, []), s)
      | (Eof, s) \<Rightarrow> ((-1, []), s))"

datatype recv_state = WantHead | WantBlock

record recv =
  rc_state :: recv_state
  rc_buf :: rope
  rc_headBuf :: "u8 list"
  rc_have :: int
  rc_need :: int

datatype parse_result = Pending | Closed | Dispatched rope

definition recv_new :: recv where
  "recv_new = \<lparr>rc_state = WantHead, rc_buf = [], rc_headBuf = replicate 16 0, rc_have = 0, rc_need = 0\<rparr>"

text \<open>\<open>memcpy\<close> of \<open>d\<close> to offset \<open>off\<close>.\<close>

definition copy_to :: "nat \<Rightarrow> u8 list \<Rightarrow> u8 list \<Rightarrow> u8 list" where
  "copy_to off d b = take off b @ d @ drop (off + length d) b"

definition src_bytes :: "source \<Rightarrow> u8 list" where
  "src_bytes s = concat (src_chunks s)"

lemma sys_read_bytes:
  assumes "sys_read n s = (r, s')" "0 < n"
  shows "case r of Bytes d \<Rightarrow> d \<noteq> [] \<and> length d \<le> n \<and> src_bytes s = d @ src_bytes s' | _ \<Rightarrow> src_bytes s' = src_bytes s"
  using assms by (auto simp: sys_read_def src_bytes_def split: list.splits if_splits)

lemma Connection_read_bytes:
  assumes "Connection_read False t n s = ((len, d), s')" "0 < n" "0 < len"
  shows "d \<noteq> []" "len = int (length d)" "length d \<le> n" "src_bytes s = d @ src_bytes s'"
  using assms sys_read_bytes [of n s] by (auto simp: Connection_read_def split: prod.splits read_result.splits)

text \<open>
  The loop of state \<open>WantBlock\<close>. \<open>recv.data\<close> is the last block; \<open>nb\<close> is what \<open>appendBlock\<close> makes. A packet
  is complete when the next length is 0.
\<close>

function parse_block :: "(nat \<Rightarrow> u8 list) \<Rightarrow> recv \<Rightarrow> source \<Rightarrow> (parse_result \<times> recv \<times> source) option" where
  "parse_block nb rc s =
     (if rc_have rc < rc_need rc then
        (case Connection_read False (\<lambda>_ s. ((0, []), s)) (nat (rc_need rc - rc_have rc)) s of ((len, d), s') \<Rightarrow>
          if len < 0 then Some (Closed, rc, s')
          else if len = 0 then Some (Pending, rc, s')
          else
            let rc' = rc\<lparr>rc_buf := butlast (rc_buf rc) @ [copy_to (nat (rc_have rc)) d (last (rc_buf rc))], rc_have := rc_have rc + len\<rparr> in
            if rc_have rc' < rc_need rc' then Some (Pending, rc', s') else parse_block nb rc' s')
      else if rc_buf rc = [] \<or> length (last (rc_buf rc)) < 4 then None
      else
        let need = get4 0 (last (rc_buf rc)) in
        if need = 0 then Some (Dispatched (rc_buf rc), rc\<lparr>rc_state := WantHead, rc_need := 0, rc_have := 0, rc_buf := []\<rparr>, s)
        else if need < 0 then None
        else parse_block nb (rc\<lparr>rc_need := need, rc_have := 0, rc_buf := rc_buf rc @ [nb (nat need)]\<rparr>) s)"
  by pat_completeness auto

termination
proof (relation "measure (\<lambda>(nb, rc, s). 2 * length (src_bytes s) + (if rc_have rc < rc_need rc then 0 else 1))", goal_cases)
  case (2 nb rc s x s' len d rc')
  then show ?case using Connection_read_bytes [of _ "nat (rc_need rc - rc_have rc)" s len d s'] by (auto simp: length_greater_0_conv [symmetric] simp del: length_greater_0_conv)
qed auto

declare parse_block.simps [simp del]

definition parsePacket :: "(nat \<Rightarrow> u8 list) \<Rightarrow> recv \<Rightarrow> source \<Rightarrow> (parse_result \<times> recv \<times> source) option" where
  "parsePacket nb rc s =
     (case rc_state rc of
        WantBlock \<Rightarrow> parse_block nb rc s
      | WantHead \<Rightarrow>
          let sz = sizeof_PacketBlockHeader + sizeof_PacketHeader in
          (case Connection_read False (\<lambda>_ s. ((0, []), s)) (nat (int sz - rc_have rc)) s of ((len, d), s') \<Rightarrow>
            if len < 0 then Some (Closed, rc, s')
            else if len = 0 then Some (Pending, rc, s')
            else
              let rc = rc\<lparr>rc_headBuf := copy_to (nat (rc_have rc)) d (rc_headBuf rc)\<rparr> in
              if rc_have rc + len < int sz then Some (Pending, rc\<lparr>rc_have := rc_have rc + len\<rparr>, s')
              else
                let firstLen = get4 off_firstLen (rc_headBuf rc) in
                if firstLen < 0 \<or> nat firstLen < sz then None
                else
                  let data = copy_to 0 (rc_headBuf rc) (nb (nat firstLen)) in
                  parse_block nb (rc\<lparr>rc_need := firstLen, rc_buf := rc_buf rc @ [data], rc_have := int sz, rc_state := WantBlock\<rparr>) s'))"

text \<open>The receiving thread calls \<open>readReady\<close> as long as there is something to read.\<close>

partial_function (option) receive :: "(nat \<Rightarrow> u8 list) \<Rightarrow> recv \<Rightarrow> source \<Rightarrow> (rope list \<times> recv \<times> source) option" where
  [code]: "receive nb rc s =
     (if src_chunks s = [] then Some ([], rc, s)
      else case parsePacket nb rc s of None \<Rightarrow> None
      | Some (r, rc', s') \<Rightarrow>
          (case r of
             Closed \<Rightarrow> Some ([], rc', s')
           | Pending \<Rightarrow> receive nb rc' s'
           | Dispatched p \<Rightarrow> Option.bind (receive nb rc' s') (\<lambda>(ps, x). Some (p # ps, x))))"

end
