(* ===== verification/Genf_Packet_Stream.thy ===== *)
theory Genf_Packet_Stream
  imports Genf_Packet
begin

text \<open>
  The receiver of packets against the sender: the state of the receiver after any prefix of the stream,
  the packets a writer makes, and the properties of a connection.
\<close>

section \<open>Integers\<close>

lemma length_bytes4 [simp]: "length (bytes4 v) = 4"
  by (simp add: bytes4_def)

lemma length_put4 [simp]: "off + 4 \<le> length b \<Longrightarrow> length (put4 off v b) = length b"
  by (simp add: put4_def)

lemma get4_cong: "(\<And>i. off \<le> i \<Longrightarrow> i < off + 4 \<Longrightarrow> b ! i = c ! i) \<Longrightarrow> get4 off b = get4 off c"
  unfolding get4_def by (rule get_sint_cong) simp

lemma nth_put4: "off + 4 \<le> length b \<Longrightarrow> i < length b \<Longrightarrow> put4 off v b ! i = (if off \<le> i \<and> i < off + 4 then bytes4 v ! (i - off) else b ! i)"
  by (auto simp: put4_def nth_append min_def)

lemma get4_put4:
  assumes "off + 4 \<le> length b" "- (2 ^ 31) \<le> v" "v < 2 ^ 31"
  shows "get4 off (put4 off v b) = v"
proof -
  have "get_sint 4 off (\<lambda>i. put4 off v b ! i) = get_sint 4 off (put_int 4 off v (\<lambda>_. 0))"
  proof (rule get_sint_cong)
    fix i assume i: "off \<le> i" "i < off + 4"
    moreover have "i - off < 4" using i by linarith
    ultimately show "put4 off v b ! i = put_int 4 off v (\<lambda>_. 0) i"
      using assms(1) by (simp add: nth_put4 bytes4_def put_int_def)
  qed
  also have "\<dots> = v" by (rule get_sint_put_int) (use assms(2,3) in simp_all)
  finally show ?thesis by (simp add: get4_def)
qed

lemma get4_put4_other: "off' + 4 \<le> length b \<Longrightarrow> off + 4 \<le> length b \<Longrightarrow> off + 4 \<le> off' \<or> off' + 4 \<le> off \<Longrightarrow> get4 off (put4 off' v b) = get4 off b"
  by (rule get4_cong) (auto simp: nth_put4)

lemma get4_prefix: "off + 4 \<le> k \<Longrightarrow> k \<le> length b \<Longrightarrow> take k b = take k c \<Longrightarrow> k \<le> length c \<Longrightarrow> get4 off b = get4 off c"
proof (rule get4_cong)
  fix i assume p: "off + 4 \<le> k" "take k b = take k c" and "i < off + 4"
  then have "i < k" by linarith
  then show "b ! i = c ! i" using nth_take [of i k b] nth_take [of i k c] p(2) by simp
qed

section \<open>Well-formed packets\<close>

fun chained :: "rope \<Rightarrow> bool" where
  "chained [] = False"
| "chained [b] = (4 \<le> length b \<and> get4 0 b = 0)"
| "chained (b # b' # bs) = (4 \<le> length b \<and> get4 0 b = int (length b') \<and> chained (b' # bs))"

definition packet_form :: "rope \<Rightarrow> bool" where
  "packet_form p = (chained p \<and> 16 \<le> length (hd p) \<and> get4 off_firstLen (hd p) = int (length (hd p)))"

lemma chained_append: "chained (done @ b # rest) \<Longrightarrow> chained (b # rest)"
  by (induction "done" rule: chained.induct) auto

lemma chained_length: "chained p \<Longrightarrow> b \<in> set p \<Longrightarrow> 4 \<le> length b"
  by (induction p rule: chained.induct) auto

text \<open>The state of the receiver after the bytes \<open>d\<close> of the packet \<open>p\<close>.\<close>

definition head_inv :: "recv \<Rightarrow> u8 list \<Rightarrow> bool" where
  "head_inv rc d = (rc_state rc = WantHead \<and> rc_buf rc = [] \<and> rc_have rc = int (length d) \<and> length d < 16 \<and>
     length (rc_headBuf rc) = 16 \<and> take (length d) (rc_headBuf rc) = d)"

definition block_inv :: "recv \<Rightarrow> rope \<Rightarrow> u8 list \<Rightarrow> bool" where
  "block_inv rc p d = (rc_state rc = WantBlock \<and> length (rc_headBuf rc) = 16 \<and>
     (\<exists>done cur rest k blk. p = done @ cur # rest \<and> rc_need rc = int (length cur) \<and> rc_have rc = int k \<and> k \<le> length cur \<and>
        d = concat done @ take k cur \<and> rc_buf rc = done @ [blk] \<and> length blk = length cur \<and> take k blk = take k cur))"

lemma block_invI:
  assumes "rc_state rc = WantBlock" "length (rc_headBuf rc) = 16" "p = dn @ cur # rest" "rc_need rc = int (length cur)" "rc_have rc = int k" "k \<le> length cur"
    "d = concat dn @ take k cur" "rc_buf rc = dn @ [blk]" "length blk = length cur" "take k blk = take k cur"
  shows "block_inv rc p d"
  unfolding block_inv_def using assms by blast

definition makes_blocks :: "(nat \<Rightarrow> u8 list) \<Rightarrow> bool" where
  "makes_blocks nb = (\<forall>n. length (nb n) = n)"

definition src_size :: "source \<Rightarrow> nat" where
  "src_size s = length (src_chunks s) + length (src_bytes s)"

lemma read_cases:
  assumes "0 < n" "\<not> src_closed s"
  obtains (none) s' where "Connection_read False t n s = ((0, []), s')" "src_bytes s' = src_bytes s" "\<not> src_closed s'"
      "src_size s' \<le> src_size s" "src_chunks s \<noteq> [] \<Longrightarrow> src_size s' < src_size s"
  | (some) d s' where "Connection_read False t n s = ((int (length d), d), s')" "d \<noteq> []" "length d \<le> n" "src_bytes s = d @ src_bytes s'" "\<not> src_closed s'"
      "src_size s' < src_size s"
proof (cases "src_chunks s")
  case Nil
  then show ?thesis using assms by (intro none [of s]) (simp_all add: Connection_read_def sys_read_def)
next
  case (Cons c cs)
  then consider "c = []" | "c \<noteq> []" "length c \<le> n" | "c \<noteq> []" "n < length c" by linarith
  then show ?thesis
  proof cases
    case 1
    then show ?thesis using Cons assms
      by (intro none [of "s\<lparr>src_chunks := cs\<rparr>"]) (simp_all add: Connection_read_def sys_read_def src_bytes_def src_size_def)
  next
    case 2
    then show ?thesis using Cons assms
      by (intro some [of c "s\<lparr>src_chunks := cs\<rparr>"]) (simp_all add: Connection_read_def sys_read_def src_bytes_def src_size_def)
  next
    case 3
    then show ?thesis using Cons assms
      by (intro some [of "take n c" "s\<lparr>src_chunks := drop n c # cs\<rparr>"]) (auto simp: Connection_read_def sys_read_def src_bytes_def src_size_def)
  qed
qed

text \<open>One pass over the blocks: either the packet is complete, or the source has run dry.\<close>

definition advanced :: "rope \<Rightarrow> u8 list \<Rightarrow> source \<Rightarrow> parse_result \<times> recv \<times> source \<Rightarrow> bool" where
  "advanced p d s x = (case x of (r, rc', s') \<Rightarrow> \<not> src_closed s' \<and> src_size s' \<le> src_size s \<and>
     (case r of
        Closed \<Rightarrow> False
      | Pending \<Rightarrow> \<exists>e. src_bytes s = e @ src_bytes s' \<and> (head_inv rc' (d @ e) \<or> block_inv rc' p (d @ e) \<and> rc_have rc' < rc_need rc')
      | Dispatched q \<Rightarrow> q = p \<and> d @ src_bytes s = concat p @ src_bytes s' \<and> head_inv rc' []))"

lemma copy_to_take:
  assumes "k + length d \<le> length blk" "length blk = length cur" "take k blk = take k cur" "d = take (length d) (drop k cur)"
  shows "take (k + length d) (copy_to k d blk) = take (k + length d) cur" "length (copy_to k d blk) = length cur"
proof -
  show "length (copy_to k d blk) = length cur" using assms(1,2) by (simp add: copy_to_def)
  have "take (k + length d) (copy_to k d blk) = take k blk @ d" using assms(1,2) by (simp add: copy_to_def)
  also have "\<dots> = take k cur @ take (length d) (drop k cur)" using assms(3,4) by simp
  also have "\<dots> = take (k + length d) cur" by (simp add: take_add)
  finally show "take (k + length d) (copy_to k d blk) = take (k + length d) cur" .
qed

lemma parse_block_ok:
  assumes "block_inv rc p d" "chained p" "makes_blocks nb" "\<not> src_closed s" "\<exists>x z. d @ src_bytes s @ x = concat p @ z"
  shows "\<exists>x. parse_block nb rc s = Some x \<and> advanced p d s x \<and>
    (rc_have rc < rc_need rc \<and> src_chunks s \<noteq> [] \<longrightarrow> src_size (snd (snd x)) < src_size s)"
  using assms
proof (induction nb rc s arbitrary: d rule: parse_block.induct)
  case (1 nb rc s)
  obtain dn cur rest k blk where b: "p = dn @ cur # rest" "rc_need rc = int (length cur)" "rc_have rc = int k" "k \<le> length cur"
    "d = concat dn @ take k cur" "rc_buf rc = dn @ [blk]" "length blk = length cur" "take k blk = take k cur" "rc_state rc = WantBlock" "length (rc_headBuf rc) = 16"
    using "1.prems"(1) unfolding block_inv_def by blast
  obtain x z where str: "d @ src_bytes s @ x = concat p @ z" using "1.prems"(5) by blast
  have ch: "chained (cur # rest)" using chained_append "1.prems"(2) b(1) by simp
  show ?case
  proof (cases "k < length cur")
    case True
    have lt: "rc_have rc < rc_need rc" "nat (rc_need rc - rc_have rc) = length cur - k" "0 < length cur - k" using True b by auto
    show ?thesis
    proof (rule read_cases [OF lt(3) "1.prems"(4), of "\<lambda>_ s. ((0, []), s)"], goal_cases none some)
      case (none s')
      have "parse_block nb rc s = Some (Pending, rc, s')" using none(1) lt by (subst parse_block.simps) simp
      moreover have "advanced p d s (Pending, rc, s')" using none "1.prems"(1) lt by (simp add: advanced_def)
      ultimately show ?thesis using none(5) by simp
    next
      case (some e s')
      have "take (length e) (src_bytes s @ x) = e" using some by simp
      moreover have "src_bytes s @ x = drop k cur @ concat rest @ z" using str b(1,5) by simp (metis append_eq_append_conv2 append_take_drop_id same_append_eq append_assoc)
      ultimately have e: "e = take (length e) (drop k cur)" using some(3) by simp
      note ct = copy_to_take [OF _ b(7,8) e]
      let ?rc = "rc\<lparr>rc_buf := dn @ [copy_to k e blk], rc_have := int k + int (length e)\<rparr>"
      have le: "k + length e \<le> length blk" using some(3) b(4,7) by simp
      have inv: "block_inv ?rc p (d @ e)"
      proof (rule block_invI [where dn = dn and cur = cur and rest = rest and k = "k + length e" and blk = "copy_to k e blk"])
        show "d @ e = concat dn @ take (k + length e) cur" using b(5) e by (simp add: take_add)
      qed (use b ct le in auto)
      show ?thesis
      proof (cases "k + length e < length cur")
        case short: True
        have "parse_block nb rc s = Some (Pending, ?rc, s')" using some(1,2) lt b short by (subst parse_block.simps) (simp add: Let_def)
        moreover have "advanced p d s (Pending, ?rc, s')" using some inv short b by (auto simp: advanced_def)
        ultimately show ?thesis using some(6) by simp
      next
        case full: False
        have eq: "parse_block nb rc s = parse_block nb ?rc s'" using some(1,2) lt b full by (subst parse_block.simps) (simp add: Let_def)
        have R: "((int (length e), e), s') = Connection_read False (\<lambda>_ s. ((0, []), s)) (nat (rc_need rc - rc_have rc)) s" using some(1) lt by simp
        have rceq: "rc\<lparr>rc_buf := butlast (rc_buf rc) @ [copy_to (nat (rc_have rc)) e (last (rc_buf rc))], rc_have := rc_have rc + int (length e)\<rparr> = ?rc"
          using b by simp
        have "\<exists>x. parse_block nb ?rc s' = Some x \<and> advanced p (d @ e) s' x \<and> (rc_have ?rc < rc_need ?rc \<and> src_chunks s' \<noteq> [] \<longrightarrow> src_size (snd (snd x)) < src_size s')"
          by (rule "1.IH"(1) [OF lt(1) R refl _ _ refl, unfolded rceq]) (use some inv "1.prems"(2,3) b full str in auto)
        then obtain y where y: "parse_block nb ?rc s' = Some y" "advanced p (d @ e) s' y" by blast
        have "advanced p d s y" using y(2) some(4,6) by (auto simp: advanced_def split: prod.splits parse_result.splits)
        moreover have "src_size (snd (snd y)) < src_size s" using y(2) some(6) by (auto simp: advanced_def split: prod.splits)
        ultimately show ?thesis using eq y(1) by simp
      qed
    qed
  next
    case False
    then have k: "k = length cur" "blk = cur" "d = concat dn @ cur" using b by auto
    have g: "4 \<le> length cur" "get4 0 cur = (if rest = [] then 0 else int (length (hd rest)))" using ch by (cases rest; simp)+
    show ?thesis
    proof (cases rest)
      case Nil
      let ?rc = "rc\<lparr>rc_state := WantHead, rc_need := 0, rc_have := 0, rc_buf := []\<rparr>"
      have "parse_block nb rc s = Some (Dispatched p, ?rc, s)" using b k g Nil by (subst parse_block.simps) (simp add: Let_def)
      moreover have "advanced p d s (Dispatched p, ?rc, s)" using "1.prems"(4) k b Nil by (simp add: advanced_def head_inv_def)
      ultimately show ?thesis using b k by simp
    next
      case (Cons c rest')
      let ?rc = "rc\<lparr>rc_need := int (length c), rc_have := 0, rc_buf := rc_buf rc @ [nb (length c)]\<rparr>"
      have c4: "4 \<le> length c" using ch Cons by (cases rest') auto
      then have "c \<noteq> []" by auto
      note c4 = c4 this
      have eq: "parse_block nb rc s = parse_block nb ?rc s" using b k g Cons c4 by (subst parse_block.simps) (simp add: Let_def)
      have inv: "block_inv ?rc p d"
        by (rule block_invI [where dn = "dn @ [cur]" and cur = c and rest = rest' and k = 0 and blk = "nb (length c)"])
          (use b k Cons "1.prems"(3) in \<open>auto simp: makes_blocks_def\<close>)
      have "\<exists>x. parse_block nb ?rc s = Some x \<and> advanced p d s x \<and> (rc_have ?rc < rc_need ?rc \<and> src_chunks s \<noteq> [] \<longrightarrow> src_size (snd (snd x)) < src_size s)"
        using "1.IH"(2) [of "int (length c)" d] b k g Cons c4 inv "1.prems"(2-5) by simp
      then show ?thesis using eq b k by auto
    qed
  qed
qed

lemma advanced_trans:
  "advanced p (d @ e) s' x \<Longrightarrow> src_bytes s = e @ src_bytes s' \<Longrightarrow> src_size s' < src_size s \<Longrightarrow>
   advanced p d s x \<and> src_size (snd (snd x)) < src_size s"
  by (auto simp: advanced_def split: prod.splits parse_result.splits)

lemma parsePacket_idle:
  assumes "head_inv rc d" "src_bytes s = []" "\<not> src_closed s" "src_chunks s \<noteq> []"
  shows "\<exists>s'. parsePacket nb rc s = Some (Pending, rc, s') \<and> src_bytes s' = [] \<and> \<not> src_closed s' \<and> src_size s' < src_size s"
proof -
  have h: "rc_state rc = WantHead" "rc_have rc = int (length d)" "0 < nat (16 - int (length d))" using assms(1) by (auto simp: head_inv_def)
  show ?thesis
  proof (rule read_cases [OF h(3) assms(3), of "\<lambda>_ s. ((0, []), s)"], goal_cases none some)
    case (none s')
    then show ?thesis using h assms by (intro exI [of _ s']) (simp add: parsePacket_def)
  qed (use assms in simp)
qed

lemma parsePacket_ok:
  assumes inv: "head_inv rc d \<or> block_inv rc p d \<and> rc_have rc < rc_need rc" and p: "packet_form p" and nb: "makes_blocks nb"
    and s: "\<not> src_closed s" "d @ src_bytes s @ x = concat p @ z" "src_chunks s \<noteq> []"
  shows "\<exists>x. parsePacket nb rc s = Some x \<and> advanced p d s x \<and> src_size (snd (snd x)) < src_size s"
proof (cases "head_inv rc d")
  case False
  then have b: "block_inv rc p d" "rc_have rc < rc_need rc" using inv by auto
  then have "rc_state rc = WantBlock" by (auto simp: block_inv_def)
  then show ?thesis using parse_block_ok [OF b(1) _ nb s(1)] p s b(2) by (auto simp: parsePacket_def packet_form_def)
next
  case True
  have h: "rc_state rc = WantHead" "rc_have rc = int (length d)" "rc_buf rc = []" "length d < 16" "length (rc_headBuf rc) = 16" "take (length d) (rc_headBuf rc) = d"
    and n: "0 < 16 - length d" "nat (16 - int (length d)) = 16 - length d" using True by (auto simp: head_inv_def)
  show ?thesis
  proof (rule read_cases [OF n(1) s(1), of "\<lambda>_ s. ((0, []), s)"], goal_cases none some)
    case (none s')
    then have "parsePacket nb rc s = Some (Pending, rc, s')" using h n by (simp add: parsePacket_def)
    then show ?thesis using none True s(3) by (auto simp: advanced_def)
  next
    case (some e s')
    let ?hb = "copy_to (length d) e (rc_headBuf rc)"
    have lb: "length ?hb = 16" "take (length d + length e) ?hb = d @ e" using some(3) h by (simp_all add: copy_to_def)
    show ?thesis
    proof (cases "length d + length e < 16")
      case short: True
      let ?rc = "rc\<lparr>rc_headBuf := ?hb, rc_have := int (length d) + int (length e)\<rparr>"
      have "parsePacket nb rc s = Some (Pending, ?rc, s')" using some(1,2) h n short by (simp add: parsePacket_def Let_def)
      moreover have "head_inv ?rc (d @ e)" using h lb short by (simp add: head_inv_def)
      ultimately show ?thesis using some by (auto simp: advanced_def)
    next
      case full: False
      then have len: "length d + length e = 16" using some(3) h(4) by linarith
      then have hb: "?hb = d @ e" using lb by simp
      obtain b bs where pb: "p = b # bs" using p by (cases p) (auto simp: packet_form_def)
      have b16: "16 \<le> length b" "get4 off_firstLen b = int (length b)" using p pb by (simp_all add: packet_form_def)
      have de: "d @ e = take 16 b"
      proof -
        have "take 16 (d @ src_bytes s @ x) = take 16 b" using s(2) pb b16 by simp
        moreover have "d @ src_bytes s @ x = (d @ e) @ src_bytes s' @ x" using some(4) by simp
        moreover have "take 16 ((d @ e) @ src_bytes s' @ x) = d @ e" using len by simp
        ultimately show ?thesis by metis
      qed
      have "get4 off_firstLen ?hb = get4 off_firstLen b" by (rule get4_prefix [of _ 16]) (use hb de len b16 in auto)
      then have first: "get4 off_firstLen ?hb = int (length b)" using b16 by simp
      let ?rc = "rc\<lparr>rc_headBuf := ?hb, rc_need := int (length b), rc_buf := [copy_to 0 ?hb (nb (length b))], rc_have := 16, rc_state := WantBlock\<rparr>"
      have eq: "parsePacket nb rc s = parse_block nb ?rc s'"
        using some(1,2) h n len first b16 by (simp add: parsePacket_def Let_def)
      have lnb: "length (nb (length b)) = length b" using nb by (simp add: makes_blocks_def)
      have "block_inv ?rc p (d @ e)"
        by (rule block_invI [where dn = "[]" and cur = b and rest = bs and k = 16 and blk = "copy_to 0 ?hb (nb (length b))"])
          (use pb b16 de hb len lb lnb in \<open>simp_all add: copy_to_def\<close>)
      from parse_block_ok [OF this _ nb some(5)] p s(2) some(4)
      obtain y where "parse_block nb ?rc s' = Some y" "advanced p (d @ e) s' y" by (auto simp: packet_form_def)
      then show ?thesis using advanced_trans [OF _ some(4,6)] eq by auto
    qed
  qed
qed

lemma block_inv_short: "block_inv rc p d \<Longrightarrow> rc_have rc < rc_need rc \<Longrightarrow> length d < length (concat p)"
  by (auto simp: block_inv_def)

text \<open>The whole stream.\<close>

lemma receive_ok:
  assumes "case ps of [] \<Rightarrow> d = [] \<and> head_inv rc [] | p # _ \<Rightarrow> head_inv rc d \<or> block_inv rc p d \<and> rc_have rc < rc_need rc"
    and "\<forall>p \<in> set ps. packet_form p" "makes_blocks nb" "\<not> src_closed s" "d @ src_bytes s = concat (map concat ps)"
    and "ps \<noteq> [] \<longrightarrow> length d < length (concat (hd ps))"
  shows "\<exists>rc' s'. receive nb rc s = Some (ps, rc', s') \<and> head_inv rc' []"
  using assms
proof (induction "src_size s" arbitrary: ps d rc s rule: less_induct)
  case less
  show ?case
  proof (cases "src_chunks s = []")
    case True
    then have "d = concat (map concat ps)" using less.prems(5) by (simp add: src_bytes_def)
    then have "ps = []" using less.prems(6) by (cases ps) auto
    then show ?thesis using True less.prems(1) by (subst receive.simps) simp
  next
    case chunks: False
    show ?thesis
    proof (cases ps)
      case Nil
      then have h: "d = []" "head_inv rc []" "src_bytes s = []" using less.prems(1,5) by auto
      obtain s' where s': "parsePacket nb rc s = Some (Pending, rc, s')" "src_bytes s' = []" "\<not> src_closed s'" "src_size s' < src_size s"
        using parsePacket_idle [OF h(2,3) less.prems(4) chunks] by blast
      have "\<exists>rc' s''. receive nb rc s' = Some (ps, rc', s'') \<and> head_inv rc' []"
        by (rule less.hyps [OF s'(4), of "[]"]) (use s' h Nil less.prems(3) in auto)
      then show ?thesis using s'(1) chunks by (subst receive.simps) simp
    next
      case (Cons p qs)
      have inv: "head_inv rc d \<or> block_inv rc p d \<and> rc_have rc < rc_need rc" and pf: "packet_form p" using less.prems(1,2) Cons by simp_all
      have st: "d @ src_bytes s @ [] = concat p @ concat (map concat qs)" using less.prems(5) Cons by simp
      obtain r rc1 s1 where x: "parsePacket nb rc s = Some (r, rc1, s1)" "advanced p d s (r, rc1, s1)" "src_size s1 < src_size s"
        using parsePacket_ok [OF inv pf less.prems(3,4) st chunks] by auto
      have sc: "\<not> src_closed s1" using x(2) by (simp add: advanced_def)
      show ?thesis
      proof (cases r)
        case Closed
        then show ?thesis using x(2) by (simp add: advanced_def)
      next
        case Pending
        then obtain e where e: "src_bytes s = e @ src_bytes s1" "head_inv rc1 (d @ e) \<or> block_inv rc1 p (d @ e) \<and> rc_have rc1 < rc_need rc1"
          using x(2) by (auto simp: advanced_def)
        have pre: "(d @ e) @ src_bytes s1 = concat p @ concat (map concat qs)" using st e(1) by simp
        have "length (d @ e) < length (concat p)" using e(2)
        proof
          assume "head_inv rc1 (d @ e)"
          moreover have "16 \<le> length (concat p)" using pf by (cases p) (auto simp: packet_form_def)
          ultimately show ?thesis by (simp add: head_inv_def)
        next
          assume "block_inv rc1 p (d @ e) \<and> rc_have rc1 < rc_need rc1"
          then show ?thesis using block_inv_short by blast
        qed
        then have "\<exists>rc' s'. receive nb rc1 s1 = Some (ps, rc', s') \<and> head_inv rc' []"
          by (intro less.hyps [OF x(3), of "d @ e"]) (use e pre Cons less.prems(2,3) sc in auto)
        then show ?thesis using x(1) Pending chunks by (subst receive.simps) simp
      next
        case (Dispatched q)
        then have q: "q = p" "d @ src_bytes s = concat p @ src_bytes s1" "head_inv rc1 []" using x(2) by (auto simp: advanced_def)
        have "length (concat (hd qs)) > 0" if "qs \<noteq> []" using less.prems(2) Cons that
          by (cases qs; cases "hd qs") (auto simp: packet_form_def)
        then have "\<exists>rc' s'. receive nb rc1 s1 = Some (qs, rc', s') \<and> head_inv rc' []"
          by (intro less.hyps [OF x(3), of "[]"]) (use q st Cons less.prems(2,3) sc in \<open>auto split: list.splits\<close>)
        then show ?thesis using x(1) Dispatched q(1) chunks Cons by (subst receive.simps) auto
      qed
    qed
  qed
qed

section \<open>The sender\<close>

text \<open>What the writer has when it sends: blocks with room for their headers, the first with room for the packet header too.\<close>

definition writer_form :: "rope \<Rightarrow> bool" where
  "writer_form r = (r \<noteq> [] \<and> 16 \<le> length (hd r) \<and> (\<forall>b \<in> set r. 4 \<le> length b \<and> int (length b) < 2 ^ 31))"

lemma chained_next_lens:
  "r \<noteq> [] \<Longrightarrow> \<forall>b \<in> set r. 4 \<le> length b \<and> int (length b) < 2 ^ 31 \<Longrightarrow> chained (set_next_lens r) \<and> map length (set_next_lens r) = map length r"
proof (induction r rule: set_next_lens.induct)
  case (3 b b' bs)
  then have ih: "chained (set_next_lens (b' # bs))" "map length (set_next_lens (b' # bs)) = length b' # map length bs" by auto
  obtain c cs where c: "set_next_lens (b' # bs) = c # cs" "length c = length b'" using ih(2) by (cases "set_next_lens (b' # bs)") auto
  show ?case using ih c "3.prems" by (simp add: get4_put4)
qed (auto simp: get4_put4)

lemma set_next_lens_hd: "r \<noteq> [] \<Longrightarrow> \<exists>v. hd (set_next_lens r) = put4 0 v (hd r)"
  by (cases r rule: set_next_lens.cases) auto

lemma finish_packet_form:
  assumes "writer_form r"
  shows "packet_form (finish_packet r)" "map length (finish_packet r) = map length r"
proof -
  obtain b bs where r: "r = b # bs" using assms by (cases r) (auto simp: writer_form_def)
  let ?b = "put4 off_firstLen (int (length b)) (put4 off_totalLen (int (rope_length r)) b)"
  have b: "16 \<le> length b" "int (length b) < 2 ^ 31" using assms r by (auto simp: writer_form_def)
  have f: "finish_packet r = set_next_lens (?b # bs)" using r b by (simp add: finish_packet_def Let_def)
  have "\<forall>c \<in> set (?b # bs). 4 \<le> length c \<and> int (length c) < 2 ^ 31" using assms r b by (auto simp: writer_form_def)
  then have c: "chained (finish_packet r)" "map length (finish_packet r) = map length (?b # bs)" unfolding f using chained_next_lens [of "?b # bs"] by simp_all
  then show m: "map length (finish_packet r) = map length r" using r b by simp
  obtain v where h: "hd (finish_packet r) = put4 0 v ?b" unfolding f using set_next_lens_hd [of "?b # bs"] by auto
  have "get4 off_firstLen (put4 0 v ?b) = int (length b)" using b by (simp add: get4_put4_other get4_put4)
  then show "packet_form (finish_packet r)" using c(1) h b by (simp add: packet_form_def)
qed

text \<open>Opening a packet and allocating memory in it.\<close>

lemma rope_growsD:
  assumes "rope_grows ap"
  obtains d where "length d = n" "pb_blocks (ap n pb) =
    (if pb_blocks pb \<noteq> [] \<and> n \<le> pb_avail pb then butlast (pb_blocks pb) @ [last (pb_blocks pb) @ d] else pb_blocks pb @ [d])"
  using assms unfolding rope_grows_def by blast

text \<open>A new piece either extends the last block, or is a block of its own behind a block header.\<close>

lemma pkt_allocBytes_cases:
  assumes "rope_grows ap" "pkt_allocBytes ap nb pb = (pl, off, pb')"
  obtains (extend) r b d where "pb_blocks pb = r @ [b]" "length d = nb" "pb_blocks pb' = r @ [b @ d]" "pl = (length r, length b)" "off = length (concat r) + length b"
  | (fresh) d where "length d = 4 + nb" "pb_blocks pb' = pb_blocks pb @ [d]" "pl = (length (pb_blocks pb), 4)" "off = length (concat (pb_blocks pb)) + 4"
proof (cases "pb_blocks pb \<noteq> [] \<and> nb \<le> pb_avail pb")
  case True
  obtain r b where rb: "pb_blocks pb = r @ [b]" using True by (cases "pb_blocks pb" rule: rev_cases) auto
  obtain d where d: "length d = nb" "pb_blocks (ap nb pb) =
      (if pb_blocks pb \<noteq> [] \<and> nb \<le> pb_avail pb then butlast (pb_blocks pb) @ [last (pb_blocks pb) @ d] else pb_blocks pb @ [d])"
    by (rule rope_growsD [OF assms(1)])
  from d(2) have "pb_blocks (ap nb pb) = r @ [b @ d]" using True rb by simp
  then show ?thesis using assms(2) True rb d(1) by (intro extend [of r b d]) (auto simp: pkt_allocBytes_def rope_length_def)
next
  case False
  obtain d where d: "length d = 4 + nb" "pb_blocks (ap (4 + nb) pb) =
      (if pb_blocks pb \<noteq> [] \<and> 4 + nb \<le> pb_avail pb then butlast (pb_blocks pb) @ [last (pb_blocks pb) @ d] else pb_blocks pb @ [d])"
    by (rule rope_growsD [OF assms(1)])
  have "\<not> (pb_blocks pb \<noteq> [] \<and> 4 + nb \<le> pb_avail pb)" using False by linarith
  then have "pb_blocks (ap (4 + nb) pb) = pb_blocks pb @ [d]" using d(2) by auto
  then show ?thesis using assms(2) False d(1) by (intro fresh [of d]) (auto simp: pkt_allocBytes_def rope_length_def)
qed

lemma pkt_find_append: "pkt_find_from i r l = Some pl \<Longrightarrow> pkt_find_from i (r @ s) l = Some pl"
  by (induction r arbitrary: i l) (auto split: if_splits)

lemma pkt_find_longer: "pkt_find_from i (r @ [b]) l = Some pl \<Longrightarrow> pkt_find_from i (r @ [b @ d]) l = Some pl"
  by (induction r arbitrary: i l) (auto split: if_splits)

lemma pkt_find_at: "l < length b \<Longrightarrow> pkt_find_from i (r @ b # s) (length (concat r) + l) = Some (i + length r, l)"
  by (induction r arbitrary: i) auto

lemma pkt_find_lengths: "map length r = map length s \<Longrightarrow> pkt_find_from i r l = pkt_find_from i s l"
proof (induction r arbitrary: i l s)
  case (Cons b r)
  then obtain c t where "s = c # t" "length c = length b" "map length r = map length t" by (cases s) auto
  then show ?case using Cons.IH by simp
qed simp

lemma pkt_alloc_found:
  assumes "rope_grows ap" "pkt_allocBytes ap nb pb = (pl, off, pb')" "0 < nb"
  shows "pkt_find_from 0 (pb_blocks pb') off = Some pl"
  using assms(1,2)
proof (cases rule: pkt_allocBytes_cases)
  case (extend r b d)
  then show ?thesis using pkt_find_at [of "length b" "b @ d" 0 r "[]"] assms(3) by simp
next
  case (fresh d)
  then show ?thesis using pkt_find_at [of 4 d 0 "pb_blocks pb" "[]"] assms(3) by simp
qed

lemma pkt_alloc_keeps_found:
  assumes "rope_grows ap" "pkt_allocBytes ap nb pb = (pl', off', pb')" "pkt_find_from 0 (pb_blocks pb) off = Some pl"
  shows "pkt_find_from 0 (pb_blocks pb') off = Some pl"
  using assms(1,2)
proof (cases rule: pkt_allocBytes_cases)
  case (extend r b d)
  then show ?thesis using assms(3) pkt_find_longer by simp
next
  case (fresh d)
  then show ?thesis using assms(3) pkt_find_append by simp
qed

text \<open>What a program does to a packet after opening it: it allocates memory and fills in memory it has.\<close>

datatype pkt_op = Alloc nat | Fill nat nat "u8 list"

fun pkt_step :: "(nat \<Rightarrow> packet_buf \<Rightarrow> packet_buf) \<Rightarrow> pkt_op \<Rightarrow> packet_buf \<Rightarrow> packet_buf" where
  "pkt_step ap (Alloc n) pb = snd (snd (pkt_allocBytes ap n pb))"
| "pkt_step ap (Fill i off d) pb = upd_block i (copy_to off d) pb"

text \<open>A program stays within the blocks.\<close>

fun op_inside :: "pkt_op \<Rightarrow> packet_buf \<Rightarrow> bool" where
  "op_inside (Alloc n) pb = True"
| "op_inside (Fill i off d) pb = (i < length (pb_blocks pb) \<and> off + length d \<le> length (pb_blocks pb ! i))"

fun ops_inside :: "(nat \<Rightarrow> packet_buf \<Rightarrow> packet_buf) \<Rightarrow> pkt_op list \<Rightarrow> packet_buf \<Rightarrow> bool" where
  "ops_inside ap [] pb = True"
| "ops_inside ap (p # ps) pb = (op_inside p pb \<and> ops_inside ap ps (pkt_step ap p pb))"

definition roomy :: "rope \<Rightarrow> bool" where
  "roomy r = (r \<noteq> [] \<and> 16 \<le> length (hd r) \<and> (\<forall>b \<in> set r. 4 \<le> length b))"

lemma roomy_lengths: "map length r = map length s \<Longrightarrow> roomy s \<Longrightarrow> roomy r"
proof -
  assume m: "map length r = map length s" and s: "roomy s"
  have "\<forall>n \<in> set (map length r). 4 \<le> n" using m s by (simp add: roomy_def)
  moreover have "length (hd r) = length (hd s)" "r \<noteq> []" using m s by (cases r; cases s; simp add: roomy_def)+
  ultimately show "roomy r" using s by (simp add: roomy_def)
qed

lemma upd_block_lengths:
  assumes "i < length (pb_blocks pb) \<Longrightarrow> length (f (pb_blocks pb ! i)) = length (pb_blocks pb ! i)"
  shows "map length (pb_blocks (upd_block i f pb)) = map length (pb_blocks pb)"
proof (cases "i < length (pb_blocks pb)")
  case True
  then show ?thesis using assms by (simp add: upd_block_def map_update list_update_same_conv)
qed (simp add: upd_block_def list_update_beyond)

lemma alloc_roomy:
  assumes "rope_grows ap" "pkt_allocBytes ap nb pb = (pl, off, pb')" "roomy (pb_blocks pb)"
  shows "roomy (pb_blocks pb')"
  using assms(1,2)
proof (cases rule: pkt_allocBytes_cases)
  case (extend r b d)
  then show ?thesis using assms(3) by (cases r) (auto simp: roomy_def)
next
  case (fresh d)
  then show ?thesis using assms(3) by (auto simp: roomy_def)
qed

lemma step_lengths:
  assumes "op_inside (Fill i off d) pb"
  shows "map length (pb_blocks (pkt_step ap (Fill i off d) pb)) = map length (pb_blocks pb)"
  using assms by (simp add: upd_block_lengths copy_to_def)

lemma ops_keep:
  assumes "rope_grows ap" "ops_inside ap ps pb"
  shows "roomy (pb_blocks pb) \<Longrightarrow> roomy (pb_blocks (fold (pkt_step ap) ps pb))"
    and "pkt_find_from 0 (pb_blocks pb) off = Some pl \<Longrightarrow> pkt_find_from 0 (pb_blocks (fold (pkt_step ap) ps pb)) off = Some pl"
proof -
  have "(roomy (pb_blocks pb) \<longrightarrow> roomy (pb_blocks (fold (pkt_step ap) ps pb))) \<and>
    (pkt_find_from 0 (pb_blocks pb) off = Some pl \<longrightarrow> pkt_find_from 0 (pb_blocks (fold (pkt_step ap) ps pb)) off = Some pl)"
    using assms(2)
  proof (induction ps arbitrary: pb)
    case (Cons p ps)
    let ?pb = "pkt_step ap p pb"
    have ih: "(roomy (pb_blocks ?pb) \<longrightarrow> roomy (pb_blocks (fold (pkt_step ap) ps ?pb))) \<and>
      (pkt_find_from 0 (pb_blocks ?pb) off = Some pl \<longrightarrow> pkt_find_from 0 (pb_blocks (fold (pkt_step ap) ps ?pb)) off = Some pl)"
      by (rule Cons.IH) (use Cons.prems in simp)
    have "(roomy (pb_blocks pb) \<longrightarrow> roomy (pb_blocks ?pb)) \<and> (pkt_find_from 0 (pb_blocks pb) off = Some pl \<longrightarrow> pkt_find_from 0 (pb_blocks ?pb) off = Some pl)"
    proof (cases p)
      case (Alloc n)
      obtain pl' off' pb' where a: "pkt_allocBytes ap n pb = (pl', off', pb')" by (cases "pkt_allocBytes ap n pb") auto
      then show ?thesis using Alloc alloc_roomy [OF assms(1) a] pkt_alloc_keeps_found [OF assms(1) a] by simp
    next
      case (Fill i o' d)
      then have m: "map length (pb_blocks ?pb) = map length (pb_blocks pb)" using step_lengths [of i o' d pb ap] Cons.prems by simp
      then show ?thesis using roomy_lengths [OF m] pkt_find_lengths [OF m] by simp
    qed
    then show ?case using ih by simp
  qed simp
  then show "roomy (pb_blocks pb) \<Longrightarrow> roomy (pb_blocks (fold (pkt_step ap) ps pb))"
    and "pkt_find_from 0 (pb_blocks pb) off = Some pl \<Longrightarrow> pkt_find_from 0 (pb_blocks (fold (pkt_step ap) ps pb)) off = Some pl" by simp_all
qed

lemma open_roomy:
  assumes "rope_grows ap" "pb_blocks pb0 = []"
  shows "roomy (pb_blocks (snd (pkt_open ap pb0 ID SZ)))"
proof -
  obtain hdr off pb1 where a: "pkt_allocBytes ap 12 pb0 = (hdr, off, pb1)" by (cases "pkt_allocBytes ap 12 pb0") auto
  have h: "hdr = (0, 4)" "\<exists>d. length d = 16 \<and> pb_blocks pb1 = [d]" using assms(1) a by (cases rule: pkt_allocBytes_cases; use assms(2) in simp)+
  let ?pb2 = "upd_block 0 (put4 12 ID) pb1"
  have m2: "map length (pb_blocks ?pb2) = map length (pb_blocks pb1)" using h by (intro upd_block_lengths) auto
  have r2: "roomy (pb_blocks ?pb2)" by (rule roomy_lengths [OF m2]) (use h in \<open>auto simp: roomy_def\<close>)
  obtain msg off' pb3 where b: "pkt_allocBytes ap SZ ?pb2 = (msg, off', pb3)" by (cases "pkt_allocBytes ap SZ ?pb2") auto
  have r3: "roomy (pb_blocks pb3)" by (rule alloc_roomy [OF assms(1) b r2])
  have fit: "fst msg < length (pb_blocks pb3) \<and> snd msg + SZ \<le> length (pb_blocks pb3 ! fst msg)" using assms(1) b
    by (cases rule: pkt_allocBytes_cases) auto
  let ?pb4 = "upd_block (fst msg) (zero_fill (snd msg) SZ) pb3"
  have m4: "map length (pb_blocks ?pb4) = map length (pb_blocks pb3)" by (rule upd_block_lengths) (use fit in \<open>simp add: zero_fill_def\<close>)
  have r4: "roomy (pb_blocks ?pb4)" by (rule roomy_lengths [OF m4 r3])
  then have "16 \<le> length (pb_blocks ?pb4 ! 0)" by (cases "pb_blocks ?pb4") (auto simp: roomy_def)
  then have m5: "map length (pb_blocks (upd_block 0 (put4 8 0) ?pb4)) = map length (pb_blocks ?pb4)" by (intro upd_block_lengths) simp
  show ?thesis using roomy_lengths [OF m5 r4] a b h(1) by (simp add: pkt_open_def Let_def)
qed

section \<open>Properties\<close>

text \<open>A packet as a program writes it: opened, grown and filled in, with blocks below \<open>2 ^ 31\<close> bytes.\<close>

definition pkt_written :: "(nat \<Rightarrow> packet_buf \<Rightarrow> packet_buf) \<Rightarrow> packet_buf \<Rightarrow> packet_buf \<Rightarrow> bool" where
  "pkt_written ap pb0 pb =
     (\<exists>ID SZ ps. pb = fold (pkt_step ap) ps (snd (pkt_open ap pb0 ID SZ)) \<and> ops_inside ap ps (snd (pkt_open ap pb0 ID SZ)) \<and>
        (\<forall>b \<in> set (pb_blocks pb). int (length b) < 2 ^ 31))"

lemma written_form: "rope_grows ap \<Longrightarrow> pb_blocks pb0 = [] \<Longrightarrow> pkt_written ap pb0 pb \<Longrightarrow> writer_form (pb_blocks pb)"
  using ops_keep(1) [of ap] open_roomy [of ap pb0] unfolding pkt_written_def roomy_def writer_form_def by blast

text \<open>A connection sends packets and is told when it can write.\<close>

datatype conn_op = Send_packet packet_buf | Can_write

fun conn_step :: "(rope \<Rightarrow> u8 list \<Rightarrow> rope) \<Rightarrow> (rope \<Rightarrow> rope \<Rightarrow> rope) \<Rightarrow> (u8 list \<Rightarrow> wire \<Rightarrow> int \<times> wire) \<Rightarrow> conn_op \<Rightarrow> write_buffer \<Rightarrow> write_buffer" where
  "conn_step app appr t (Send_packet pb) wb = pkt_send app appr (PacketConnection_bufWrite False t) pb wb"
| "conn_step app appr t Can_write wb = writeReady (PacketConnection_bufWrite False t) PacketConnection_bufClose wb"

fun sent_packets :: "conn_op list \<Rightarrow> packet_buf list" where
  "sent_packets [] = []"
| "sent_packets (Send_packet pb # evs) = pb # sent_packets evs"
| "sent_packets (Can_write # evs) = sent_packets evs"

fun to_wb :: "conn_op \<Rightarrow> wb_op" where
  "to_wb (Send_packet pb) = Send_rope False (finish_packet (pb_blocks pb))"
| "to_wb Can_write = Write_ready"

lemma conn_step_wb: "conn_step app appr t ev wb = wb_step app appr (PacketConnection_bufWrite False t) PacketConnection_bufClose (to_wb ev) wb"
  by (cases ev) (simp_all add: pkt_send_def)

lemma conn_run_wb:
  "fold (conn_step app appr t) evs wb = fold (wb_step app appr (PacketConnection_bufWrite False t) PacketConnection_bufClose) (map to_wb evs) wb"
  by (induction evs arbitrary: wb) (simp_all add: conn_step_wb)

lemma sent_data: "concat (map op_data (map to_wb evs)) = concat (map concat (map (\<lambda>pb. finish_packet (pb_blocks pb)) (sent_packets evs)))"
  by (induction evs rule: sent_packets.induct) simp_all

text \<open>
  (C4) Packets survive the connection: whatever packets are written and sent, however the kernel splits
  the writes of the sender, and in whatever pieces the bytes then arrive at the receiver, the receiver
  dispatches exactly the packets sent, block for block and in order, and ends waiting for the next.
\<close>

theorem packets_roundtrip:
  assumes "rope_grows ap" and "pb_blocks pb0 = []" and "rope_appends app appr" and "makes_blocks nb"
    and "\<forall>pb \<in> set (sent_packets evs). pkt_written ap pb0 pb" and "Failure \<notin> set sched"
    and "wb = fold (conn_step app appr tlsWrite) evs (wb_new sched)" and "concat (wb_queue wb) = []"
    and "concat chunks = wire_out (wb_wire wb)"
  shows "\<exists>rc s. receive nb recv_new \<lparr>src_chunks = chunks, src_closed = False\<rparr> =
      Some (map (\<lambda>pb. finish_packet (pb_blocks pb)) (sent_packets evs), rc, s) \<and> rc_state rc = WantHead \<and> rc_have rc = 0"
proof -
  let ?ps = "map (\<lambda>pb. finish_packet (pb_blocks pb)) (sent_packets evs)" and ?s = "\<lparr>src_chunks = chunks, src_closed = False\<rparr>"
  have wb: "wb_output wb = concat (map concat ?ps)"
    unfolding assms(7) conn_run_wb using pconn.wb_run_keeps [OF assms(3)] wb_new_ok [OF assms(6)] sent_data [of evs] by simp
  have str: "[] @ src_bytes ?s = concat (map concat ?ps)" using wb assms(8,9) by (simp add: wb_output_def src_bytes_def)
  have pf: "\<forall>p \<in> set ?ps. packet_form p" using assms(5) written_form [OF assms(1,2)] finish_packet_form(1) by auto
  have h: "head_inv recv_new []" by (simp add: head_inv_def recv_new_def)
  have ne: "?ps \<noteq> [] \<longrightarrow> length [] < length (concat (hd ?ps))"
  proof
    assume "?ps \<noteq> []"
    then have "packet_form (hd ?ps)" using pf by (metis hd_in_set)
    then show "length [] < length (concat (hd ?ps))" by (cases "hd ?ps") (auto simp: packet_form_def)
  qed
  have "case ?ps of [] \<Rightarrow> [] = ([] :: u8 list) \<and> head_inv recv_new [] | p # _ \<Rightarrow> head_inv recv_new [] \<or> block_inv recv_new p [] \<and> rc_have recv_new < rc_need recv_new"
    using h by (simp split: list.splits)
  from receive_ok [OF this pf assms(4) _ str ne] show ?thesis by (auto simp: head_inv_def)
qed

text \<open>A rope with blocks of 4096 bytes, and a packet of one block in it.\<close>

definition demo_append :: "nat \<Rightarrow> packet_buf \<Rightarrow> packet_buf" where
  "demo_append n pb =
     (if pb_blocks pb \<noteq> [] \<and> n \<le> pb_avail pb
      then \<lparr>pb_blocks = butlast (pb_blocks pb) @ [last (pb_blocks pb) @ replicate n 0], pb_avail = pb_avail pb - n\<rparr>
      else \<lparr>pb_blocks = pb_blocks pb @ [replicate n 0], pb_avail = 4096 - n\<rparr>)"

abbreviation demo_empty :: packet_buf where
  "demo_empty \<equiv> \<lparr>pb_blocks = [], pb_avail = 0\<rparr>"

abbreviation demo_packet :: packet_buf where
  "demo_packet \<equiv> snd (pkt_open demo_append demo_empty 7 4)"

lemma demo_grows: "rope_grows demo_append"
  unfolding rope_grows_def
proof (intro allI)
  fix n pb
  show "\<exists>d. length d = n \<and> pb_blocks (demo_append n pb) =
    (if pb_blocks pb \<noteq> [] \<and> n \<le> pb_avail pb then butlast (pb_blocks pb) @ [last (pb_blocks pb) @ d] else pb_blocks pb @ [d])"
    by (rule exI [of _ "replicate n 0"]) (simp add: demo_append_def)
qed

lemma demo_packet_block: "\<exists>b. pb_blocks demo_packet = [b] \<and> length b = 20"
  by (simp add: pkt_open_def pkt_allocBytes_def demo_append_def upd_block_def rope_length_def zero_fill_def Let_def)

lemma demo_written: "pkt_written demo_append demo_empty demo_packet"
  unfolding pkt_written_def using demo_packet_block by (intro exI [of _ 7] exI [of _ 4] exI [of _ "[]"]) auto

lemma packets_roundtrip_witness:
  "\<exists>B rc s. finish_packet (pb_blocks demo_packet) = [B] \<and>
     receive (\<lambda>n. replicate n 0) recv_new \<lparr>src_chunks = [take 7 B, [], drop 7 B], src_closed = False\<rparr> = Some ([[B]], rc, s)"
proof -
  have "writer_form (pb_blocks demo_packet)" by (rule written_form [OF demo_grows _ demo_written]) simp
  from finish_packet_form(2) [OF this] obtain B where B: "finish_packet (pb_blocks demo_packet) = [B]" "length B = 20"
    using demo_packet_block by (cases "finish_packet (pb_blocks demo_packet)") auto
  let ?wb = "fold (conn_step app_block append (\<lambda>_ k. (0, k))) [Send_packet demo_packet, Can_write] (wb_new [Accept 5, Accept 99])"
  have wb: "wb_queue ?wb = []" "wire_out (wb_wire ?wb) = B"
    using B by (simp_all add: pkt_send_def send_rope_def wb_new_def selectFd_new_def wantWriteGet_def wantWriteSet_def writeReady_def
      PacketConnection_bufWrite_def Connection_write_def sys_write_def Let_def)
  have "\<exists>rc s. receive (\<lambda>n. replicate n 0) recv_new \<lparr>src_chunks = [take 7 B, [], drop 7 B], src_closed = False\<rparr> =
      Some (map (\<lambda>pb. finish_packet (pb_blocks pb)) (sent_packets [Send_packet demo_packet, Can_write]), rc, s) \<and> rc_state rc = WantHead \<and> rc_have rc = 0"
    by (rule packets_roundtrip [OF demo_grows, of demo_empty app_block append _ _ "[Accept 5, Accept 99]" ?wb "\<lambda>_ k. (0, k)"])
      (use wb demo_written in \<open>simp_all add: rope_appends_def makes_blocks_def\<close>)
  then show ?thesis using B by auto
qed

text \<open>
  The offsets in a packet are good on the other side: for memory allocated in a packet at a nonzero
  size, the receiver's search by the offset that was returned for it arrives at the same block and
  position, whatever was allocated and filled in afterwards.
\<close>

theorem packet_offsets_found:
  assumes "rope_grows ap" and "pb_blocks pb0 = []" and "pkt_written ap pb0 pb" and "0 < n"
    and "pkt_allocBytes ap n pb = (pl, off, pb')" and "ops_inside ap ps pb'"
    and "\<forall>b \<in> set (pb_blocks (fold (pkt_step ap) ps pb')). int (length b) < 2 ^ 31"
  shows "pktFind (finish_packet (pb_blocks (fold (pkt_step ap) ps pb'))) off = Some pl"
proof -
  let ?r = "pb_blocks (fold (pkt_step ap) ps pb')"
  have r: "roomy (pb_blocks pb)" using written_form [OF assms(1-3)] by (simp add: writer_form_def roomy_def)
  have r': "roomy ?r" by (rule ops_keep(1) [OF assms(1,6) alloc_roomy [OF assms(1,5) r]])
  then have wf: "writer_form ?r" using assms(7) by (simp add: writer_form_def roomy_def)
  have "pkt_find_from 0 ?r off = Some pl" by (rule ops_keep(2) [OF assms(1,6) pkt_alloc_found [OF assms(1,5,4)]])
  then have f: "pkt_find_from 0 (finish_packet ?r) off = Some pl" using pkt_find_lengths [OF finish_packet_form(2) [OF wf]] by simp
  have "0 < off" using assms(1,5)
  proof (cases rule: pkt_allocBytes_cases)
    case (extend r b d)
    then have "4 \<le> length b" using r by (simp add: roomy_def)
    then have "0 < length b" by linarith
    then show ?thesis using extend by simp
  qed simp
  then show ?thesis using f by (simp add: pktFind_def)
qed

lemma packet_offsets_found_witness:
  "pktFind (finish_packet (pb_blocks (fold (pkt_step demo_append) [Alloc 9000] (snd (snd (pkt_allocBytes demo_append 5 demo_packet)))))) 20 = Some (0, 20)"
proof -
  obtain b where b: "pb_blocks demo_packet = [b]" "length b = 20" "pb_avail demo_packet = 4076"
    using demo_packet_block by (auto simp: pkt_open_def pkt_allocBytes_def demo_append_def upd_block_def rope_length_def zero_fill_def Let_def)
  let ?a = "demo_append 5 demo_packet"
  have a: "pkt_allocBytes demo_append 5 demo_packet = ((0, 20), 20, ?a)" using b by (simp add: pkt_allocBytes_def rope_length_def)
  have "pb_blocks ?a = [b @ replicate 5 0]" "pb_avail ?a = 4071" using b by (simp_all add: demo_append_def)
  then have "\<forall>c \<in> set (pb_blocks (fold (pkt_step demo_append) [Alloc 9000] ?a)). int (length c) < 2 ^ 31"
    using b by (simp add: pkt_allocBytes_def demo_append_def [of 9004])
  from packet_offsets_found [OF demo_grows _ demo_written _ a _ this] show ?thesis using a by simp
qed

text \<open>
  The receiver trusts the length in the header: a first block announced with fewer than 16 bytes
  makes it copy the headers past the end of the block.
\<close>

lemma short_first_block_overflows:
  assumes "length h = 16" and "0 \<le> get4 off_firstLen h" and "get4 off_firstLen h < 16"
  shows "parsePacket nb recv_new \<lparr>src_chunks = h # cs, src_closed = c\<rparr> = None"
proof -
  have "h \<noteq> []" "nat (get4 off_firstLen h) < 16" using assms by auto
  then show ?thesis using assms(1) by (simp add: parsePacket_def recv_new_def Connection_read_def sys_read_def copy_to_def Let_def)
qed

lemma short_first_block_overflows_witness:
  "parsePacket (\<lambda>n. replicate n 0) recv_new \<lparr>src_chunks = [replicate 16 0], src_closed = False\<rparr> = None"
  by (rule short_first_block_overflows) (simp_all add: get4_def get_sint_def numeral_eq_Suc)

end
