(* ===== verification/Parse_Vpt.thy ===== *)
theory Parse_Vpt
  imports Prelude "HOL-Library.Monad_Syntax"
begin

text \<open>
  The virtual parse tree of the traffic parser: the structures \<open>Node\<close>, \<open>PatState\<close>,
  \<open>StackNode\<close> and \<open>VPT\<close> of src/parse/parse.h, \<open>PatNode\<close> of src/parse/pattern.h, and the
  operations of src/parse/node.cc. Every protocol scanner reports what it reads as pushes and
  pops of typed nodes; the tree is built under the node on top of the stack, patterns are
  advanced beside it, and match functions are called when a pattern is complete.

  Nodes are allocated in order and never freed: \<open>nodes\<close> is the heap, a node its position in
  it. Patterns are fixed once they are made, so they are a parameter \<open>P\<close>, and so is \<open>match\<close>,
  the result of calling a match function on a node of the tree. No match function of the
  repository touches the tree (\<open>MatchCvpp\<close>, \<open>MatchDnsAnswer1\<close>, \<open>MatchDnsAnswer2\<close>, \<open>Failure\<close>);
  their calls are recorded in \<open>calls\<close>. \<open>vs\<close> is listed from the tail of the C list, the
  innermost frame first. An operation that dereferences a null pointer returns \<open>None\<close>.
\<close>

section \<open>Data\<close>

datatype node_kind =
    Root | LangHttp | LangJson | LangHtml | ConnTls | ConnHost
  | HttpRequest | HttpHead | HttpResponse | HttpConnHost
  | HttpMethod | HttpUri | HttpProtocol | HttpHeader | HttpHeaderName | HttpHeaderValue
  | HtmlTag | HtmlText | HtmlAttr | HtmlVal
  | JsonObject | JsonField | JsonArray | JsonString | JsonNumber | JsonNull | JsonFalse
  | JsonTrue | JsonNaN | JsonInfinity
  | DnsPacket | DnsQuestion | DnsAnswer | DnsAuthority | DnsAdditional
  | DnsRrA | DnsRrAAAA | DnsRrCname | DnsName | DnsAddr
  | FileTypePe | FileTypeUnknown

type_synonym node_ptr = nat
type_synonym pat_ptr = nat
type_synonym match_ptr = nat

record vpt_node =
  node_type :: node_kind
  node_text :: string
  node_data :: "u8 list"
  node_children :: "node_ptr list"

record pat_node =
  pat_parent :: "pat_ptr option"
  pat_type :: node_kind
  pat_text :: string
  pat_head :: "pat_ptr option"
  pat_next :: "pat_ptr option"
  onMatch :: "match_ptr option"
  onFailure :: "match_ptr option"
  pat_up :: int
  pat_skip :: bool
  pat_once :: bool

record pat_state =
  ps_node :: pat_ptr
  nextChild :: "pat_ptr option"

datatype match_result = MatchContinue | MatchFinished | MatchFail

record stack_node =
  sn_node :: "node_ptr option"
  active :: "pat_state list"
  sn_consumer :: "nat option"
  onMatchList :: "match_ptr list"

record vpt =
  nodes :: "vpt_node list"
  patRoots :: "pat_ptr list"
  vptErrorOcccurred :: bool
  barriers :: "int list"
  topBarrier :: int
  vs :: "stack_node list"
  vt :: stack_node
  calls :: "(match_ptr \<times> node_ptr) list"

type_synonym patterns = "pat_ptr \<Rightarrow> pat_node"
type_synonym match_fun = "match_ptr \<Rightarrow> vpt_node list \<Rightarrow> node_ptr \<Rightarrow> match_result"

definition new_node :: "node_kind \<Rightarrow> vpt_node" where
  "new_node ty = \<lparr>node_type = ty, node_text = [], node_data = [], node_children = []\<rparr>"

definition new_stack_node :: "node_ptr option \<Rightarrow> stack_node" where
  "new_stack_node n = \<lparr>sn_node = n, active = [], sn_consumer = None, onMatchList = []\<rparr>"

definition new_pat :: "pat_ptr option \<Rightarrow> node_kind \<Rightarrow> pat_node" where
  "new_pat parent ty = \<lparr>pat_parent = parent, pat_type = ty, pat_text = [], pat_head = None,
     pat_next = None, onMatch = None, onFailure = None, pat_up = 0, pat_skip = False,
     pat_once = False\<rparr>"

text \<open>The constructor does not set \<open>topBarrier\<close>: its first value is whatever the memory held,
  the argument \<open>garbage\<close>.\<close>

definition VPT_new :: "int \<Rightarrow> vpt" where
  "VPT_new garbage = \<lparr>nodes = [new_node Root], patRoots = [], vptErrorOcccurred = False,
     barriers = [], topBarrier = garbage, vs = [new_stack_node None],
     vt = new_stack_node (Some 0), calls = []\<rparr>"

definition addPat :: "pat_ptr \<Rightarrow> vpt \<Rightarrow> vpt" where
  "addPat p v = v\<lparr>patRoots := patRoots v @ [p]\<rparr>"

definition VPT_depth :: "vpt \<Rightarrow> nat" where
  "VPT_depth v = length (vs v)"

abbreviation upd_node :: "node_ptr \<Rightarrow> (vpt_node \<Rightarrow> vpt_node) \<Rightarrow> vpt_node list \<Rightarrow> vpt_node list" where
  "upd_node n f ns \<equiv> ns[n := f (ns ! n)]"

section \<open>Pushing a node\<close>

text \<open>The first loop of \<open>push\<close>: what the states of the parent become, the states the new node
  starts with, and the failure functions called. A state that fails without a failure function
  is a call through a null pointer: the test \<open>if (... onFailure);\<close> has an empty body.\<close>

fun push_advance :: "patterns \<Rightarrow> node_kind \<Rightarrow> pat_state list
    \<Rightarrow> (pat_state list \<times> pat_state list \<times> match_ptr list) option" where
  "push_advance P ty [] = Some ([], [], [])"
| "push_advance P ty (s # ss) = (case nextChild s of
     None \<Rightarrow> map_option (\<lambda>(keep, new, fails). (s # keep, new, fails)) (push_advance P ty ss)
   | Some c \<Rightarrow>
       if pat_type (P c) = ty then
         map_option (\<lambda>(keep, new, fails).
           (if pat_skip (P c) then s # keep else keep,
            \<lparr>ps_node = c, nextChild = pat_head (P c)\<rparr> # new, fails)) (push_advance P ty ss)
       else if pat_skip (P c) then
         map_option (\<lambda>(keep, new, fails). (s # keep, new, fails)) (push_advance P ty ss)
       else (case onFailure (P (ps_node s)) of
         None \<Rightarrow> None
       | Some f \<Rightarrow>
           map_option (\<lambda>(keep, new, fails). (keep, new, f # fails)) (push_advance P ty ss)))"

text \<open>The second loop: the root patterns of the type of the new node, and the root patterns
  that remain.\<close>

fun push_roots :: "patterns \<Rightarrow> node_kind \<Rightarrow> pat_ptr list \<Rightarrow> pat_ptr list \<times> pat_state list" where
  "push_roots P ty [] = ([], [])"
| "push_roots P ty (p # ps) = (let (keep, new) = push_roots P ty ps in
     if pat_type (P p) = ty
     then (if pat_once (P p) then keep else p # keep,
           \<lparr>ps_node = p, nextChild = pat_head (P p)\<rparr> # new)
     else (p # keep, new))"

definition VPT_push :: "patterns \<Rightarrow> node_kind \<Rightarrow> vpt \<Rightarrow> vpt option" where
  "VPT_push P ty v = (case sn_node (vt v) of
     None \<Rightarrow> None
   | Some parent \<Rightarrow> (case push_advance P ty (active (vt v)) of
       None \<Rightarrow> None
     | Some (keep, new, fails) \<Rightarrow>
         let node = length (nodes v);
             (roots, started) = push_roots P ty (patRoots v)
         in Some (v\<lparr>
              nodes := upd_node parent (\<lambda>n. n\<lparr>node_children := node_children n @ [node]\<rparr>) (nodes v)
                @ [new_node ty],
              vs := (vt v)\<lparr>active := keep\<rparr> # vs v,
              vt := (new_stack_node (Some node))\<lparr>active := new @ started\<rparr>,
              patRoots := roots,
              topBarrier := topBarrier v + 1,
              calls := calls v @ map (\<lambda>f. (f, node)) fails\<rparr>)))"

section \<open>Popping a node\<close>

text \<open>Where the match function of a complete pattern is put: on the frame that \<open>up\<close> names,
  counted from the node popped, unless the stack is not as deep.\<close>

definition add_match :: "match_ptr \<Rightarrow> stack_node \<Rightarrow> stack_node" where
  "add_match m sn = sn\<lparr>onMatchList := onMatchList sn @ [m]\<rparr>"

definition collect_match :: "int \<Rightarrow> match_ptr \<Rightarrow> stack_node \<times> stack_node list
    \<Rightarrow> stack_node \<times> stack_node list" where
  "collect_match up m = (\<lambda>(t, s).
     if 0 < up then (t, if nat (up - 1) < length s
                        then s[nat (up - 1) := add_match m (s ! nat (up - 1))] else s)
     else (add_match m t, s))"

fun pop_collect :: "patterns \<Rightarrow> pat_state list \<Rightarrow> stack_node \<times> stack_node list
    \<Rightarrow> stack_node \<times> stack_node list" where
  "pop_collect P [] st = st"
| "pop_collect P (s # ss) st = pop_collect P ss
     (if nextChild s = None
      then (case onMatch (P (ps_node s)) of
              None \<Rightarrow> st
            | Some m \<Rightarrow> collect_match (pat_up (P (ps_node s))) m st)
      else st)"

text \<open>The states dropped when the match function \<open>m\<close> did not ask to continue.\<close>

fun drop_matched :: "patterns \<Rightarrow> match_ptr \<Rightarrow> match_result \<Rightarrow> pat_state list
    \<Rightarrow> pat_state list \<times> match_ptr list" where
  "drop_matched P m r [] = ([], [])"
| "drop_matched P m r (s # ss) = (let (keep, fails) = drop_matched P m r ss in
     if onMatch (P (ps_node s)) = Some m
     then (keep, case onFailure (P (ps_node s)) of
                   None \<Rightarrow> fails
                 | Some f \<Rightarrow> if r = MatchFail then f # fails else fails)
     else (s # keep, fails))"

fun pop_execute :: "match_fun \<Rightarrow> patterns \<Rightarrow> vpt_node list \<Rightarrow> node_ptr \<Rightarrow> match_ptr list
    \<Rightarrow> pat_state list \<Rightarrow> pat_state list \<times> match_ptr list" where
  "pop_execute match P ns n [] act = (act, [])"
| "pop_execute match P ns n (m # ms) act =
     (let r = match m ns n;
          (act', fails) = (if r \<noteq> MatchContinue then drop_matched P m r act else (act, []));
          (act'', called) = pop_execute match P ns n ms act'
      in (act'', m # fails @ called))"

fun pop_move_up :: "patterns \<Rightarrow> pat_state list \<Rightarrow> stack_node \<Rightarrow> stack_node" where
  "pop_move_up P [] sn = sn"
| "pop_move_up P (s # ss) sn = pop_move_up P ss
     (case pat_parent (P (ps_node s)) of
        None \<Rightarrow> sn
      | Some q \<Rightarrow> sn\<lparr>active := active sn
                       @ [\<lparr>ps_node = q, nextChild = pat_next (P (ps_node s))\<rparr>]\<rparr>)"

definition VPT_pop :: "match_fun \<Rightarrow> patterns \<Rightarrow> node_kind \<Rightarrow> vpt \<Rightarrow> (bool \<times> vpt) option" where
  "VPT_pop match P ty v = (case sn_node (vt v) of
     None \<Rightarrow> None
   | Some n \<Rightarrow>
       if node_type (nodes v ! n) \<noteq> ty then Some (False, v\<lparr>vptErrorOcccurred := True\<rparr>)
       else if topBarrier v = 0 then Some (False, v\<lparr>vptErrorOcccurred := True\<rparr>)
       else
         let (t, s) = pop_collect P (active (vt v)) (vt v, vs v);
             (act, called) = pop_execute match P (nodes v) n (onMatchList t) (active t)
         in (case s of
               [] \<Rightarrow> None
             | p # s' \<Rightarrow> Some (True, v\<lparr>vt := pop_move_up P act p, vs := s',
                 topBarrier := topBarrier v - 1,
                 calls := calls v @ map (\<lambda>m. (m, n)) called\<rparr>)))"

section \<open>Text, data and consumers\<close>

definition last_child_is :: "node_kind \<Rightarrow> node_ptr \<Rightarrow> vpt_node list \<Rightarrow> bool" where
  "last_child_is ty n ns \<longleftrightarrow> node_children (ns ! n) \<noteq> []
     \<and> node_type (ns ! last (node_children (ns ! n))) = ty"

text \<open>The node that takes the text: the last child when it has the type, or a new one.\<close>

definition append_target :: "match_fun \<Rightarrow> patterns \<Rightarrow> node_kind \<Rightarrow> vpt \<Rightarrow> vpt option" where
  "append_target match P ty v = (case sn_node (vt v) of
     None \<Rightarrow> None
   | Some n \<Rightarrow>
       if last_child_is ty n (nodes v) then Some v
       else do { w \<leftarrow> VPT_push P ty v; (_, w') \<leftarrow> VPT_pop match P ty w; Some w' })"

definition append_to_tail :: "string \<Rightarrow> vpt \<Rightarrow> vpt option" where
  "append_to_tail str v = (case sn_node (vt v) of
     None \<Rightarrow> None
   | Some n \<Rightarrow>
       if node_children (nodes v ! n) = [] then None
       else Some (v\<lparr>nodes := upd_node (last (node_children (nodes v ! n)))
                       (\<lambda>x. x\<lparr>node_text := node_text x @ str\<rparr>) (nodes v)\<rparr>))"

definition VPT_appendText :: "match_fun \<Rightarrow> patterns \<Rightarrow> node_kind \<Rightarrow> string \<Rightarrow> vpt \<Rightarrow> vpt option" where
  "VPT_appendText match P ty str v = append_target match P ty v \<bind> append_to_tail str"

definition VPT_appendChar :: "match_fun \<Rightarrow> patterns \<Rightarrow> node_kind \<Rightarrow> char \<Rightarrow> vpt \<Rightarrow> vpt option" where
  "VPT_appendChar match P ty ch v = append_target match P ty v \<bind> append_to_tail [ch]"

definition VPT_setData :: "u8 list \<Rightarrow> vpt \<Rightarrow> vpt option" where
  "VPT_setData bytes v = map_option (\<lambda>n.
     v\<lparr>nodes := upd_node n (\<lambda>x. x\<lparr>node_data := bytes\<rparr>) (nodes v)\<rparr>) (sn_node (vt v))"

text \<open>The loop of \<open>setText\<close>: the states whose text differs are dropped.\<close>

fun text_filter :: "patterns \<Rightarrow> string \<Rightarrow> pat_state list \<Rightarrow> pat_state list \<times> match_ptr list" where
  "text_filter P str [] = ([], [])"
| "text_filter P str (s # ss) = (let (keep, fails) = text_filter P str ss in
     if pat_text (P (ps_node s)) \<noteq> [] \<and> pat_text (P (ps_node s)) \<noteq> str
     then (keep, case onFailure (P (ps_node s)) of None \<Rightarrow> fails | Some f \<Rightarrow> f # fails)
     else (s # keep, fails))"

definition VPT_setText :: "patterns \<Rightarrow> string \<Rightarrow> vpt \<Rightarrow> vpt option" where
  "VPT_setText P str v = map_option (\<lambda>n.
     let (keep, fails) = text_filter P str (active (vt v))
     in v\<lparr>nodes := upd_node n (\<lambda>x. x\<lparr>node_text := str\<rparr>) (nodes v),
          vt := (vt v)\<lparr>active := keep\<rparr>,
          calls := calls v @ map (\<lambda>f. (f, n)) fails\<rparr>) (sn_node (vt v))"

definition VPT_setConsumer :: "nat \<Rightarrow> vpt \<Rightarrow> vpt" where
  "VPT_setConsumer c v = v\<lparr>vt := (vt v)\<lparr>sn_consumer := Some c\<rparr>\<rparr>"

fun first_consumer :: "stack_node list \<Rightarrow> nat option" where
  "first_consumer [] = None"
| "first_consumer (sn # s) = (case sn_consumer sn of None \<Rightarrow> first_consumer s | Some c \<Rightarrow> Some c)"

definition VPT_getConsumer :: "vpt \<Rightarrow> nat option" where
  "VPT_getConsumer v = (case sn_consumer (vt v) of None \<Rightarrow> first_consumer (vs v) | Some c \<Rightarrow> Some c)"

text \<open>\<open>up\<close> walks the frames without a test for their end: beyond the stack it faults. The inner
  value is the node pointer, which may be null.\<close>

definition VPT_up :: "int \<Rightarrow> vpt \<Rightarrow> node_ptr option option" where
  "VPT_up n v =
     (if n < 0 then Some None
      else if n = 0 then Some (sn_node (vt v))
      else if nat (n - 1) < length (vs v) then Some (sn_node (vs v ! nat (n - 1)))
      else None)"

section \<open>Looking a node up\<close>

fun find_type :: "vpt_node list \<Rightarrow> node_kind \<Rightarrow> node_ptr list \<Rightarrow> node_ptr option" where
  "find_type ns ty [] = None"
| "find_type ns ty (c # cs) = (if node_type (ns ! c) = ty then Some c else find_type ns ty cs)"

definition findChild :: "vpt_node list \<Rightarrow> node_ptr \<Rightarrow> node_kind \<Rightarrow> node_ptr option" where
  "findChild ns n ty = find_type ns ty (node_children (ns ! n))"

text \<open>\<open>Node::obj\<close> and \<open>Node::arr\<close> give \<open>Node::null\<close>, here \<open>None\<close>, when there is nothing to
  give; a field without a value gives a null pointer, the inner \<open>None\<close> of \<open>obj\<close>.\<close>

fun find_field :: "vpt_node list \<Rightarrow> string \<Rightarrow> node_ptr list \<Rightarrow> node_ptr option option" where
  "find_field ns key [] = None"
| "find_field ns key (c # cs) =
     (if node_type (ns ! c) = JsonField \<and> node_text (ns ! c) = key
      then Some (case node_children (ns ! c) of [] \<Rightarrow> None | d # _ \<Rightarrow> Some d)
      else find_field ns key cs)"

definition Node_obj :: "vpt_node list \<Rightarrow> node_ptr \<Rightarrow> string \<Rightarrow> node_ptr option option" where
  "Node_obj ns n key =
     (if node_type (ns ! n) = JsonObject then find_field ns key (node_children (ns ! n)) else None)"

fun arr_walk :: "int \<Rightarrow> int \<Rightarrow> node_ptr list \<Rightarrow> node_ptr option" where
  "arr_walk cn i [] = None"
| "arr_walk cn i (c # cs) = (if cn = i then Some c else arr_walk (cn + 1) i cs)"

definition Node_arr :: "vpt_node list \<Rightarrow> node_ptr \<Rightarrow> int \<Rightarrow> node_ptr option" where
  "Node_arr ns n i =
     (if node_type (ns ! n) = JsonArray then arr_walk 0 i (node_children (ns ! n)) else None)"

section \<open>What the stack does\<close>

text \<open>The nodes of the frames, from the innermost: matching changes what the frames carry but
  never the nodes they stand for.\<close>

definition stack_nodes :: "vpt \<Rightarrow> node_ptr option list" where
  "stack_nodes v = map sn_node (vt v # vs v)"

lemma collect_match_nodes:
  "sn_node (fst (collect_match up m st)) = sn_node (fst st)
   \<and> map sn_node (snd (collect_match up m st)) = map sn_node (snd st)"
proof (cases st)
  case (Pair t s)
  have "map sn_node (s[i := add_match m (s ! i)]) = map sn_node s" for i
    by (cases "i < length s")
      (auto simp: list_eq_iff_nth_eq nth_list_update add_match_def)
  with Pair show ?thesis by (simp add: collect_match_def add_match_def)
qed

lemma pop_collect_nodes:
  "sn_node (fst (pop_collect P ss st)) = sn_node (fst st)
   \<and> map sn_node (snd (pop_collect P ss st)) = map sn_node (snd st)"
  by (induction ss arbitrary: st) (auto simp: collect_match_nodes split: option.split)

lemma pop_move_up_node [simp]: "sn_node (pop_move_up P ss sn) = sn_node sn"
  by (induction ss arbitrary: sn) (auto split: option.split)

text \<open>The three outcomes of a pop.\<close>

lemma VPT_pop_cases:
  assumes "VPT_pop match P ty v = Some (ok, v')"
  obtains (failed) "\<not> ok" "v' = v\<lparr>vptErrorOcccurred := True\<rparr>"
      "\<And>n. sn_node (vt v) = Some n \<Longrightarrow> node_type (nodes v ! n) \<noteq> ty \<or> topBarrier v = 0"
  | (popped) n where "ok" "sn_node (vt v) = Some n" "node_type (nodes v ! n) = ty" "topBarrier v \<noteq> 0"
      "stack_nodes v = Some n # stack_nodes v'" "topBarrier v' = topBarrier v - 1"
      "nodes v' = nodes v" "barriers v' = barriers v" "patRoots v' = patRoots v"
      "vptErrorOcccurred v' = vptErrorOcccurred v"
proof (cases ok)
  case False
  with assms show ?thesis
    by (intro failed) (auto simp: VPT_pop_def split: option.splits if_splits prod.splits list.splits)
next
  case True
  with assms obtain n t s act called p s' where n: "sn_node (vt v) = Some n"
      "node_type (nodes v ! n) = ty" "topBarrier v \<noteq> 0"
    and c: "pop_collect P (active (vt v)) (vt v, vs v) = (t, p # s')"
    and v': "v' = v\<lparr>vt := pop_move_up P act p, vs := s', topBarrier := topBarrier v - 1,
               calls := calls v @ map (\<lambda>m. (m, n)) called\<rparr>"
    by (auto simp: VPT_pop_def split: option.splits if_splits prod.splits list.splits)
  have "map sn_node (vs v) = sn_node p # map sn_node s'"
    using pop_collect_nodes [of P "active (vt v)" "(vt v, vs v)"] c by simp
  then show ?thesis
    using n v' True by (intro popped) (auto simp: stack_nodes_def)
qed

lemma VPT_pop_ok:
  assumes "sn_node (vt v) = Some n" "node_type (nodes v ! n) = ty" "topBarrier v \<noteq> 0" "vs v \<noteq> []"
  shows "\<exists>v'. VPT_pop match P ty v = Some (True, v')"
proof -
  obtain t s where c: "pop_collect P (active (vt v)) (vt v, vs v) = (t, s)"
    by (cases "pop_collect P (active (vt v)) (vt v, vs v)")
  moreover have "s \<noteq> []"
    using pop_collect_nodes [of P "active (vt v)" "(vt v, vs v)"] c assms(4) by auto
  ultimately show ?thesis
    using assms(1-3) by (auto simp: VPT_pop_def split: prod.splits list.splits)
qed

section \<open>Barriers\<close>

definition VPT_pushBarrier :: "vpt \<Rightarrow> vpt" where
  "VPT_pushBarrier v = v\<lparr>barriers := barriers v @ [topBarrier v], topBarrier := 0\<rparr>"

text \<open>The loop of \<open>popBarrier\<close>.\<close>

function clear_barrier :: "match_fun \<Rightarrow> patterns \<Rightarrow> vpt \<Rightarrow> vpt option" where
  "clear_barrier match P v =
     (if 0 < topBarrier v
      then (case sn_node (vt v) of
              None \<Rightarrow> None
            | Some n \<Rightarrow> (case VPT_pop match P (node_type (nodes v ! n)) v of
                None \<Rightarrow> None
              | Some (_, v') \<Rightarrow> clear_barrier match P v'))
      else Some v)"
  by pat_completeness auto
termination
  by (relation "measure (\<lambda>(_, _, v). nat (topBarrier v))") (auto elim!: VPT_pop_cases)

declare clear_barrier.simps [simp del]

text \<open>\<open>vremove\<close> is the \<open>remove\<close> of aapl's \<open>Vector\<close>: \<open>vremove xs pos len\<close> deletes \<open>len\<close>
  elements from position \<open>pos\<close> on. The code asks it to delete none.\<close>

definition VPT_popBarrier :: "(int list \<Rightarrow> nat \<Rightarrow> nat \<Rightarrow> int list) \<Rightarrow> match_fun \<Rightarrow> patterns \<Rightarrow> vpt
    \<Rightarrow> vpt option" where
  "VPT_popBarrier vremove match P v =
     (if barriers v = [] then Some v
      else map_option (\<lambda>w. w\<lparr>topBarrier := last (barriers w),
             barriers := vremove (barriers w) (length (barriers w) - 1) 0\<rparr>)
           (if 0 < topBarrier v then clear_barrier match P v else Some v))"

end
