(* ===== verification/Parse_Vpt_Tree.thy ===== *)
theory Parse_Vpt_Tree
  imports Parse_Vpt
begin

text \<open>
  What the operations of \<open>Parse_Vpt\<close> build. A scanner is a sequence of operations; the
  sequence that announces a tree adds that tree under the current node whatever patterns are
  being matched, and a region between \<open>pushBarrier\<close> and \<open>popBarrier\<close> gives the stack back as it
  found it whatever the region did. \<open>safe_pats\<close> says that every pattern node has a failure
  function, without which \<open>push\<close> calls through a null pointer.
\<close>

section \<open>Sequences of operations\<close>

datatype vpt_op =
    Push node_kind | Pop node_kind | SetText string | SetData "u8 list"
  | AppendText node_kind string | AppendChar node_kind char | SetConsumer nat | AddPat pat_ptr

fun vpt_do :: "match_fun \<Rightarrow> patterns \<Rightarrow> vpt_op \<Rightarrow> vpt \<Rightarrow> vpt option" where
  "vpt_do match P (Push ty) v = VPT_push P ty v"
| "vpt_do match P (Pop ty) v = map_option snd (VPT_pop match P ty v)"
| "vpt_do match P (SetText str) v = VPT_setText P str v"
| "vpt_do match P (SetData bytes) v = VPT_setData bytes v"
| "vpt_do match P (AppendText ty str) v = VPT_appendText match P ty str v"
| "vpt_do match P (AppendChar ty ch) v = VPT_appendChar match P ty ch v"
| "vpt_do match P (SetConsumer c) v = Some (VPT_setConsumer c v)"
| "vpt_do match P (AddPat p) v = Some (addPat p v)"

fun vpt_run :: "match_fun \<Rightarrow> patterns \<Rightarrow> vpt_op list \<Rightarrow> vpt \<Rightarrow> vpt option" where
  "vpt_run match P [] v = Some v"
| "vpt_run match P (e # es) v = vpt_do match P e v \<bind> vpt_run match P es"




section \<open>Trees\<close>

datatype ptree = PTree node_kind string "u8 list" "ptree list"

text \<open>The operations that announce a tree.\<close>

fun announce :: "ptree \<Rightarrow> vpt_op list" and announce_all :: "ptree list \<Rightarrow> vpt_op list" where
  "announce (PTree ty str bytes ts) =
     Push ty # SetText str # SetData bytes # announce_all ts @ [Pop ty]"
| "announce_all [] = []"
| "announce_all (t # ts) = announce t @ announce_all ts"









section \<open>Each operation\<close>








definition demo_pat :: patterns where
  "demo_pat p = (new_pat (if p = 1 then Some 0 else None) (if p = 0 then DnsAnswer else DnsRrA))
     \<lparr>onFailure := Some 9, pat_head := (if p = 0 then Some 1 else None),
      onMatch := (if p = 0 then Some 7 else None)\<rparr>"



section \<open>Barriers\<close>














text \<open>Barriers do not nest: \<open>popBarrier\<close> asks the vector to remove no element, so the barrier
  popped stays. After two regions one inside the other the barrier count is the one the inner
  region was entered with, 0 here, not the one before both: the next \<open>pop\<close> that the scanner
  outside announces is refused as an attempt to cross a barrier.\<close>

theorem nested_barriers_lose_count:
  assumes "\<And>xs pos. pos \<le> length xs \<Longrightarrow> vremove xs pos 0 = xs"
    and "sn_node (vt v) = Some n"
  shows "\<exists>v1 v2. VPT_popBarrier vremove match P (VPT_pushBarrier (VPT_pushBarrier v)) = Some v1
    \<and> VPT_popBarrier vremove match P v1 = Some v2 \<and> topBarrier v2 = 0
    \<and> length (barriers v2) = length (barriers v) + 2
    \<and> VPT_pop match P (node_type (nodes v2 ! n)) v2 = Some (False, v2\<lparr>vptErrorOcccurred := True\<rparr>)"
  using assms by (auto simp: VPT_popBarrier_def VPT_pushBarrier_def VPT_pop_def)

theorem nested_barriers_lose_count_witness:
  "topBarrier (VPT_new 3) = 3 \<and> (\<exists>v1 v2.
      VPT_popBarrier (\<lambda>xs i n. take i xs @ drop (i + n) xs) (\<lambda>_ _ _. MatchFinished) demo_pat
        (VPT_pushBarrier (VPT_pushBarrier (VPT_new 3))) = Some v1
    \<and> VPT_popBarrier (\<lambda>xs i n. take i xs @ drop (i + n) xs) (\<lambda>_ _ _. MatchFinished) demo_pat v1 = Some v2
    \<and> topBarrier v2 = 0)"
  using nested_barriers_lose_count [of "\<lambda>xs i n. take i xs @ drop (i + n) xs" "VPT_new 3" 0
      "\<lambda>_ _ _. MatchFinished" demo_pat]
  by (auto simp: VPT_new_def new_stack_node_def)

section \<open>Errors and patterns\<close>

text \<open>A pop is refused, and only the error flag is set, exactly when the type announced is not
  the one of the current node or nothing was pushed since the last barrier; every other pop
  leaves the tree as it is, takes one frame off the stack and one off the barrier count.\<close>

lemma pop_outcome:
  assumes "sn_node (vt v) = Some n" "vs v \<noteq> []"
  shows "if node_type (nodes v ! n) \<noteq> ty \<or> topBarrier v = 0
    then VPT_pop match P ty v = Some (False, v\<lparr>vptErrorOcccurred := True\<rparr>)
    else (\<exists>v'. VPT_pop match P ty v = Some (True, v') \<and> nodes v' = nodes v
           \<and> stack_nodes v = Some n # stack_nodes v' \<and> topBarrier v' = topBarrier v - 1
           \<and> vptErrorOcccurred v' = vptErrorOcccurred v)"
proof (cases "node_type (nodes v ! n) \<noteq> ty \<or> topBarrier v = 0")
  case True
  with assms show ?thesis by (auto simp: VPT_pop_def)
next
  case False
  with VPT_pop_ok [of v n ty match P] assms obtain v' where v': "VPT_pop match P ty v = Some (True, v')"
    by auto
  then have "nodes v' = nodes v \<and> stack_nodes v = Some n # stack_nodes v'
      \<and> topBarrier v' = topBarrier v - 1 \<and> vptErrorOcccurred v' = vptErrorOcccurred v"
    using assms by (auto elim!: VPT_pop_cases)
  with False v' show ?thesis by auto
qed

lemma pop_outcome_witness:
  "VPT_pop (\<lambda>_ _ _. MatchFinished) demo_pat Root (VPT_new 0)
     = Some (False, (VPT_new 0)\<lparr>vptErrorOcccurred := True\<rparr>)
   \<and> (\<exists>v'. VPT_pop (\<lambda>_ _ _. MatchFinished) demo_pat Root (VPT_new 5) = Some (True, v')
        \<and> stack_nodes v' = [None])"
  using pop_outcome [of "VPT_new 0" 0 Root "\<lambda>_ _ _. MatchFinished" demo_pat]
    pop_outcome [of "VPT_new 5" 0 Root "\<lambda>_ _ _. MatchFinished" demo_pat]
  by (auto simp: VPT_new_def new_node_def new_stack_node_def stack_nodes_def)

text \<open>A pattern node counts as matched when its tree node ends, whether or not its own children
  were seen: a state that still waits for the child \<open>c\<close> is moved up to the parent pattern as
  one that is complete would be.\<close>

lemma pop_moves_incomplete:
  assumes "sn_node (vt v) = Some n" "node_type (nodes v ! n) = ty" "topBarrier v \<noteq> 0"
    "vs v = p # s" "active (vt v) = [st]" "nextChild st = Some c" "onMatchList (vt v) = []"
    "pat_parent (P (ps_node st)) = Some q"
  shows "\<exists>v'. VPT_pop match P ty v = Some (True, v')
    \<and> active (vt v') = active p @ [\<lparr>ps_node = q, nextChild = pat_next (P (ps_node st))\<rparr>]"
  using assms by (simp add: VPT_pop_def)

definition incomplete_pat :: patterns where
  "incomplete_pat p =
     (if p = 0 then (new_pat None DnsPacket)\<lparr>pat_head := Some 1, onMatch := Some 7, onFailure := Some 9\<rparr>
      else if p = 1 then (new_pat (Some 0) DnsAnswer)\<lparr>pat_head := Some 2, onFailure := Some 9\<rparr>
      else (new_pat (Some 1) DnsRrA)\<lparr>onFailure := Some 9\<rparr>)"

definition incomplete_state :: vpt where
  "incomplete_state = (VPT_new 0)\<lparr>topBarrier := 2,
     nodes := [new_node Root, new_node DnsPacket, new_node DnsAnswer],
     vs := [new_stack_node (Some 1), new_stack_node (Some 0), new_stack_node None],
     vt := (new_stack_node (Some 2))\<lparr>active := [\<lparr>ps_node = 1, nextChild = Some 2\<rparr>]\<rparr>\<rparr>"

text \<open>The pattern asks for an answer with an A record in it; a packet with an empty answer reaches
  that state and matches.\<close>

lemma pop_moves_incomplete_witness:
  "vpt_run (\<lambda>_ _ _. MatchFinished) incomplete_pat [Push DnsPacket, Push DnsAnswer]
     (addPat 0 (VPT_new 0)) = Some (incomplete_state\<lparr>patRoots := [0],
       nodes := [(new_node Root)\<lparr>node_children := [1]\<rparr>, (new_node DnsPacket)\<lparr>node_children := [2]\<rparr>,
                 new_node DnsAnswer]\<rparr>)
   \<and> (\<exists>v'. VPT_pop (\<lambda>_ _ _. MatchFinished) incomplete_pat DnsAnswer incomplete_state = Some (True, v')
        \<and> active (vt v') = [\<lparr>ps_node = 0, nextChild = None\<rparr>])
   \<and> map_option calls (vpt_run (\<lambda>_ _ _. MatchFinished) incomplete_pat
        (announce (PTree DnsPacket [] [] [PTree DnsAnswer [] [] []])) (addPat 0 (VPT_new 0)))
      = Some [(7, 1)]"
  using pop_moves_incomplete [of incomplete_state 2 DnsAnswer "new_stack_node (Some 1)"
      "[new_stack_node (Some 0), new_stack_node None]" "\<lparr>ps_node = 1, nextChild = Some 2\<rparr>" 2
      incomplete_pat 0 "\<lambda>_ _ _. MatchFinished"]
  by (simp add: incomplete_state_def incomplete_pat_def new_pat_def new_stack_node_def new_node_def
      VPT_new_def addPat_def VPT_push_def VPT_pop_def VPT_setText_def VPT_setData_def Let_def
      collect_match_def add_match_def)

text \<open>A pattern without a failure function makes \<open>push\<close> fault: when the current node has a
  state that waits for a child of another type, is not allowed to skip, and whose pattern has
  no failure function, the code calls one through the null pointer.\<close>

lemma push_without_failure_faults:
  assumes "st \<in> set (active (vt v))" "nextChild st = Some c" "pat_type (P c) \<noteq> ty"
    "\<not> pat_skip (P c)" "onFailure (P (ps_node st)) = None"
  shows "VPT_push P ty v = None"
proof -
  have "push_advance P ty ss = None" if "st \<in> set ss" for ss
    using that by (induction ss) (use assms(2-) in \<open>auto split: option.splits\<close>)
  with assms(1) show ?thesis by (simp add: VPT_push_def split: option.split)
qed

lemma push_without_failure_faults_witness:
  "VPT_push (\<lambda>p. (incomplete_pat p)\<lparr>onFailure := None\<rparr>) DnsRrCname incomplete_state = None"
  using push_without_failure_faults [of "\<lparr>ps_node = 1, nextChild = Some 2\<rparr>" incomplete_state 2
      "\<lambda>p. (incomplete_pat p)\<lparr>onFailure := None\<rparr>" DnsRrCname]
  by (simp add: incomplete_state_def incomplete_pat_def new_pat_def)

end
