(* ===== verification/Parse_Pair.thy ===== *)
theory Parse_Pair
  imports Parse_Vpt
begin

text \<open>
  Request and response: the pairs of src/parse/node.cc. The parser of the requests makes a pair
  for every request (\<open>generatePair\<close>), a pattern found in the request may be put on it
  (\<open>pairPattern\<close>), and the parser of the responses takes one pair for every response
  (\<open>consumePair\<close>) and starts matching its pattern. \<open>reqv\<close> and \<open>rspv\<close> are the two \<open>VPT\<close>s;
  \<open>patTransfer\<close> is the heap of \<open>NodePair\<close>s, shared by \<open>pairSend\<close> of the one and \<open>pairRecv\<close> of
  the other; \<open>pair_id\<close> is the static counter. The constructor leaves \<open>pairSend\<close> unset, so its
  first value is an argument of \<open>pair_new\<close>.
\<close>

record vpt_pair =
  reqv :: vpt
  rspv :: vpt
  other_set :: bool
  pairSend :: "nat option"
  pairRecv :: "nat list"
  patTransfer :: "nat \<Rightarrow> pat_ptr option"
  pair_id :: nat

definition pair_new :: "nat option \<Rightarrow> (nat \<Rightarrow> pat_ptr option) \<Rightarrow> nat \<Rightarrow> vpt \<Rightarrow> vpt \<Rightarrow> vpt_pair" where
  "pair_new send mem i v w = \<lparr>reqv = v, rspv = w, other_set = True, pairSend = send,
     pairRecv = [], patTransfer = mem, pair_id = i\<rparr>"

definition generatePair :: "vpt_pair \<Rightarrow> vpt_pair" where
  "generatePair d =
     (if other_set d
      then d\<lparr>pairSend := Some (pair_id d), pairRecv := pairRecv d @ [pair_id d],
             patTransfer := (patTransfer d)(pair_id d := None), pair_id := pair_id d + 1\<rparr>
      else d)"

definition consumePair :: "vpt_pair \<Rightarrow> vpt_pair" where
  "consumePair d = (case pairRecv d of
     [] \<Rightarrow> d
   | p # ps \<Rightarrow> d\<lparr>pairRecv := ps,
       rspv := (case patTransfer d p of None \<Rightarrow> rspv d | Some q \<Rightarrow> addPat q (rspv d))\<rparr>)"

definition pairPattern :: "pat_ptr \<Rightarrow> vpt_pair \<Rightarrow> vpt_pair" where
  "pairPattern q d = (case pairSend d of
     None \<Rightarrow> d
   | Some p \<Rightarrow> d\<lparr>patTransfer := (patTransfer d)(p := Some q)\<rparr>)"

section \<open>The queue of requests without a response\<close>

datatype pair_event = Request | Pattern pat_ptr | Response

fun pair_step :: "pair_event \<Rightarrow> vpt_pair \<Rightarrow> vpt_pair" where
  "pair_step Request d = generatePair d"
| "pair_step (Pattern q) d = pairPattern q d"
| "pair_step Response d = consumePair d"

text \<open>The specification: the requests that wait, in order, each with the pattern it was given
  last, and the patterns the responses were told to match. A pattern goes to the newest request;
  it is lost when its response has already begun.\<close>

record pair_spec =
  waiting :: "pat_ptr option list"
  told :: "pat_ptr list"

fun spec_step :: "pair_event \<Rightarrow> pair_spec \<Rightarrow> pair_spec" where
  "spec_step Request s = s\<lparr>waiting := waiting s @ [None]\<rparr>"
| "spec_step (Pattern q) s =
     (if waiting s = [] then s else s\<lparr>waiting := butlast (waiting s) @ [Some q]\<rparr>)"
| "spec_step Response s = (case waiting s of
     [] \<Rightarrow> s
   | None # ws \<Rightarrow> s\<lparr>waiting := ws\<rparr>
   | Some q # ws \<Rightarrow> s\<lparr>waiting := ws, told := told s @ [q]\<rparr>)"

definition pair_abs :: "vpt_pair \<Rightarrow> pair_spec" where
  "pair_abs d = \<lparr>waiting = map (patTransfer d) (pairRecv d), told = patRoots (rspv d)\<rparr>"

definition pair_inv :: "vpt_pair \<Rightarrow> bool" where
  "pair_inv d \<longleftrightarrow> other_set d \<and> distinct (pairRecv d) \<and> (\<forall>p \<in> set (pairRecv d). p < pair_id d)
     \<and> (pairRecv d \<noteq> [] \<longrightarrow> pairSend d = Some (last (pairRecv d)))
     \<and> (pairRecv d = [] \<longrightarrow> (\<forall>p. pairSend d = Some p \<longrightarrow> p < pair_id d))"

lemma map_upd_last:
  assumes "distinct xs" "xs \<noteq> []"
  shows "map (f(last xs := y)) xs = butlast (map f xs) @ [y]"
  using assms by (cases xs rule: rev_cases) auto

lemma pair_step_refines:
  assumes "pair_inv d"
  shows "pair_inv (pair_step e d) \<and> pair_abs (pair_step e d) = spec_step e (pair_abs d)"
proof (cases e)
  case Request
  with assms show ?thesis
    by (auto simp: generatePair_def pair_inv_def pair_abs_def less_Suc_eq)
next
  case (Pattern q)
  show ?thesis
  proof (cases "pairRecv d = []")
    case True
    with Pattern assms show ?thesis
      by (auto simp: pairPattern_def pair_inv_def pair_abs_def split: option.split)
  next
    case False
    with assms have "pairSend d = Some (last (pairRecv d))" "distinct (pairRecv d)"
      by (auto simp: pair_inv_def)
    with False Pattern assms show ?thesis
      by (auto simp: pairPattern_def pair_inv_def pair_abs_def map_upd_last)
  qed
next
  case Response
  with assms show ?thesis
    by (cases "pairRecv d"; cases "patTransfer d (hd (pairRecv d))")
      (auto simp: consumePair_def pair_inv_def pair_abs_def addPat_def split: if_splits)
qed

lemma pair_run_refines:
  "pair_inv d \<Longrightarrow> pair_inv (fold pair_step es d)
     \<and> pair_abs (fold pair_step es d) = fold spec_step es (pair_abs d)"
  by (induction es arbitrary: d) (simp_all add: pair_step_refines)

text \<open>(C28) Every response is matched with the pattern of its own request: whatever requests,
  patterns and responses two connected parsers see, in any order, the pairs behave as one queue
  of waiting requests; the n-th response takes the pattern put last on the n-th request, and
  none when the request had none.\<close>

theorem pairs_refine_queue:
  assumes "\<forall>p. send = Some p \<longrightarrow> p < i" "patRoots w = []"
  shows "pair_abs (fold pair_step es (pair_new send mem i v w))
    = fold spec_step es \<lparr>waiting = [], told = []\<rparr>"
  using pair_run_refines [of "pair_new send mem i v w" es] assms
  by (simp add: pair_inv_def pair_abs_def pair_new_def)

theorem pairs_refine_queue_witness:
  "pair_abs (fold pair_step [Request, Pattern 4, Request, Request, Pattern 5, Response, Response, Response]
     (pair_new None (\<lambda>_. None) 0 (VPT_new 0) (VPT_new 0))) = \<lparr>waiting = [], told = [4, 5]\<rparr>"
  using pairs_refine_queue [of None 0 "VPT_new 0"
      "[Request, Pattern 4, Request, Request, Pattern 5, Response, Response, Response]" "\<lambda>_. None" "VPT_new 0"]
  by (simp add: VPT_new_def)

end
