(* ===== verification/Parse_Tcp.thy ===== *)
theory Parse_Tcp
  imports Shuttle
begin

text \<open>
  The TCP and UDP front of the traffic parser: src/parse/handler.cc, src/parse/tcp.cc,
  src/parse/udp.cc and the structures \<open>Packet\<close> (src/parse/packet.h), \<open>Half\<close>, \<open>Conn\<close>, \<open>CmpHalf\<close> and
  \<open>Handler\<close> (src/parse/parse.h).

  A connection is a position in \<open>conns\<close>, a half of it that position and which of the two. The
  set \<open>halfDict\<close> of aapl, ordered by \<open>CmpHalf\<close>, is a map from the four fields compared to the
  half inserted; an insert of a key that is there changes nothing. The protocol identifier and
  the HTTP parsers are generated by Ragel and not part of this theory: a half keeps the buffers
  given to its identifier and to its parser, and \<open>ident\<close> is a parameter, the protocol the
  identifier settles on after given buffers. \<open>srcProtected\<close> and \<open>dstProtected\<close> are parameters
  too, the filters that libpcap evaluates. The headers are read without a test of the captured
  length, so memory is a function that does not end with the packet.
\<close>

section \<open>Data\<close>

datatype packet_dir = Ingress | Egress | UnknownDir

definition reverse_dir :: "packet_dir \<Rightarrow> packet_dir" where
  "reverse_dir dir = (if dir = Ingress then Egress else if dir = Egress then Ingress else UnknownDir)"

datatype conn_stage = Syn | SynAck | Established
datatype proto_guess = Conn_Working | Conn_HTTP | Conn_Unknown
datatype ident_proto = Ident_Working | HTTP_REQ | HTTP_RSP | Ident_Unknown
datatype http_parser = HttpRequestParser | HttpResponseParser

text \<open>The two addresses and the two ports of a half, the fields of \<open>connection\<close>.\<close>

type_synonym half_id = connection

definition swapDir :: "half_id \<Rightarrow> half_id" where
  "swapDir k = connection (addr2 k) (addr1 k) (port2 k) (port1 k)"

record half =
  half_key :: half_id
  half_seq :: u32
  ident_in :: "u8 list list"
  half_parser :: "http_parser option"
  parser_in :: "u8 list list"

record conn =
  conn_h1 :: half
  conn_h2 :: half
  conn_dir :: packet_dir
  conn_state :: conn_stage
  conn_proto :: proto_guess

type_synonym half_ref = "nat \<times> bool"

text \<open>A packet: the memory of its TCP header with the place of the header in it, the memory and
  place of its data, the lengths, and the half it was found to belong to.\<close>

record packet =
  pk_dir :: packet_dir
  pk_ih :: "page \<times> nat"
  pk_th :: "page \<times> nat"
  pk_data :: "page \<times> nat"
  pk_dlen :: int
  pk_caplen :: int
  pk_half :: half_ref

record handler =
  halfDict :: "half_id \<rightharpoonup> half_ref"
  conns :: "conn list"
  continuation :: bool
  contPacket :: packet
  dns_in :: "u8 list list"

definition handler_new :: "packet \<Rightarrow> handler" where
  "handler_new garbage = \<lparr>halfDict = Map.empty, conns = [], continuation = False,
     contPacket = garbage, dns_in = []\<rparr>"

definition CmpHalf_compare :: "half_id \<Rightarrow> half_id \<Rightarrow> int" where
  "CmpHalf_compare h1 h2 =
     (if addr1 h1 < addr1 h2 then -1
      else if addr1 h1 > addr1 h2 then 1
      else if addr2 h1 < addr2 h2 then -1
      else if addr2 h1 > addr2 h2 then 1
      else if port1 h1 < port1 h2 then -1
      else if port1 h1 > port1 h2 then 1
      else if port2 h1 < port2 h2 then -1
      else if port2 h1 > port2 h2 then 1
      else 0)"

text \<open>The order of \<open>halfDict\<close>; the map is keyed by what the comparison tells apart.\<close>

interpretation halves: three_way CmpHalf_compare
  by unfold_locales (auto simp: CmpHalf_compare_def less_connection_def)

definition Half_new :: "half_id \<Rightarrow> half" where
  "Half_new k = \<lparr>half_key = k, half_seq = 0, ident_in = [], half_parser = None, parser_in = []\<rparr>"

text \<open>The constructor leaves \<open>dir\<close> and \<open>state\<close> to its caller.\<close>

definition Conn_new :: "half_id \<Rightarrow> packet_dir \<Rightarrow> conn_stage \<Rightarrow> conn" where
  "Conn_new k dir st = \<lparr>conn_h1 = Half_new k, conn_h2 = Half_new (swapDir k), conn_dir = dir,
     conn_state = st, conn_proto = Conn_Working\<rparr>"

section \<open>Reading the headers\<close>

definition be32 :: "page \<Rightarrow> nat \<Rightarrow> int" where
  "be32 m off = 65536 * be16 m off + be16 m (off + 2)"

definition th_seq :: "packet \<Rightarrow> u32" where
  "th_seq p = (case pk_th p of (m, off) \<Rightarrow> word_of_int (be32 m (off + 4)))"

definition th_ack_seq :: "packet \<Rightarrow> u32" where
  "th_ack_seq p = (case pk_th p of (m, off) \<Rightarrow> word_of_int (be32 m (off + 8)))"

definition tcp_flag :: "nat \<Rightarrow> packet \<Rightarrow> bool" where
  "tcp_flag i p = (case pk_th p of (m, off) \<Rightarrow> bit (m (off + 13)) i)"

definition synAckBits :: "packet \<Rightarrow> nat" where
  "synAckBits p = 2 * of_bool (tcp_flag 1 p) + of_bool (tcp_flag 4 p)"

definition SA_BITS_NONE :: nat where "SA_BITS_NONE = 0"
definition SA_BITS_ACK :: nat where "SA_BITS_ACK = 1"
definition SA_BITS_SYN :: nat where "SA_BITS_SYN = 2"
definition SA_BITS_SYN_ACK :: nat where "SA_BITS_SYN_ACK = 3"

lemmas sa_bits = SA_BITS_NONE_def SA_BITS_ACK_def SA_BITS_SYN_def SA_BITS_SYN_ACK_def

text \<open>The key of \<open>tcp\<close>: the addresses and ports as they are in the packet, in network order.\<close>

definition packet_key :: "packet \<Rightarrow> half_id" where
  "packet_key p = (case (pk_ih p, pk_th p) of ((mi, i), (mt, t)) \<Rightarrow>
     connection (word_of_int (get_uint 4 (i + 12) mi)) (word_of_int (get_uint 4 (i + 16) mi))
       (word_of_int (get_uint 2 t mt)) (word_of_int (get_uint 2 (t + 2) mt)))"

definition packet_bytes :: "packet \<Rightarrow> u8 list" where
  "packet_bytes p = (case pk_data p of (m, off) \<Rightarrow> get_bytes off (nat (pk_caplen p)) m)"

section \<open>New connections\<close>

text \<open>An insert into the set.\<close>

definition dict_insert :: "half_id \<Rightarrow> half_ref \<Rightarrow> (half_id \<rightharpoonup> half_ref) \<Rightarrow> (half_id \<rightharpoonup> half_ref)" where
  "dict_insert k r d = (if d k = None then d(k \<mapsto> r) else d)"

text \<open>\<open>established\<close> starts the identifiers of both halves: they have been given nothing.\<close>

definition Conn_established :: "conn \<Rightarrow> conn" where
  "Conn_established c = c\<lparr>conn_h1 := (conn_h1 c)\<lparr>ident_in := []\<rparr>, conn_h2 := (conn_h2 c)\<lparr>ident_in := []\<rparr>\<rparr>"

definition set_seqs :: "u32 \<Rightarrow> u32 \<Rightarrow> conn \<Rightarrow> conn" where
  "set_seqs a b c = c\<lparr>conn_h1 := (conn_h1 c)\<lparr>half_seq := a\<rparr>, conn_h2 := (conn_h2 c)\<lparr>half_seq := b\<rparr>\<rparr>"

definition createConnection :: "packet \<Rightarrow> half_id \<Rightarrow> handler \<Rightarrow> handler" where
  "createConnection p key s =
     (let c = (if synAckBits p = SA_BITS_SYN then
                 set_seqs (th_seq p) 0 (Conn_new key (pk_dir p) Syn)
               else if synAckBits p = SA_BITS_SYN_ACK then
                 set_seqs (th_ack_seq p) (th_seq p)
                   (Conn_new (swapDir key) (if pk_dir p = Ingress then Egress else Ingress) SynAck)
               else if synAckBits p = SA_BITS_ACK then
                 Conn_established (set_seqs (th_seq p) (th_ack_seq p)
                   (Conn_new (if pk_dir p = Ingress then swapDir key else key) (pk_dir p) Established))
               else
                 Conn_established (set_seqs (th_ack_seq p) (th_seq p)
                   (Conn_new (if pk_dir p = Ingress then swapDir key else key) UnknownDir Established)));
          n = length (conns s)
      in s\<lparr>conns := conns s @ [c],
           halfDict := dict_insert (half_key (conn_h2 c)) (n, True)
             (dict_insert (half_key (conn_h1 c)) (n, False) (halfDict s))\<rparr>)"

section \<open>Packets of a connection\<close>

abbreviation upd_conn :: "nat \<Rightarrow> (conn \<Rightarrow> conn) \<Rightarrow> handler \<Rightarrow> handler" where
  "upd_conn n f s \<equiv> s\<lparr>conns := (conns s)[n := f (conns s ! n)]\<rparr>"

definition upd_half :: "bool \<Rightarrow> (half \<Rightarrow> half) \<Rightarrow> conn \<Rightarrow> conn" where
  "upd_half two f c = (if two then c\<lparr>conn_h2 := f (conn_h2 c)\<rparr> else c\<lparr>conn_h1 := f (conn_h1 c)\<rparr>)"

definition conn_half :: "bool \<Rightarrow> conn \<Rightarrow> half" where
  "conn_half two c = (if two then conn_h2 c else conn_h1 c)"

definition flowSynState :: "packet \<Rightarrow> conn \<Rightarrow> conn" where
  "flowSynState p c =
     (if pk_dir p = conn_dir c then c
      else if synAckBits p = SA_BITS_SYN_ACK then
        set_seqs (half_seq (conn_h1 c) + 1) (th_seq p) (c\<lparr>conn_state := SynAck\<rparr>)
      else c)"

definition flowSynAckState :: "packet \<Rightarrow> conn \<Rightarrow> conn" where
  "flowSynAckState p c =
     (if pk_dir p = conn_dir c then
        (if synAckBits p = SA_BITS_ACK then
           Conn_established (set_seqs (half_seq (conn_h1 c)) (half_seq (conn_h2 c) + 1)
             (c\<lparr>conn_state := Established\<rparr>))
         else c)
      else c)"

text \<open>The parsers given to a connection found to be HTTP.\<close>

definition start_http :: "conn \<Rightarrow> conn" where
  "start_http c = c\<lparr>conn_proto := Conn_HTTP,
     conn_h1 := (conn_h1 c)\<lparr>half_parser := Some HttpRequestParser, parser_in := []\<rparr>,
     conn_h2 := (conn_h2 c)\<lparr>half_parser := Some HttpResponseParser, parser_in := []\<rparr>\<rparr>"

definition flowData :: "(u8 list list \<Rightarrow> ident_proto) \<Rightarrow> packet \<Rightarrow> bool \<Rightarrow> conn \<Rightarrow> conn" where
  "flowData ident p two c =
     (let c1 = (if conn_proto c = Conn_Working then
                  (let d = upd_half two (\<lambda>h. h\<lparr>ident_in := ident_in h @ [packet_bytes p]\<rparr>) c
                   in if ident (ident_in (conn_half two d)) \<in> {HTTP_REQ, HTTP_RSP}
                      then start_http d else d)
                else c)
      in if half_parser (conn_half two c1) \<noteq> None
         then upd_half two (\<lambda>h. h\<lparr>parser_in := parser_in h @ [packet_bytes p]\<rparr>) c1
         else c1)"

definition flowEstabState :: "(u8 list list \<Rightarrow> ident_proto) \<Rightarrow> packet \<Rightarrow> handler \<Rightarrow> handler" where
  "flowEstabState ident p s =
     (let (n, two) = pk_half p;
          s1 = upd_conn n (flowData ident p two) s
      in if pk_caplen p < pk_dlen p
         then s1\<lparr>continuation := True, contPacket := p\<rparr>
         else (upd_conn n (upd_half two (\<lambda>h. h\<lparr>half_seq := th_seq p + word_of_int (pk_dlen p)\<rparr>)) s1)
                \<lparr>continuation := False\<rparr>)"

definition flow :: "(u8 list list \<Rightarrow> ident_proto) \<Rightarrow> packet \<Rightarrow> handler \<Rightarrow> handler" where
  "flow ident p s = (let n = fst (pk_half p) in
     case conn_state (conns s ! n) of
       Syn \<Rightarrow> upd_conn n (flowSynState p) s
     | SynAck \<Rightarrow> upd_conn n (flowSynAckState p) s
     | Established \<Rightarrow> flowEstabState ident p s)"

definition Handler_tcp :: "(u8 list list \<Rightarrow> ident_proto) \<Rightarrow> packet \<Rightarrow> handler \<Rightarrow> handler" where
  "Handler_tcp ident p s = (case halfDict s (packet_key p) of
     Some r \<Rightarrow> flow ident (p\<lparr>pk_half := r\<rparr>) s
   | None \<Rightarrow> createConnection p (packet_key p) s)"

text \<open>\<open>udp\<close> hands the DNS parser \<open>dlen\<close> bytes, the length of the datagram, not of the capture.\<close>

definition Handler_udp :: "packet \<Rightarrow> handler \<Rightarrow> handler" where
  "Handler_udp p s = (case pk_th p of (m, off) \<Rightarrow>
     if be16 m off = 53 \<or> be16 m (off + 2) = 53
     then s\<lparr>dns_in := dns_in s @ [case pk_data p of (md, d) \<Rightarrow> get_bytes d (nat (pk_dlen p)) md]\<rparr>
     else s)"

section \<open>The handler\<close>

definition IPPROTO_UDP :: int where [simp]: "IPPROTO_UDP = 17"

text \<open>The lengths are computed in unsigned arithmetic and stored in an \<open>int\<close>.\<close>

definition to_int32 :: "int \<Rightarrow> int" where
  "to_int32 i = signed_take_bit 31 i"

definition packet_direction :: "(page \<Rightarrow> bool) \<Rightarrow> (page \<Rightarrow> bool) \<Rightarrow> packet_dir \<Rightarrow> page
    \<Rightarrow> packet_dir option" where
  "packet_direction srcProtected dstProtected dir m =
     (if dir \<noteq> UnknownDir then Some dir
      else if srcProtected m \<and> \<not> dstProtected m then Some Egress
      else if \<not> srcProtected m \<and> dstProtected m then Some Ingress
      else None)"

text \<open>The packet the headers in \<open>m\<close> describe, with the transport header of length \<open>tlen\<close>.\<close>

definition header_packet :: "packet_dir \<Rightarrow> page \<Rightarrow> int \<Rightarrow> nat \<Rightarrow> nat \<Rightarrow> packet" where
  "header_packet dir m hcaplen ihlen tlen = \<lparr>pk_dir = dir, pk_ih = (m, ETH_HLEN),
     pk_th = (m, ETH_HLEN + ihlen), pk_data = (m, ETH_HLEN + ihlen + tlen),
     pk_dlen = be16 m (ETH_HLEN + 2) - int tlen - int ihlen,
     pk_caplen = to_int32 (hcaplen - int tlen - int ihlen - int ETH_HLEN), pk_half = (0, False)\<rparr>"

text \<open>One packet from the capture: \<open>hlen\<close> and \<open>hcaplen\<close> of its header, \<open>m\<close> its bytes. A packet
  that is a continuation goes with the TCP header of the packet it continues, read where it was:
  \<open>oldmem\<close> is what that memory holds by now.\<close>

definition handler_run :: "(u8 list list \<Rightarrow> ident_proto) \<Rightarrow> (page \<Rightarrow> bool) \<Rightarrow> (page \<Rightarrow> bool) \<Rightarrow> page
    \<Rightarrow> packet_dir \<Rightarrow> int \<Rightarrow> int \<Rightarrow> page \<Rightarrow> handler \<Rightarrow> handler" where
  "handler_run ident srcProtected dstProtected oldmem dir hlen hcaplen m s =
     (if continuation s then
        flowEstabState ident ((contPacket s)\<lparr>pk_data := (m, 0), pk_dlen := to_int32 hlen,
          pk_caplen := to_int32 hcaplen, pk_th := (oldmem, snd (pk_th (contPacket s)))\<rparr>) s
      else if be16 m 12 = ETH_P_IP then
        (case packet_direction srcProtected dstProtected dir m of
           None \<Rightarrow> s
         | Some d \<Rightarrow>
             let ihlen = 4 * nat (uint (m ETH_HLEN) mod 16);
                 protocol = uint (m (ETH_HLEN + 9))
             in if protocol = IPPROTO_TCP then
                  Handler_tcp ident (header_packet d m hcaplen ihlen
                    (4 * nat (uint (m (ETH_HLEN + ihlen + 12)) div 16))) s
                else if protocol = IPPROTO_UDP then
                  Handler_udp (header_packet d m hcaplen ihlen 8) s
                else s)
      else s)"

end
