(* ===== verification/Parse_Decrypted.thy ===== *)
theory Parse_Decrypted
  imports Parse_Tcp Parse_Vpt Runs
begin

text \<open>
  Decrypted traffic: \<open>Handler::decrypted\<close> of src/parse/decrypted.cc with \<open>DecrHalf\<close>, \<open>Decrypted\<close> and
  \<open>Context\<close> of src/parse/parse.h. The TLS proxy hands over what it forwards, with the id of the
  connection and the side; both sides are given to the protocol identifier until one of them is
  found to be HTTP, and to the parsers from then on.

  The identifier and the parsers are generated by Ragel and are parameters: \<open>ident\<close> is the protocol
  settled on after given buffers, \<open>boot\<close> what the start of a parser does to its tree and \<open>feed\<close> what
  a buffer does to it after the buffers before. \<open>pats\<close> are the patterns that the configuration adds to
  a context, \<open>garbage\<close> the value that the barrier of a new tree happens to have. \<open>None\<close> is a crash.
\<close>

section \<open>Data\<close>

record decr_half =
  dh_vpt :: vpt
  dh_ident_in :: "u8 list list"
  dh_parser :: "http_parser option"
  dh_parser_in :: "u8 list list"
  dh_cache :: "u8 list list"

record decr =
  dc_h1 :: decr_half
  dc_h2 :: decr_half
  dc_proto :: proto_guess







definition decr_get :: "bool \<Rightarrow> decr \<Rightarrow> decr_half" where
  "decr_get one c = (if one then dc_h1 c else dc_h2 c)"

definition decr_set :: "bool \<Rightarrow> (decr_half \<Rightarrow> decr_half) \<Rightarrow> decr \<Rightarrow> decr" where
  "decr_set one f c = (if one then c\<lparr>dc_h1 := f (dc_h1 c)\<rparr> else c\<lparr>dc_h2 := f (dc_h2 c)\<rparr>)"

section \<open>Operations\<close>








section \<open>The halves of a connection\<close>

text \<open>What the proxy hands over: the id, the side, the host and the bytes.\<close>

type_synonym decr_data = "int \<times> int \<times> string option \<times> u8 list"




definition of_id :: "int \<Rightarrow> decr_data list \<Rightarrow> decr_data list" where
  "of_id i es = filter (\<lambda>e. fst e = i) es"

definition bufs :: "bool \<Rightarrow> decr_data list \<Rightarrow> u8 list list" where
  "bufs one es = map (\<lambda>(_, _, _, bytes). bytes) (filter (\<lambda>(_, type, _, _). (type = 1) = one) es)"

lemma bufs_simps [simp]: "bufs one [] = []" "bufs one (es @ fs) = bufs one es @ bufs one fs"
  "bufs one ((i, type, host, bytes) # es) = (if (type = 1) = one then [bytes] else []) @ bufs one es"
  by (simp_all add: bufs_def)

lemma of_id_simps [simp]: "of_id i [] = []" "of_id i (es @ fs) = of_id i es @ of_id i fs"
  "of_id i (e # es) = (if fst e = i then e # of_id i es else of_id i es)"
  by (simp_all add: of_id_def)

lemma decr_get_set [simp]: "decr_get x (decr_set y f c) = (if x = y then f (decr_get x c) else decr_get x c)"
  "dc_proto (decr_set y f c) = dc_proto c"
  by (auto simp: decr_get_def decr_set_def)













section \<open>All connections\<close>












end
