(* ===== verification/Parse_Block.thy ===== *)
theory Parse_Block
  imports Runs
begin

text \<open>
  Passing a region of the input through unchanged: \<open>BlockExec\<close> of src/parse/blockexec.cc and
  src/parse/parse.h. A scanner goes through a buffer; at \<open>start\<close> and \<open>resume\<close> a region of it opens,
  at \<open>pause\<close> and \<open>finish\<close> it ends, and what lies in an open region is handed to the consumer in whole
  blocks. A region may span buffers: \<open>preExec\<close> and \<open>postExec\<close> are called at the ends of each.

  A pointer into the buffer is a position in it, \<open>None\<close> the null pointer. The consumer is outside:
  the state records what it was started with, given and told. \<open>None\<close> as a result is a call of a
  consumer that is not set, or with a pointer that does not point into the buffer behind the
  position of the scanner.
\<close>

datatype 'a block_call = Start | Receive "'a list" | Finish

record 'a block_exec =
  bx_open :: bool
  bx_output :: bool
  bx_from :: "nat option"
  bx_calls :: "'a block_call list"

definition BlockExec_new :: "nat option \<Rightarrow> 'a block_exec" where
  "BlockExec_new garbage = \<lparr>bx_open = False, bx_output = False, bx_from = garbage, bx_calls = []\<rparr>"

definition bx_destination :: "'a block_exec \<Rightarrow> 'a block_exec" where
  "bx_destination b = b\<lparr>bx_output := True\<rparr>"

text \<open>A call of the consumer.\<close>

definition bx_call :: "'a block_call \<Rightarrow> 'a block_exec \<Rightarrow> 'a block_exec option" where
  "bx_call c b = (if bx_output b then Some (b\<lparr>bx_calls := bx_calls b @ [c]\<rparr>) else None)"

text \<open>The bytes between \<open>from\<close> and the position \<open>pos\<close> in the buffer \<open>buf\<close>.\<close>

definition bx_ship :: "'a list \<Rightarrow> nat \<Rightarrow> 'a block_exec \<Rightarrow> 'a block_exec option" where
  "bx_ship buf pos b = (case bx_from b of
     None \<Rightarrow> None
   | Some f \<Rightarrow> if f \<le> pos \<and> pos \<le> length buf then bx_call (Receive (take (pos - f) (drop f buf))) b else None)"

definition bx_start :: "nat \<Rightarrow> 'a block_exec \<Rightarrow> 'a block_exec option" where
  "bx_start pos b = bx_call Start (b\<lparr>bx_open := True, bx_from := Some pos\<rparr>)"

definition bx_preExec :: "nat \<Rightarrow> 'a block_exec \<Rightarrow> 'a block_exec" where
  "bx_preExec pos b = (if bx_open b then b\<lparr>bx_from := Some pos\<rparr> else b)"

definition bx_postExec :: "'a list \<Rightarrow> nat \<Rightarrow> 'a block_exec \<Rightarrow> 'a block_exec option" where
  "bx_postExec buf pos b =
     (if bx_open b then map_option (\<lambda>b. b\<lparr>bx_from := None\<rparr>) (bx_ship buf pos b) else Some b)"

definition bx_pause :: "'a list \<Rightarrow> nat \<Rightarrow> 'a block_exec \<Rightarrow> 'a block_exec option" where
  "bx_pause buf pos b = map_option (\<lambda>b. b\<lparr>bx_open := False\<rparr>) (bx_ship buf pos b)"

definition bx_resume :: "nat \<Rightarrow> 'a block_exec \<Rightarrow> 'a block_exec" where
  "bx_resume pos b = b\<lparr>bx_open := True, bx_from := Some pos\<rparr>"

definition bx_finish_ctx :: "'a block_exec \<Rightarrow> 'a block_exec option" where
  "bx_finish_ctx b = map_option (\<lambda>b. b\<lparr>bx_open := False, bx_output := False, bx_from := None\<rparr>) (bx_call Finish b)"

definition bx_finish :: "'a list \<Rightarrow> nat \<Rightarrow> 'a block_exec \<Rightarrow> 'a block_exec option" where
  "bx_finish buf pos b = (if bx_open b then bx_ship buf pos b else Some b) \<bind> bx_finish_ctx"

section \<open>A scanner\<close>

text \<open>What a scanner does with a buffer: it goes over a byte, or calls one of the operations at the
  byte it has come to.\<close>

datatype 'a scan_item = Byte 'a | Open | Pause | Resume | Close

fun buffer_of :: "'a scan_item list \<Rightarrow> 'a list" where
  "buffer_of [] = []"
| "buffer_of (Byte x # ss) = x # buffer_of ss"
| "buffer_of (_ # ss) = buffer_of ss"

fun scan_from :: "'a list \<Rightarrow> 'a scan_item list \<Rightarrow> nat \<Rightarrow> 'a block_exec \<Rightarrow> (nat \<times> 'a block_exec) option" where
  "scan_from buf [] pos b = Some (pos, b)"
| "scan_from buf (Byte x # ss) pos b = scan_from buf ss (pos + 1) b"
| "scan_from buf (Open # ss) pos b = bx_start pos (bx_destination b) \<bind> scan_from buf ss pos"
| "scan_from buf (Pause # ss) pos b = bx_pause buf pos b \<bind> scan_from buf ss pos"
| "scan_from buf (Resume # ss) pos b = scan_from buf ss pos (bx_resume pos b)"
| "scan_from buf (Close # ss) pos b = bx_finish buf pos b \<bind> scan_from buf ss pos"

definition scan_buffer :: "'a scan_item list \<Rightarrow> 'a block_exec \<Rightarrow> 'a block_exec option" where
  "scan_buffer ss b = scan_from (buffer_of ss) ss 0 (bx_preExec 0 b) \<bind> (\<lambda>(pos, b). bx_postExec (buffer_of ss) pos b)"

abbreviation scan_buffers :: "'a scan_item list list \<Rightarrow> 'a block_exec \<Rightarrow> 'a block_exec option" where
  "scan_buffers \<equiv> run_opt scan_buffer"

section \<open>What is passed on\<close>

text \<open>The specification, byte by byte: which of three states the region is in and what came out. It
  fails on a call out of order.\<close>

datatype pass_state = Shut | Running | Halted

fun pass_step :: "'a scan_item \<Rightarrow> pass_state \<times> 'a list \<Rightarrow> (pass_state \<times> 'a list) option" where
  "pass_step (Byte x) (st, out) = Some (st, if st = Running then out @ [x] else out)"
| "pass_step Open (st, out) = (if st = Shut then Some (Running, out) else None)"
| "pass_step Pause (st, out) = (if st = Running then Some (Halted, out) else None)"
| "pass_step Resume (st, out) = (if st = Halted then Some (Running, out) else None)"
| "pass_step Close (st, out) = (if st \<noteq> Shut then Some (Shut, out) else None)"

abbreviation pass_run :: "'a scan_item list \<Rightarrow> pass_state \<times> 'a list \<Rightarrow> (pass_state \<times> 'a list) option" where
  "pass_run \<equiv> run_opt pass_step"

text \<open>The bytes the consumer was given.\<close>

definition given :: "'a block_exec \<Rightarrow> 'a list" where
  "given b = concat (map (\<lambda>c. case c of Receive d \<Rightarrow> d | _ \<Rightarrow> []) (bx_calls b))"

text \<open>The state of the code and of the specification at the position \<open>pos\<close> of a buffer.\<close>

definition at_pos :: "'a list \<Rightarrow> nat \<Rightarrow> pass_state \<times> 'a list \<Rightarrow> 'a block_exec \<Rightarrow> bool" where
  "at_pos buf pos s b = (case s of (st, out) \<Rightarrow>
     bx_open b = (st = Running) \<and> (st \<noteq> Shut \<longrightarrow> bx_output b)
     \<and> (if st = Running then \<exists>f. bx_from b = Some f \<and> f \<le> pos \<and> given b @ take (pos - f) (drop f buf) = out
        else given b = out))"

lemma at_pos_byte:
  assumes "at_pos buf pos (st, out) b" "pos < length buf"
  shows "at_pos buf (pos + 1) (st, if st = Running then out @ [buf ! pos] else out) b"
proof (cases "st = Running")
  case True
  with assms obtain f where f: "bx_from b = Some f" "f \<le> pos" "given b @ take (pos - f) (drop f buf) = out"
    by (auto simp: at_pos_def)
  have "take (Suc pos - f) (drop f buf) = take (pos - f) (drop f buf) @ [buf ! pos]"
    using f(2) assms(2) by (simp add: Suc_diff_le take_Suc_conv_app_nth)
  with f True assms(1) show ?thesis by (auto simp: at_pos_def)
qed (use assms in \<open>auto simp: at_pos_def\<close>)

lemma scan_from_ok:
  assumes "at_pos (pre @ buffer_of ss) (length pre) s b" "pass_run ss s = Some s'"
  shows "\<exists>b'. scan_from (pre @ buffer_of ss) ss (length pre) b = Some (length (pre @ buffer_of ss), b')
    \<and> at_pos (pre @ buffer_of ss) (length (pre @ buffer_of ss)) s' b'"
  using assms
proof (induction ss arbitrary: pre s b)
  case (Cons x ss)
  obtain st out where s: "s = (st, out)" by (cases s)
  from Cons.prems(2) obtain s1 where s1: "pass_step x s = Some s1" "pass_run ss s1 = Some s'"
    by (auto simp: bind_eq_Some_conv)
  show ?case
  proof (cases x)
    case (Byte y)
    have "at_pos ((pre @ [y]) @ buffer_of ss) (length (pre @ [y])) s1 b"
      using at_pos_byte [of "pre @ y # buffer_of ss" "length pre" st out b] Cons.prems(1) s s1(1) Byte
      by (auto simp: if_distrib split: if_splits)
    from Cons.IH [OF this s1(2)] Byte show ?thesis by simp
  next
    case Open
    then have "at_pos (pre @ buffer_of ss) (length pre) s1 (bx_destination b\<lparr>bx_open := True,
        bx_from := Some (length pre), bx_calls := bx_calls b @ [Start]\<rparr>)"
      using Cons.prems(1) s s1(1) by (auto simp: at_pos_def given_def bx_destination_def split: if_splits)
    from Cons.IH [OF this s1(2)] Open show ?thesis by (simp add: bx_start_def bx_call_def bx_destination_def)
  next
    case Pause
    with s s1(1) have st: "st = Running" "s1 = (Halted, out)" by (auto split: if_splits)
    with Cons.prems(1) s Pause obtain f where f: "bx_from b = Some f" "f \<le> length pre" "bx_output b"
      "given b @ take (length pre - f) (drop f (pre @ buffer_of ss)) = out" by (auto simp: at_pos_def)
    define b1 where "b1 = b\<lparr>bx_calls := bx_calls b @ [Receive (take (length pre - f) (drop f (pre @ buffer_of ss)))],
      bx_open := False\<rparr>"
    have "at_pos (pre @ buffer_of ss) (length pre) s1 b1"
      using f st by (auto simp: at_pos_def given_def b1_def)
    from Cons.IH [OF this s1(2)] Pause f show ?thesis by (simp add: bx_pause_def bx_ship_def bx_call_def b1_def)
  next
    case Resume
    then have "at_pos (pre @ buffer_of ss) (length pre) s1 (bx_resume (length pre) b)"
      using Cons.prems(1) s s1(1) by (auto simp: at_pos_def given_def bx_resume_def split: if_splits)
    from Cons.IH [OF this s1(2)] Resume show ?thesis by simp
  next
    case Close
    with s s1(1) have st: "st \<noteq> Shut" "s1 = (Shut, out)" by (auto split: if_splits)
    define d where "d = (if st = Running then [Receive (take (length pre - the (bx_from b)) (drop (the (bx_from b)) (pre @ buffer_of ss)))] else [])"
    define b1 where "b1 = b\<lparr>bx_open := False, bx_output := False, bx_from := None, bx_calls := bx_calls b @ d @ [Finish]\<rparr>"
    have f: "bx_finish (pre @ buffer_of ss) (length pre) b = Some b1" "at_pos (pre @ buffer_of ss) (length pre) s1 b1"
      using Cons.prems(1) s st Close
      by (auto simp: at_pos_def given_def b1_def d_def bx_finish_def bx_finish_ctx_def bx_ship_def bx_call_def split: if_splits)
    from Cons.IH [OF f(2) s1(2)] Close f(1) show ?thesis by simp
  qed
qed (simp add: at_pos_def)

text \<open>The state between two buffers.\<close>

definition between :: "pass_state \<times> 'a list \<Rightarrow> 'a block_exec \<Rightarrow> bool" where
  "between s b = (case s of (st, out) \<Rightarrow>
     bx_open b = (st = Running) \<and> (st \<noteq> Shut \<longrightarrow> bx_output b) \<and> given b = out)"

lemma scan_buffer_ok:
  assumes "between s b" "pass_run ss s = Some s'"
  shows "\<exists>b'. scan_buffer ss b = Some b' \<and> between s' b'"
proof -
  have "at_pos ([] @ buffer_of ss) (length []) s (bx_preExec 0 b)"
    using assms(1) by (auto simp: between_def at_pos_def bx_preExec_def given_def split: prod.splits)
  from scan_from_ok [OF this assms(2)] obtain b1 where
    b1: "scan_from (buffer_of ss) ss 0 (bx_preExec 0 b) = Some (length (buffer_of ss), b1)"
    "at_pos (buffer_of ss) (length (buffer_of ss)) s' b1" by auto
  then have "\<exists>b'. bx_postExec (buffer_of ss) (length (buffer_of ss)) b1 = Some b' \<and> between s' b'"
    by (auto simp: at_pos_def between_def bx_postExec_def bx_ship_def bx_call_def given_def split: prod.splits if_splits)
  with b1(1) show ?thesis by (simp add: scan_buffer_def)
qed

interpretation blocks: simulation scan_buffer pass_run between
  by unfold_locales (rule scan_buffer_ok)

text \<open>
  (C23) However the input is cut into buffers: when the scanner opens, pauses, resumes and closes a
  region in order, nothing faults and the consumer is given exactly the bytes of the input that lie
  in an open region, in order and each once.
\<close>

theorem block_exec_passes:
  assumes "pass_run (concat sss) (Shut, []) = Some (st, out)"
  shows "\<exists>b. scan_buffers sss (BlockExec_new garbage) = Some b \<and> given b = out"
proof -
  have "between (Shut, []) (BlockExec_new garbage)" by (simp add: between_def BlockExec_new_def given_def)
  from blocks.run_sim [OF this assms [unfolded run_opt_concat]] show ?thesis by (auto simp: between_def)
qed

theorem block_exec_passes_witness:
  "\<exists>b. scan_buffers [[Byte 1, Open, Byte 2], [Byte 3, Pause, Byte (4::int)], [Resume, Byte 5, Close, Byte 6]] (BlockExec_new None) = Some b
     \<and> given b = [2, 3, 5]"
  by (rule block_exec_passes [where st = Shut]) simp

end
