(* ===== verification/Parse_Fetch.thy ===== *)
theory Parse_Fetch
  imports Runs
begin

text \<open>
  The client that fetches over HTTPS, \<open>FetchConnection\<close> of src/parse/fetch.h and connection.cc: a queue of
  requests, of which one is sent at a time, and the calls that the response parser makes on it. The
  connection is open when \<open>selectFd\<close> is not null; what \<open>write\<close> takes and the time are arguments. What
  happens to requests is recorded in \<open>fc_log\<close>. \<open>None\<close> says that a null pointer is followed.
\<close>

section \<open>State\<close>

record request =
  rq_consumer :: nat
  rq_content :: "u8 list"

datatype fetch_state = Disconnected | Connecting | Sent | Idle

datatype fetch_act = Queued request | Wrote int request int | Answered request | Dropped request | Connected | Lost

record fetch_conn =
  fc_state :: fetch_state
  lastSend :: int
  requestList :: "request list"
  fetchHost :: string
  fc_selectFd :: bool
  fc_closed :: bool
  fc_consumers :: "nat list"
  fc_log :: "fetch_act list"


section \<open>Operations\<close>

definition fc_close :: "fetch_conn \<Rightarrow> fetch_conn" where
  "fc_close f = f\<lparr>fc_selectFd := False, fc_closed := True\<rparr>"

definition fc_act :: "fetch_act \<Rightarrow> fetch_conn \<Rightarrow> fetch_conn" where
  "fc_act a f = f\<lparr>fc_log := fc_log f @ [a]\<rparr>"

text \<open>After a short write the state is set twice; the second time to \<open>Sent\<close>.\<close>

definition maybeSend :: "int \<Rightarrow> int \<Rightarrow> int \<Rightarrow> fetch_conn \<Rightarrow> fetch_conn option" where
  "maybeSend throttleDelay now wrote f =
     (if fc_state f = Idle \<and> requestList f \<noteq> [] \<and> now - lastSend f > throttleDelay then
        let request = hd (requestList f) in
        if \<not> fc_selectFd f then None
        else
          let f = fc_act (Wrote now request wrote) f;
              f = (if wrote \<noteq> int (length (rq_content request)) then (fc_close f)\<lparr>fc_state := Disconnected\<rparr> else f)
          in Some (f\<lparr>fc_state := Sent, lastSend := now\<rparr>)
      else Some f)"


definition getGoing :: "string \<Rightarrow> fetch_conn \<Rightarrow> fetch_conn" where
  "getGoing host f =
     (let f = f\<lparr>fetchHost := host\<rparr> in
      if requestList f \<noteq> [] \<and> fc_state f = Disconnected then f\<lparr>fc_selectFd := True, fc_state := Connecting\<rparr> else f)"

definition queueRequest :: "int \<Rightarrow> int \<Rightarrow> int \<Rightarrow> request \<Rightarrow> fetch_conn \<Rightarrow> fetch_conn option" where
  "queueRequest throttleDelay now wrote request f =
     maybeSend throttleDelay now wrote ((fc_act (Queued request) f)\<lparr>requestList := requestList f @ [request]\<rparr>)"

definition fc_timer :: "int \<Rightarrow> int \<Rightarrow> int \<Rightarrow> fetch_conn \<Rightarrow> fetch_conn option" where
  "fc_timer throttleDelay now wrote f = maybeSend throttleDelay now wrote f"


text \<open>The calls of the response parser.\<close>

datatype source_call = NextConsumer | PreFinish | ResponseComplete

fun source_do :: "int \<Rightarrow> int \<Rightarrow> int \<Rightarrow> source_call \<Rightarrow> fetch_conn \<Rightarrow> fetch_conn option" where
  "source_do th now wrote NextConsumer f = (case requestList f of
     [] \<Rightarrow> None
   | r # _ \<Rightarrow> Some (f\<lparr>fc_consumers := fc_consumers f @ [rq_consumer r]\<rparr>))"
| "source_do th now wrote PreFinish f = (case requestList f of
     [] \<Rightarrow> None
   | r # rs \<Rightarrow> Some ((fc_act (Answered r) f)\<lparr>requestList := rs, fc_state := Idle\<rparr>))"
| "source_do th now wrote ResponseComplete f = maybeSend th now wrote f"

text \<open>One turn of the loop in \<open>readReady\<close>, with what \<open>read\<close> and the parser make of it, and the loop.\<close>

datatype read_out = Read_fail | Read_none | Read_data "source_call list"

definition read_turn :: "int \<Rightarrow> int \<Rightarrow> int \<Rightarrow> read_out \<Rightarrow> fetch_conn \<Rightarrow> (bool \<times> fetch_conn) option" where
  "read_turn th now wrote r f =
     (if \<not> fc_selectFd f then None
      else case r of
        Read_fail \<Rightarrow> Some (False, (fc_act Lost (fc_close f))\<lparr>fc_state := Disconnected\<rparr>)
      | Read_none \<Rightarrow> Some (False, f)
      | Read_data cs \<Rightarrow> map_option (\<lambda>f. (\<not> fc_closed f, f)) (run_opt (source_do th now wrote) cs f))"

fun readReady :: "int \<Rightarrow> int \<Rightarrow> int \<Rightarrow> read_out list \<Rightarrow> fetch_conn \<Rightarrow> fetch_conn option" where
  "readReady th now wrote [] f = Some f"
| "readReady th now wrote (r # rs) f = (case read_turn th now wrote r f of
     None \<Rightarrow> None
   | Some (again, f) \<Rightarrow> if again then readReady th now wrote rs f else Some f)"

section \<open>Steps\<close>




text \<open>The requests that are done with, in order.\<close>

fun done_requests :: "fetch_act list \<Rightarrow> request list" where
  "done_requests [] = []"
| "done_requests (Answered r # l) = r # done_requests l"
| "done_requests (Dropped r # l) = r # done_requests l"
| "done_requests (_ # l) = done_requests l"

fun queued_requests :: "fetch_act list \<Rightarrow> request list" where
  "queued_requests [] = []"
| "queued_requests (Queued r # l) = r # queued_requests l"
| "queued_requests (_ # l) = queued_requests l"

lemma queued_append [simp]: "queued_requests (l @ l') = queued_requests l @ queued_requests l'"
  by (induction l rule: queued_requests.induct) auto

lemma done_append [simp]: "done_requests (l @ l') = done_requests l @ done_requests l'"
  by (induction l rule: done_requests.induct) auto


















section \<open>A short write\<close>

text \<open>
  When the kernel takes less than the whole request, the connection is closed but the state says that the
  request was sent: from then on nothing that the client does by itself connects or sends again.
\<close>

datatype client_op = Queue request | Go string | Tick

fun client_do :: "int \<Rightarrow> int \<times> int \<times> client_op \<Rightarrow> fetch_conn \<Rightarrow> fetch_conn option" where
  "client_do th (now, n, Queue r) f = queueRequest th now n r f"
| "client_do th (now, n, Go host) f = Some (getGoing host f)"
| "client_do th (now, n, Tick) f = fc_timer th now n f"

lemma stuck_run:
  "fc_state f = Sent \<Longrightarrow> \<not> fc_selectFd f \<Longrightarrow> \<exists>f' rs. run_opt (client_do th) ops f = Some f' \<and> fc_state f' = Sent \<and> \<not> fc_selectFd f' \<and>
     fc_log f' = fc_log f @ map Queued rs"
proof (induction ops arbitrary: f)
  case Nil
  then show ?case by (auto intro: exI [of _ "[]"])
next
  case (Cons e ops)
  obtain now n op where e: "e = (now, n, op)" by (cases e)
  obtain g rs where g: "client_do th e f = Some g" "fc_state g = Sent" "\<not> fc_selectFd g" "fc_log g = fc_log f @ map Queued rs"
  proof (cases op)
    case (Queue r)
    then show thesis using that [of "(fc_act (Queued r) f)\<lparr>requestList := requestList f @ [r]\<rparr>" "[r]"] Cons.prems
      by (simp add: e queueRequest_def maybeSend_def fc_act_def)
  next
    case (Go host)
    then show thesis using that [of "f\<lparr>fetchHost := host\<rparr>" "[]"] Cons.prems by (simp add: e getGoing_def)
  next
    case Tick
    then show thesis using that [of f "[]"] Cons.prems by (simp add: e fc_timer_def maybeSend_def)
  qed
  from Cons.IH [OF g(2,3)] obtain f' rs' where "run_opt (client_do th) ops g = Some f'" "fc_state f' = Sent" "\<not> fc_selectFd f'"
      "fc_log f' = fc_log g @ map Queued rs'" by blast
  with g show ?case by (intro exI [of _ f'] exI [of _ "rs @ rs'"]) simp
qed

lemma short_write_sticks:
  assumes "fc_state f = Idle" "fc_selectFd f" "requestList f = r # rs" "now - lastSend f > th" "n \<noteq> int (length (rq_content r))"
  shows "\<exists>g f' qs. maybeSend th now n f = Some g \<and> run_opt (client_do th) ops g = Some f' \<and> fc_state f' = Sent \<and> \<not> fc_selectFd f' \<and>
    fc_log f' = fc_log f @ Wrote now r n # map Queued qs"
proof -
  obtain g where g: "maybeSend th now n f = Some g" "fc_state g = Sent" "\<not> fc_selectFd g" "fc_log g = fc_log f @ [Wrote now r n]"
    using assms by (auto simp: maybeSend_def fc_act_def fc_close_def Let_def)
  with stuck_run [OF g(2,3), of th ops] show ?thesis by auto
qed

end
