(* ===== verification/Text_Bytes.thy ===== *)
theory Text_Bytes
  imports Prelude
begin

text \<open>
  Text and bytes, as the programs write and read them: the characters of a byte array, the bytes of
  a text, a text up to its terminator, and a number in decimal.
\<close>

definition to_chars :: "u8 list \<Rightarrow> string" where
  "to_chars bs = map (\<lambda>b. char_of (unat b)) bs"

definition of_chars :: "string \<Rightarrow> u8 list" where
  "of_chars cs = map (\<lambda>c. word_of_nat (of_char c)) cs"

text \<open>What a function that takes a \<open>const char *\<close> sees of a text.\<close>

definition c_str :: "string \<Rightarrow> string" where
  "c_str cs = takeWhile (\<lambda>c. c \<noteq> CHR 0x00) cs"

fun show_nat :: "nat \<Rightarrow> string" where
  "show_nat n = (if n < 10 then [char_of (48 + n)] else show_nat (n div 10) @ [char_of (48 + n mod 10)])"

declare show_nat.simps [simp del]

lemma to_chars_append [simp]: "to_chars (xs @ ys) = to_chars xs @ to_chars ys"
  by (simp add: to_chars_def)

lemma of_chars_append [simp]: "of_chars (xs @ ys) = of_chars xs @ of_chars ys"
  by (simp add: of_chars_def)

lemma length_of_chars [simp]: "length (of_chars cs) = length cs"
  by (simp add: of_chars_def)

lemma c_str_idem [simp]: "c_str (c_str cs) = c_str cs"
  by (simp add: c_str_def)

text \<open>Every character of a decimal number is a digit.\<close>

lemma show_nat_digits: "c \<in> set (show_nat n) \<Longrightarrow> of_char c \<in> {48..57::nat}"
proof (induction n rule: show_nat.induct)
  case (1 n)
  have "of_char (char_of (48 + k :: nat)) = 48 + k" if "k < 10" for k
    using that by (simp add: of_char_of)
  with 1 show ?case by (subst (asm) (2) show_nat.simps) (auto split: if_splits)
qed

lemma show_nat_not_Nil [simp]: "show_nat n \<noteq> []"
  by (subst show_nat.simps) simp

lemma show_nat_length: "n < 256 \<Longrightarrow> length (show_nat n) \<le> 3"
  by (subst show_nat.simps, subst show_nat.simps, subst show_nat.simps) auto

end
