(* ===== verification/Broker_Stash.thy ===== *)
theory Broker_Stash
  imports Genf_Packet Text_Bytes "HOL-Library.Monad_Syntax"
begin

text \<open>
  How the broker writes messages to a database: the structures \<open>Field\<close> and \<open>Struct\<close> of
  src/broker/main.h, \<open>readStruct\<close> and the \<open>stash\<close> functions of src/broker/main.cc. A message type is
  described by a list of field descriptors; a message of the type is turned into a line of text,
  the fields that are tags first. The message is the rope of \<open>Genf_Packet\<close>, its fields found with
  \<open>pktFind\<close>. \<open>None\<close> says that memory outside of a block is read, a null pointer among it.
\<close>

section \<open>Descriptions\<close>

datatype field_type = FieldTypeBool | FieldTypeInt | FieldTypeUnsignedInt | FieldTypeLong
  | FieldTypeUnsignedLong | FieldTypeString | FieldTypeChar | FieldTypeList | FieldTypeOther int

text \<open>A descriptor as it arrives, and a field; \<open>listOf\<close> are the fields of the items of a list.\<close>

record descriptor =
  d_name :: string
  d_tag :: bool
  d_type :: field_type
  d_size :: int
  d_offset :: int

datatype field = Field (f_name: string) (f_tag: bool) (f_type: field_type) (f_size: int) (f_offset: int)
  (listOf: "field list")

record strct =
  s_name :: string
  s_ID :: int
  fieldList :: "field list"
  hasList :: "field option"

definition desc_field :: "descriptor \<Rightarrow> field list \<Rightarrow> field" where
  "desc_field d fs = Field (d_name d) (d_tag d) (d_type d) (d_size d) (d_offset d) fs"

text \<open>\<open>readStruct\<close>: the fields read, the list field among them that was read last, and the
  descriptors that are left. The descriptors of the items of a list follow its own.\<close>

partial_function (option) readStruct :: "int \<Rightarrow> descriptor list
    \<Rightarrow> (field list \<times> field option \<times> descriptor list) option" where
  "readStruct numFields ds =
     (if 0 < numFields \<and> ds \<noteq> []
      then (if d_type (hd ds) = FieldTypeList
            then readStruct (d_size (hd ds)) (tl ds) \<bind> (\<lambda>(items, _, ds').
                 readStruct (numFields - 1) ds' \<bind> (\<lambda>(fs, lst, ds'').
                 let f = desc_field (hd ds) items
                 in Some (f # fs, case lst of None \<Rightarrow> Some f | Some g \<Rightarrow> Some g, ds'')))
            else readStruct (numFields - 1) (tl ds) \<bind> (\<lambda>(fs, lst, ds').
                 Some (desc_field (hd ds) [] # fs, lst, ds')))
      else Some ([], None, ds))"

text \<open>The description of a message type.\<close>

definition packet_struct :: "string \<Rightarrow> int \<Rightarrow> int \<Rightarrow> descriptor list \<Rightarrow> strct option" where
  "packet_struct name ID numFields ds = map_option (\<lambda>(fs, lst, _).
     \<lparr>s_name = name, s_ID = ID, fieldList = fs, hasList = lst\<rparr>) (readStruct numFields ds)"

section \<open>Reading a message\<close>

text \<open>The memory a pointer into a block gives, \<open>off\<close> bytes on.\<close>

definition overlay :: "rope \<Rightarrow> nat \<Rightarrow> int \<Rightarrow> u8 list option" where
  "overlay r base off = (case pktFind r base of
     None \<Rightarrow> None
   | Some (i, l) \<Rightarrow>
       if 0 \<le> int l + off \<and> nat (int l + off) \<le> length (r ! i) then Some (drop (nat (int l + off)) (r ! i))
       else None)"

definition read_uint :: "nat \<Rightarrow> rope \<Rightarrow> nat \<Rightarrow> int \<Rightarrow> int option" where
  "read_uint k r base off = overlay r base off \<bind>
     (\<lambda>m. if k \<le> length m then Some (get_uint k 0 (\<lambda>i. m ! i)) else None)"

definition read_sint :: "nat \<Rightarrow> rope \<Rightarrow> nat \<Rightarrow> int \<Rightarrow> int option" where
  "read_sint k r base off = overlay r base off \<bind>
     (\<lambda>m. if k \<le> length m then Some (get_sint k 0 (\<lambda>i. m ! i)) else None)"

definition read_cstr :: "rope \<Rightarrow> nat \<Rightarrow> string option" where
  "read_cstr r l = overlay r l 0 \<bind>
     (\<lambda>m. if 0 \<in> set m then Some (to_chars (takeWhile (\<lambda>b. b \<noteq> 0) m)) else None)"

section \<open>Writing text\<close>

definition show_int :: "int \<Rightarrow> string" where
  "show_int i = (if i < 0 then ''-'' @ show_nat (nat (- i)) else show_nat (nat i))"

fun lineProtocolStrEscape :: "string \<Rightarrow> string" where
  "lineProtocolStrEscape [] = []"
| "lineProtocolStrEscape (c # cs) =
     (if c = CHR 0x22 then [CHR 0x5C, CHR 0x22] else [c]) @ lineProtocolStrEscape cs"

type_synonym post = "string \<times> char"

text \<open>What every \<open>stash\<close> function writes: the separator, the name and the value.\<close>

definition stash_kv :: "post \<Rightarrow> field \<Rightarrow> string \<Rightarrow> post" where
  "stash_kv = (\<lambda>(out, sep) f val. (out @ [sep] @ f_name f @ ''='' @ val, CHR '',''))"

definition stashBool :: "post \<Rightarrow> nat \<Rightarrow> field \<Rightarrow> rope \<Rightarrow> post option" where
  "stashBool post base f r = map_option (\<lambda>b. stash_kv post f (if b \<noteq> 0 then ''t'' else ''f''))
     (read_uint 1 r base (f_offset f))"

definition stashInt :: "post \<Rightarrow> nat \<Rightarrow> field \<Rightarrow> rope \<Rightarrow> post option" where
  "stashInt post base f r = map_option (\<lambda>i. stash_kv post f (show_int i)) (read_sint 4 r base (f_offset f))"

definition stashUnsignedInt :: "post \<Rightarrow> nat \<Rightarrow> field \<Rightarrow> rope \<Rightarrow> post option" where
  "stashUnsignedInt post base f r =
     map_option (\<lambda>i. stash_kv post f (show_int i)) (read_uint 4 r base (f_offset f))"

definition stashLong :: "post \<Rightarrow> nat \<Rightarrow> field \<Rightarrow> rope \<Rightarrow> post option" where
  "stashLong post base f r = map_option (\<lambda>i. stash_kv post f (show_int i)) (read_sint 8 r base (f_offset f))"

definition stashUnsignedLong :: "post \<Rightarrow> nat \<Rightarrow> field \<Rightarrow> rope \<Rightarrow> post option" where
  "stashUnsignedLong post base f r =
     map_option (\<lambda>i. stash_kv post f (show_int i)) (read_uint 8 r base (f_offset f))"

definition stash_quoted :: "bool \<Rightarrow> string \<Rightarrow> string" where
  "stash_quoted tags str =
     (if tags then lineProtocolStrEscape str
      else [CHR 0x22] @ lineProtocolStrEscape str @ [CHR 0x22])"

definition stashString :: "post \<Rightarrow> nat \<Rightarrow> bool \<Rightarrow> field \<Rightarrow> rope \<Rightarrow> post option" where
  "stashString post base tags f r = do {
     l \<leftarrow> read_uint 4 r base (f_offset f);
     str \<leftarrow> read_cstr r (nat l);
     Some (stash_kv post f (stash_quoted tags str)) }"

text \<open>The characters \<open>memchr\<close> leaves of an array of \<open>sz\<close> bytes; a negative size is a huge one.\<close>

definition char_array :: "int \<Rightarrow> u8 list \<Rightarrow> u8 list option" where
  "char_array sz m =
     (let n = (if sz < 0 then length m + 1 else nat sz)
      in if 0 \<in> set (take n m) then Some (takeWhile (\<lambda>b. b \<noteq> 0) m)
         else if n \<le> length m then Some (take n m) else None)"

definition stashChar :: "post \<Rightarrow> nat \<Rightarrow> bool \<Rightarrow> field \<Rightarrow> rope \<Rightarrow> post option" where
  "stashChar post base tags f r = do {
     m \<leftarrow> overlay r base (f_offset f);
     str \<leftarrow> char_array (f_size f) m;
     Some (stash_kv post f (stash_quoted tags (to_chars str))) }"

definition stashField :: "post \<Rightarrow> nat \<Rightarrow> bool \<Rightarrow> field \<Rightarrow> rope \<Rightarrow> post option" where
  "stashField post base tags f r = (case f_type f of
     FieldTypeBool \<Rightarrow> stashBool post base f r
   | FieldTypeInt \<Rightarrow> stashInt post base f r
   | FieldTypeUnsignedInt \<Rightarrow> stashUnsignedInt post base f r
   | FieldTypeLong \<Rightarrow> stashLong post base f r
   | FieldTypeUnsignedLong \<Rightarrow> stashUnsignedLong post base f r
   | FieldTypeString \<Rightarrow> stashString post base tags f r
   | FieldTypeChar \<Rightarrow> stashChar post base tags f r
   | FieldTypeList \<Rightarrow> Some post
   | FieldTypeOther _ \<Rightarrow> Some post)"

fun stashFieldList :: "post \<Rightarrow> nat \<Rightarrow> bool \<Rightarrow> field list \<Rightarrow> rope \<Rightarrow> post option" where
  "stashFieldList post base tags [] r = Some post"
| "stashFieldList post base tags (f # fs) r =
     (if tags = f_tag f then stashField post base tags f r else Some post)
       \<bind> (\<lambda>post'. stashFieldList post' base tags fs r)"

definition headerSize :: nat where
  "headerSize = sizeof_PacketBlockHeader + sizeof_PacketHeader"

text \<open>The loop over the items of a list: a line for each, with the fields of the message and of the
  item. The item starts with the offset of the next.\<close>

partial_function (option) stash_items :: "strct \<Rightarrow> field \<Rightarrow> string \<Rightarrow> nat \<Rightarrow> rope \<Rightarrow> string option" where
  "stash_items st lst out itemOffset r =
     (if itemOffset \<noteq> 0
      then stashFieldList (out @ s_name st, CHR '','') headerSize True (fieldList st) r
             \<bind> (\<lambda>p. stashFieldList p itemOffset True (listOf lst) r
             \<bind> (\<lambda>(o2, _). stashFieldList (o2, CHR '' '') headerSize False (fieldList st) r
             \<bind> (\<lambda>p. stashFieldList p itemOffset False (listOf lst) r
             \<bind> (\<lambda>(o3, _). read_uint 4 r itemOffset 0
             \<bind> (\<lambda>next_item. stash_items st lst (o3 @ [CHR 0x0A]) (nat next_item) r)))))
      else Some out)"

definition stashStruct :: "strct \<Rightarrow> rope \<Rightarrow> string option" where
  "stashStruct st r = (case hasList st of
     Some lst \<Rightarrow> read_uint 4 r headerSize (f_offset lst) \<bind> (\<lambda>item. stash_items st lst [] (nat item) r)
   | None \<Rightarrow>
       stashFieldList (s_name st, CHR '','') headerSize True (fieldList st) r
         \<bind> (\<lambda>(o1, _). stashFieldList (o1, CHR '' '') headerSize False (fieldList st) r
         \<bind> (\<lambda>(o2, _). Some o2)))"

end
