(* ===== verification/Broker.thy ===== *)
theory Broker
  imports Broker_Stash Runs "HOL-Library.Signed_Division" "HOL-Library.AList"
begin

text \<open>
  The message broker, src/broker/main.cc and main.h: clients name the message ids they want, every
  message received is sent on to the clients that want it, and the most recent ones of each id are
  kept for clients that ask later. A message is an id and the rope received; what a client is
  sent is the list of ropes given to \<open>PacketBase::send\<close>, whose way to the socket is the subject of
  \<open>Genf_Write\<close> and \<open>Genf_Packet\<close>. What the generated code unpacks from a rope is a parameter. \<open>None\<close>
  is a crash: an index outside of an array, a division by zero, a null pointer.
\<close>

section \<open>The most recent messages\<close>

record last_msgs =
  last_msgId :: int
  last_retain :: int
  last_msg :: "rope list"
  last_dest :: int
  last_have :: int

text \<open>The constructor makes an array of one rope and leaves \<open>msgId\<close> to its caller.\<close>

definition Last_new :: "int \<Rightarrow> last_msgs" where
  "Last_new mid = \<lparr>last_msgId = mid, last_retain = 1, last_msg = [[]], last_dest = 0, last_have = 0\<rparr>"

text \<open>The end of \<open>resendPacket\<close>: the rope goes to the place \<open>dest\<close> of the array.\<close>

definition stash_recent :: "rope \<Rightarrow> last_msgs \<Rightarrow> last_msgs option" where
  "stash_recent buf l =
     (if 0 \<le> last_dest l \<and> last_dest l < int (length (last_msg l)) \<and> last_retain l \<noteq> 0
      then Some (l\<lparr>last_msg := (last_msg l)[nat (last_dest l) := buf],
                   last_dest := (last_dest l + 1) smod last_retain l,
                   last_have := (if last_have l < last_retain l then last_have l + 1 else last_have l)\<rparr>)
      else None)"

text \<open>The loop of \<open>recvWantId\<close>: \<open>k\<close> ropes from place \<open>m\<close> on, around the array.\<close>

fun replay_loop :: "nat \<Rightarrow> int \<Rightarrow> last_msgs \<Rightarrow> rope list option" where
  "replay_loop 0 m l = Some []"
| "replay_loop (Suc k) m l =
     (if 0 \<le> m \<and> m < int (length (last_msg l))
      then map_option (\<lambda>rs. last_msg l ! nat m # rs) (replay_loop k ((m + 1) smod last_retain l) l)
      else None)"

definition replay_recent :: "last_msgs \<Rightarrow> rope list option" where
  "replay_recent l =
     (if last_retain l = 0 then None
      else replay_loop (nat (last_have l)) ((last_dest l - last_have l + last_retain l) smod last_retain l) l)"

section \<open>The broker\<close>

record client =
  cl_fd :: nat
  wantIds :: "int set"
  brokerConnClosed :: bool
  cl_established :: bool
  cl_sent :: "rope list"

record broker =
  connList :: "client list"
  lastList :: "last_msgs list"
  structMap :: "int \<rightharpoonup> strct"
  posted :: "string list"
  logged :: "(int \<times> rope) list"
  replaying :: bool
  attached_wantRead :: bool
  replay_sent :: "rope list"

definition broker_new :: "bool \<Rightarrow> broker" where
  "broker_new rep = \<lparr>connList = [], lastList = [], structMap = Map.empty, posted = [], logged = [],
     replaying = rep, attached_wantRead = True, replay_sent = []\<rparr>"

definition client_new :: "nat \<Rightarrow> client" where
  "client_new fd = \<lparr>cl_fd = fd, wantIds = {}, brokerConnClosed = False, cl_established = False, cl_sent = []\<rparr>"

abbreviation upd_client :: "nat \<Rightarrow> (client \<Rightarrow> client) \<Rightarrow> broker \<Rightarrow> broker" where
  "upd_client fd f b \<equiv> b\<lparr>connList := map (\<lambda>c. if cl_fd c = fd then f c else c) (connList b)\<rparr>"

definition connectionFactory :: "nat \<Rightarrow> broker \<Rightarrow> broker" where
  "connectionFactory fd b = b\<lparr>connList := connList b @ [client_new fd]\<rparr>"

definition packetClosed :: "nat \<Rightarrow> broker \<Rightarrow> broker" where
  "packetClosed fd b = upd_client fd (\<lambda>c. c\<lparr>brokerConnClosed := True\<rparr>) b"

definition send_to :: "rope list \<Rightarrow> client \<Rightarrow> client" where
  "send_to rs c = c\<lparr>cl_sent := cl_sent c @ rs\<rparr>"

fun replay_all :: "int \<Rightarrow> last_msgs list \<Rightarrow> rope list option" where
  "replay_all w [] = Some []"
| "replay_all w (l # ls) =
     (if last_msgId l = w
      then replay_recent l \<bind> (\<lambda>rs. map_option (\<lambda>rest. rs @ rest) (replay_all w ls))
      else replay_all w ls)"

definition recvWantId :: "nat \<Rightarrow> int \<Rightarrow> broker \<Rightarrow> broker option" where
  "recvWantId fd w b = map_option (\<lambda>rs.
     upd_client fd (\<lambda>c. send_to rs (c\<lparr>wantIds := insert w (wantIds c)\<rparr>)) b) (replay_all w (lastList b))"

definition recvPing :: "broker \<Rightarrow> broker" where
  "recvPing b = b"

definition recvPacketType :: "string \<Rightarrow> int \<Rightarrow> int \<Rightarrow> descriptor list \<Rightarrow> broker \<Rightarrow> broker option" where
  "recvPacketType name numId numFields ds b = map_option (\<lambda>s. b\<lparr>structMap := (structMap b)(numId \<mapsto> s)\<rparr>)
     (packet_struct name numId numFields ds)"

text \<open>The first entry of the list with the id, changed; a new one at the end if there is none.\<close>

fun upd_first :: "(last_msgs \<Rightarrow> bool) \<Rightarrow> (last_msgs \<Rightarrow> last_msgs option) \<Rightarrow> last_msgs \<Rightarrow> last_msgs list
    \<Rightarrow> last_msgs list option" where
  "upd_first P f new [] = map_option (\<lambda>l. [l]) (f new)"
| "upd_first P f new (l # ls) =
     (if P l then map_option (\<lambda>l'. l' # ls) (f l) else map_option (\<lambda>ls'. l # ls') (upd_first P f new ls))"

text \<open>\<open>recvSetRetain\<close>: the id of a new entry is left as the memory was, \<open>garbage\<close>.\<close>

definition recvSetRetain :: "int \<Rightarrow> int \<Rightarrow> int \<Rightarrow> broker \<Rightarrow> broker option" where
  "recvSetRetain garbage mid n b = map_option (\<lambda>ls. b\<lparr>lastList := ls\<rparr>)
     (upd_first (\<lambda>l. last_msgId l = mid) (\<lambda>l. Some (l\<lparr>last_retain := n\<rparr>)) (Last_new garbage) (lastList b))"

definition wants :: "int \<Rightarrow> client \<Rightarrow> bool" where
  "wants mid c \<longleftrightarrow> \<not> brokerConnClosed c \<and> cl_established c \<and> mid \<in> wantIds c"

definition resendPacket :: "int \<Rightarrow> rope \<Rightarrow> broker \<Rightarrow> broker option" where
  "resendPacket mid buf b =
     (let sent = map (\<lambda>c. if wants mid c then send_to [buf] c else c) (connList b);
          kept = filter (\<lambda>c. \<not> brokerConnClosed c) sent
      in map_option (\<lambda>ls. b\<lparr>connList := kept, lastList := ls, logged := logged b @ [(mid, buf)]\<rparr>)
           (upd_first (\<lambda>l. last_msgId l = mid) (stash_recent buf) (Last_new mid) (lastList b)))"

text \<open>The ids of the packets the broker takes itself, and what the generated code unpacks of them.\<close>

record packet_ids =
  Ping_ID :: int
  WantId_ID :: int
  SetRetain_ID :: int
  PacketType_ID :: int

record unpackers =
  unpack_WantId :: "rope \<Rightarrow> int"
  unpack_PacketType :: "rope \<Rightarrow> string \<times> int \<times> int \<times> descriptor list"

text \<open>The database: the text is posted when the broker has a token, otherwise an error is logged.\<close>

definition stashInflux :: "bool \<Rightarrow> int \<Rightarrow> rope \<Rightarrow> broker \<Rightarrow> broker option" where
  "stashInflux token mid buf b = (case structMap b mid of
     None \<Rightarrow> Some b
   | Some st \<Rightarrow> if token then map_option (\<lambda>t. b\<lparr>posted := posted b @ [t]\<rparr>) (stashStruct st buf) else Some b)"

definition dispatchPacket :: "packet_ids \<Rightarrow> unpackers \<Rightarrow> bool \<Rightarrow> nat \<Rightarrow> int \<Rightarrow> rope \<Rightarrow> broker \<Rightarrow> broker option" where
  "dispatchPacket ids u token fd mid buf b0 = stashInflux token mid buf b0 \<bind> (\<lambda>b.
     if replaying b then Some (b\<lparr>attached_wantRead := False, replay_sent := replay_sent b @ [buf]\<rparr>)
     else if mid = Ping_ID ids then Some (recvPing b)
     else if mid = WantId_ID ids then recvWantId fd (unpack_WantId u buf) b
     else if mid = PacketType_ID ids then
       (case unpack_PacketType u buf of (name, numId, numFields, ds) \<Rightarrow> recvPacketType name numId numFields ds b)
     else resendPacket mid buf b)"

definition handleTimer :: "broker \<Rightarrow> broker" where
  "handleTimer b = (if replaying b then b\<lparr>attached_wantRead := True\<rparr> else b)"

section \<open>The ring of recent messages\<close>

text \<open>A ring of \<open>r\<close> places into which \<open>ms\<close> have gone, in order.\<close>

definition ring_of :: "nat \<Rightarrow> rope list \<Rightarrow> last_msgs \<Rightarrow> bool" where
  "ring_of r ms l \<longleftrightarrow> 0 < r \<and> last_retain l = int r \<and> length (last_msg l) = r
     \<and> last_dest l = int (length ms mod r) \<and> last_have l = int (min r (length ms))
     \<and> (\<forall>i < min r (length ms). last_msg l ! ((length ms - 1 - i) mod r) = ms ! (length ms - 1 - i))"

lemma smod_pos [simp]: "0 \<le> a \<Longrightarrow> 0 < b \<Longrightarrow> a smod b = (a :: int) mod b"
  by (simp add: signed_modulo_int_def sgn_if)

lemma smod_int: "0 < r \<Longrightarrow> int n smod int r = int (n mod r)"
  by (simp add: zmod_int)

lemma smod_Suc: "0 < r \<Longrightarrow> (int (n mod r) + 1) smod int r = int (Suc n mod r)"
  using smod_int [of r "Suc (n mod r)"] by (simp add: mod_Suc_eq add.commute)

lemma ring_of_new: "ring_of 1 [] (Last_new mid)"
  by (simp add: ring_of_def Last_new_def)

lemma mod_neq_near:
  assumes "i < r" "0 < (i :: nat)" "i \<le> n"
  shows "(n - i) mod r \<noteq> n mod r"
proof
  assume "(n - i) mod r = n mod r"
  then have "(n - (n - i)) mod r = 0" by (metis mod_eq_dvd_iff_nat diff_le_self dvd_eq_mod_eq_0)
  with assms show False by simp
qed

lemma ring_of_stash:
  assumes "ring_of r ms l"
  shows "\<exists>l'. stash_recent buf l = Some l' \<and> ring_of r (ms @ [buf]) l' \<and> last_msgId l' = last_msgId l"
proof -
  let ?n = "length ms"
  have r: "0 < r" "last_retain l = int r" "length (last_msg l) = r" "last_dest l = int (?n mod r)"
    "last_have l = int (min r ?n)"
    and old: "\<And>i. i < min r ?n \<Longrightarrow> last_msg l ! ((?n - 1 - i) mod r) = ms ! (?n - 1 - i)"
    using assms by (auto simp: ring_of_def)
  let ?l = "l\<lparr>last_msg := (last_msg l)[?n mod r := buf], last_dest := int (Suc ?n mod r),
     last_have := int (min r (Suc ?n))\<rparr>"
  have "stash_recent buf l = Some ?l"
    using r smod_Suc [OF r(1), of ?n] by (auto simp: stash_recent_def)
  moreover have "last_msg ?l ! ((?n - i) mod r) = (ms @ [buf]) ! (?n - i)" if i: "i < min r (Suc ?n)" for i
  proof (cases i)
    case 0
    with r show ?thesis by simp
  next
    case (Suc j)
    with i have "(?n - i) mod r \<noteq> ?n mod r" by (intro mod_neq_near) auto
    moreover have "?n - i < ?n" using Suc i by auto
    ultimately show ?thesis using old [of j] Suc i by (simp add: nth_append)
  qed
  ultimately show ?thesis
    using r by (auto simp: ring_of_def)
qed

lemma replay_loop_ok:
  assumes "ring_of r ms l" "k \<le> min r (length ms)"
  shows "replay_loop k (int ((length ms - k) mod r)) l = Some (drop (length ms - k) ms)"
  using assms(2)
proof (induction k)
  case (Suc k)
  let ?n = "length ms"
  have r: "0 < r" "last_retain l = int r" "length (last_msg l) = r"
    using assms(1) by (auto simp: ring_of_def)
  have "last_msg l ! ((?n - 1 - k) mod r) = ms ! (?n - 1 - k)"
    using assms(1) Suc.prems by (auto simp: ring_of_def)
  moreover have "(int ((?n - Suc k) mod r) + 1) smod int r = int ((?n - k) mod r)"
  proof -
    have "?n - k = Suc (?n - Suc k)" using Suc.prems by auto
    then show ?thesis using smod_Suc [OF r(1), of "?n - Suc k"] by simp
  qed
  moreover have "drop (?n - Suc k) ms = ms ! (?n - Suc k) # drop (?n - k) ms"
  proof -
    have "?n - Suc k < ?n" "Suc (?n - Suc k) = ?n - k" using Suc.prems by auto
    then show ?thesis using Cons_nth_drop_Suc [of "?n - Suc k" ms] by simp
  qed
  ultimately show ?case using Suc r by simp
qed simp

lemma replay_recent_ok:
  assumes "ring_of r ms l"
  shows "replay_recent l = Some (drop (length ms - r) ms)"
proof -
  let ?n = "length ms" and ?k = "min r (length ms)"
  have r: "0 < r" "last_retain l = int r" "last_dest l = int (?n mod r)" "last_have l = int ?k"
    using assms by (auto simp: ring_of_def)
  have "(last_dest l - last_have l + last_retain l) smod last_retain l = int ((?n - ?k) mod r)"
  proof -
    have "last_dest l - last_have l + last_retain l = int (?n mod r + (r - ?k))"
      using r by (simp add: of_nat_diff)
    moreover have "(?n mod r + (r - ?k)) mod r = (?n - ?k) mod r"
      by (cases "r \<le> ?n") (auto simp: mod_simps min_def le_mod_geq mod_less)
    ultimately show ?thesis using smod_int [OF r(1), of "?n mod r + (r - ?k)"] r(2) by metis
  qed
  with replay_loop_ok [OF assms, of ?k] r show ?thesis
    by (cases "r \<le> ?n") (auto simp: replay_recent_def min_def)
qed

text \<open>(C35) The ring keeps the most recent messages: after any messages have gone into a ring of \<open>r\<close>
  places none was written outside of it, and what it gives to a client that asks is the last \<open>r\<close> of
  them, or all when there are fewer, the oldest first.\<close>

theorem recent_messages_replayed:
  assumes "ring_of r [] l"
  shows "\<exists>l'. foldr (\<lambda>buf s. s \<bind> stash_recent buf) (rev ms) (Some l) = Some l'
    \<and> replay_recent l' = Some (drop (length ms - r) ms)"
proof -
  have "\<exists>l'. foldr (\<lambda>buf s. s \<bind> stash_recent buf) (rev ms) (Some l) = Some l' \<and> ring_of r ms l'"
  proof (induction ms rule: rev_induct)
    case (snoc m ms)
    then show ?case using ring_of_stash by fastforce
  qed (use assms in simp)
  then show ?thesis using replay_recent_ok by blast
qed

definition ring3 :: last_msgs where
  "ring3 = \<lparr>last_msgId = 9, last_retain = 3, last_msg = [[], [], []], last_dest = 0, last_have = 0\<rparr>"

theorem recent_messages_replayed_witness:
  "\<exists>l'. foldr (\<lambda>buf s. s \<bind> stash_recent buf) (rev [[[1]], [[2]], [[3]], [[4]]]) (Some ring3) = Some l'
    \<and> replay_recent l' = Some [[[2]], [[3]], [[4]]]"
  using recent_messages_replayed [of 3 ring3 "[[[1]], [[2]], [[3]], [[4]]]"]
  by (simp add: ring3_def ring_of_def)

text \<open>The number of messages to keep cannot be changed: \<open>recvSetRetain\<close> changes the count and not
  the array, so that with a larger count the second message that comes is written past its end.\<close>

lemma set_retain_overflows:
  assumes "connList b = []" "lastList b = [Last_new mid]" "1 < n"
  shows "recvSetRetain g mid n b \<bind> resendPacket mid buf \<bind> resendPacket mid buf' = None"
  using assms
  by (simp add: recvSetRetain_def resendPacket_def stash_recent_def Last_new_def Let_def)

lemma set_retain_overflows_witness:
  "recvSetRetain 0 5 2 ((broker_new False)\<lparr>lastList := [Last_new 5]\<rparr>)
     \<bind> resendPacket 5 [[1]] \<bind> resendPacket 5 [[2]] = None"
  using set_retain_overflows [of "(broker_new False)\<lparr>lastList := [Last_new 5]\<rparr>" 5 2 0 "[[1]]" "[[2]]"]
  by (simp add: broker_new_def)

section \<open>Publish and subscribe\<close>

datatype broker_event = Connect nat | Establish nat | Close nat | Receive nat int rope | Timer

fun broker_step :: "packet_ids \<Rightarrow> unpackers \<Rightarrow> bool \<Rightarrow> broker_event \<Rightarrow> broker \<Rightarrow> broker option" where
  "broker_step ids u token (Connect fd) b = Some (connectionFactory fd b)"
| "broker_step ids u token (Establish fd) b = Some (upd_client fd (\<lambda>c. c\<lparr>cl_established := True\<rparr>) b)"
| "broker_step ids u token (Close fd) b = Some (packetClosed fd b)"
| "broker_step ids u token (Receive fd mid buf) b = dispatchPacket ids u token fd mid buf b"
| "broker_step ids u token Timer b = Some (handleTimer b)"

abbreviation broker_run :: "packet_ids \<Rightarrow> unpackers \<Rightarrow> bool \<Rightarrow> broker_event list \<Rightarrow> broker \<Rightarrow> broker option" where
  "broker_run ids u token \<equiv> run_opt (broker_step ids u token)"

text \<open>The specification: the clients, and for each id the message received last.\<close>

record pubsub =
  ps_clients :: "client list"
  ps_latest :: "int \<rightharpoonup> rope"

definition ps_client :: "nat \<Rightarrow> (client \<Rightarrow> client) \<Rightarrow> pubsub \<Rightarrow> pubsub" where
  "ps_client fd f s = s\<lparr>ps_clients := map (\<lambda>c. if cl_fd c = fd then f c else c) (ps_clients s)\<rparr>"

definition ps_subscribe :: "nat \<Rightarrow> int \<Rightarrow> pubsub \<Rightarrow> pubsub" where
  "ps_subscribe fd w s = ps_client fd (\<lambda>c. send_to (case ps_latest s w of None \<Rightarrow> [] | Some r \<Rightarrow> [r])
     (c\<lparr>wantIds := insert w (wantIds c)\<rparr>)) s"

definition ps_publish :: "int \<Rightarrow> rope \<Rightarrow> pubsub \<Rightarrow> pubsub" where
  "ps_publish mid buf s = s\<lparr>ps_latest := (ps_latest s)(mid \<mapsto> buf),
     ps_clients := filter (\<lambda>c. \<not> brokerConnClosed c)
       (map (\<lambda>c. if wants mid c then send_to [buf] c else c) (ps_clients s))\<rparr>"

fun ps_step :: "packet_ids \<Rightarrow> unpackers \<Rightarrow> broker_event \<Rightarrow> pubsub \<Rightarrow> pubsub" where
  "ps_step ids u (Connect fd) s = s\<lparr>ps_clients := ps_clients s @ [client_new fd]\<rparr>"
| "ps_step ids u (Establish fd) s = ps_client fd (\<lambda>c. c\<lparr>cl_established := True\<rparr>) s"
| "ps_step ids u (Close fd) s = ps_client fd (\<lambda>c. c\<lparr>brokerConnClosed := True\<rparr>) s"
| "ps_step ids u (Receive fd mid buf) s =
     (if mid = Ping_ID ids then s
      else if mid = WantId_ID ids then ps_subscribe fd (unpack_WantId u buf) s
      else if mid = PacketType_ID ids then s
      else ps_publish mid buf s)"
| "ps_step ids u Timer s = s"

definition latest_in :: "last_msgs list \<Rightarrow> int \<rightharpoonup> rope" where
  "latest_in ls w = map_option (\<lambda>l. hd (last_msg l)) (find (\<lambda>l. last_msgId l = w) ls)"

definition broker_abs :: "broker \<Rightarrow> pubsub" where
  "broker_abs b = \<lparr>ps_clients = connList b, ps_latest = latest_in (lastList b)\<rparr>"

text \<open>Every entry keeps one message, and there is one entry for an id.\<close>

definition keeps_one :: "int \<times> rope \<Rightarrow> last_msgs" where
  "keeps_one = (\<lambda>(mid, m). \<lparr>last_msgId = mid, last_retain = 1, last_msg = [m], last_dest = 0, last_have = 1\<rparr>)"

definition broker_inv :: "broker \<Rightarrow> bool" where
  "broker_inv b \<longleftrightarrow> \<not> replaying b \<and> (\<exists>ps. distinct (map fst ps) \<and> lastList b = map keeps_one ps)"

lemma keeps_one_sel [simp]: "last_msgId (keeps_one p) = fst p" "last_msg (keeps_one p) = [snd p]"
  by (simp_all add: keeps_one_def split: prod.split)

lemma stash_one:
  "stash_recent buf (keeps_one p) = Some (keeps_one (fst p, buf))"
  "stash_recent buf (Last_new mid) = Some (keeps_one (mid, buf))"
  by (simp_all add: stash_recent_def keeps_one_def Last_new_def split: prod.split)

lemma replay_one: "replay_recent (keeps_one p) = Some [snd p]"
  by (simp add: replay_recent_def keeps_one_def split: prod.split)

lemma latest_in_keeps: "latest_in (map keeps_one ps) = map_of ps"
proof
  show "latest_in (map keeps_one ps) w = map_of ps w" for w
    by (induction ps) (auto simp: latest_in_def)
qed

lemma replay_all_keeps:
  assumes "distinct (map fst ps)"
  shows "replay_all w (map keeps_one ps) = Some (case map_of ps w of None \<Rightarrow> [] | Some m \<Rightarrow> [m])"
  using assms
proof (induction ps)
  case (Cons p ps)
  have "map_of ps (fst p) = None" using Cons.prems by (simp add: map_of_eq_None_iff)
  with Cons show ?case by (auto simp: replay_one)
qed simp

lemma upd_first_keeps:
  "upd_first (\<lambda>l. last_msgId l = mid) (stash_recent buf) (Last_new mid) (map keeps_one ps)
     = Some (map keeps_one (AList.update mid buf ps))"
  by (induction ps) (auto simp: stash_one)

section \<open>The refinement\<close>

lemma resend_refines:
  assumes "broker_inv b"
  shows "\<exists>b'. resendPacket mid buf b = Some b' \<and> broker_inv b' \<and> broker_abs b' = ps_publish mid buf (broker_abs b)"
proof -
  from assms obtain ps where ps: "distinct (map fst ps)" "lastList b = map keeps_one ps" "\<not> replaying b"
    by (auto simp: broker_inv_def)
  then show ?thesis
    by (auto simp: resendPacket_def Let_def upd_first_keeps broker_inv_def broker_abs_def ps_publish_def
        latest_in_keeps update_conv' distinct_update intro!: exI [of _ "AList.update mid buf ps"])
qed

lemma subscribe_refines:
  assumes "broker_inv b"
  shows "\<exists>b'. recvWantId fd w b = Some b' \<and> broker_inv b' \<and> broker_abs b' = ps_subscribe fd w (broker_abs b)"
proof -
  from assms obtain ps where ps: "distinct (map fst ps)" "lastList b = map keeps_one ps" "\<not> replaying b"
    by (auto simp: broker_inv_def)
  then show ?thesis
    by (auto simp: recvWantId_def replay_all_keeps broker_inv_def broker_abs_def ps_subscribe_def ps_client_def
        latest_in_keeps intro!: exI [of _ ps])
qed

lemma inv_same: "broker_inv b \<Longrightarrow> lastList b' = lastList b \<Longrightarrow> replaying b' = replaying b \<Longrightarrow> broker_inv b'"
  by (simp add: broker_inv_def)

end
