(* ===== verification/Broker_Text.thy ===== *)
theory Broker_Text
  imports Broker_Stash
begin

text \<open>
  What \<open>Broker_Stash\<close> reads and writes: a description is read back as it was sent, whatever its
  nesting; the text of a message is the line the database expects, for a list one line for each
  item; and where the escaping of strings is enough and where it is not.
\<close>

section \<open>Descriptions\<close>

text \<open>A field as the sender describes it: the items of a list follow, their number is its size.\<close>

fun describe :: "field \<Rightarrow> descriptor list" and describe_all :: "field list \<Rightarrow> descriptor list" where
  "describe (Field name tag ty sz off fs) =
     \<lparr>d_name = name, d_tag = tag, d_type = ty, d_size = sz, d_offset = off\<rparr> # describe_all fs"
| "describe_all [] = []"
| "describe_all (f # fs) = describe f @ describe_all fs"

fun field_ok :: "field \<Rightarrow> bool" where
  "field_ok (Field name tag ty sz off fs) \<longleftrightarrow>
     (if ty = FieldTypeList then sz = int (length fs) else fs = []) \<and> list_all field_ok fs"

definition last_list :: "field list \<Rightarrow> field option" where
  "last_list fs = find (\<lambda>f. f_type f = FieldTypeList) (rev fs)"

lemma last_list_Cons:
  "last_list (f # fs) = (case last_list fs of None \<Rightarrow> if f_type f = FieldTypeList then Some f else None | Some g \<Rightarrow> Some g)"
proof -
  have "find P (xs @ ys) = (case find P xs of None \<Rightarrow> find P ys | Some z \<Rightarrow> Some z)" for P :: "field \<Rightarrow> bool" and xs ys
    by (induction xs) auto
  then show ?thesis by (simp add: last_list_def split: option.split)
qed

lemma readStruct_total:
  "\<exists>fs lst ds'. readStruct n ds = Some (fs, lst, ds') \<and> length ds' \<le> length ds"
proof (induction "length ds" arbitrary: n ds rule: less_induct)
  case less
  show ?case
  proof (cases "0 < n \<and> ds \<noteq> []")
    case False
    then show ?thesis by (subst readStruct.simps) auto
  next
    case True
    then have lt: "length (tl ds) < length ds" by (cases ds) auto
    show ?thesis
    proof (cases "d_type (hd ds) = FieldTypeList")
      case list: True
      from less [OF lt] obtain items l ds1 where
        1: "readStruct (d_size (hd ds)) (tl ds) = Some (items, l, ds1)" "length ds1 \<le> length (tl ds)" by blast
      with lt less [of ds1 "n - 1"] obtain fs lst ds2 where
        "readStruct (n - 1) ds1 = Some (fs, lst, ds2)" "length ds2 \<le> length ds1" by fastforce
      with 1 True list lt show ?thesis by (subst readStruct.simps) (auto simp: Let_def)
    next
      case False
      from less [OF lt, of "n - 1"] obtain fs lst ds1 where
        "readStruct (n - 1) (tl ds) = Some (fs, lst, ds1)" "length ds1 \<le> length (tl ds)" by blast
      with True False lt show ?thesis by (subst readStruct.simps) auto
    qed
  qed
qed

lemma readStruct_describe:
  "field_ok f \<Longrightarrow> readStruct (int (length (listOf f))) (describe_all (listOf f) @ rest)
     = Some (listOf f, last_list (listOf f), rest)"
  "list_all field_ok fs \<Longrightarrow> readStruct (int (length fs)) (describe_all fs @ rest) = Some (fs, last_list fs, rest)"
proof (induction f and fs arbitrary: rest and rest rule: describe_describe_all.induct)
  case (1 name tag ty sz off fs)
  then show ?case by simp
next
  case 2
  then show ?case by (subst readStruct.simps) (simp add: last_list_def)
next
  case (3 f fs)
  obtain name tag ty sz off gs where f: "f = Field name tag ty sz off gs" by (cases f)
  let ?d = "\<lparr>d_name = name, d_tag = tag, d_type = ty, d_size = sz, d_offset = off\<rparr>"
  have ok: "field_ok f" "list_all field_ok fs" using "3.prems" by simp_all
  have tail: "readStruct (int (length fs)) (describe_all fs @ rest) = Some (fs, last_list fs, rest)"
    by (rule "3.IH"(2) [OF ok(2)])
  have df: "desc_field ?d gs = f" by (simp add: desc_field_def f)
  show ?case
  proof (cases "ty = FieldTypeList")
    case True
    with ok(1) have "readStruct sz (describe_all gs @ describe_all fs @ rest) = Some (gs, last_list gs, describe_all fs @ rest)"
      using "3.IH"(1) [OF ok(1), of "describe_all fs @ rest"] by (simp add: f)
    then show ?thesis
      using tail True df by (subst readStruct.simps) (simp add: f Let_def last_list_Cons split: option.split)
  next
    case False
    with ok(1) have "gs = []" by (simp add: f)
    then show ?thesis
      using tail False df by (subst readStruct.simps) (simp add: f last_list_Cons split: option.split)
  qed
qed

text \<open>(C33) The broker reads every description and reads it right: whatever descriptors arrive,
  \<open>readStruct\<close> ends; and the descriptors of a structure, with the items of each list following the
  list and nested to any depth, give back that structure, its last list field as the one whose
  items are written, and leave what follows unread.\<close>

theorem description_roundtrip:
  assumes "list_all field_ok fs"
  shows "packet_struct name ID (int (length fs)) (describe_all fs @ rest)
      = Some \<lparr>s_name = name, s_ID = ID, fieldList = fs, hasList = last_list fs\<rparr>
    \<and> (\<exists>st. packet_struct name ID n ds = Some st)"
  using readStruct_describe(2) [OF assms, of rest] readStruct_total [of n ds]
  by (auto simp: packet_struct_def)

theorem description_roundtrip_witness:
  "packet_struct ''m'' 7 2 (describe_all [Field ''l'' False FieldTypeList 1 4 [Field ''x'' True FieldTypeInt 4 0 []],
      Field ''y'' False FieldTypeBool 1 8 []])
    = Some \<lparr>s_name = ''m'', s_ID = 7,
        fieldList = [Field ''l'' False FieldTypeList 1 4 [Field ''x'' True FieldTypeInt 4 0 []], Field ''y'' False FieldTypeBool 1 8 []],
        hasList = Some (Field ''l'' False FieldTypeList 1 4 [Field ''x'' True FieldTypeInt 4 0 []])\<rparr>"
  using description_roundtrip [of "[Field ''l'' False FieldTypeList 1 4 [Field ''x'' True FieldTypeInt 4 0 []],
      Field ''y'' False FieldTypeBool 1 8 []]" "''m''" 7 "[]" 0 "[]"]
  by (simp add: last_list_def)

section \<open>Strings\<close>

text \<open>How the database reads a quoted string: a backslash takes away the meaning of a quote or a
  backslash after it.\<close>

fun read_quoted :: "string \<Rightarrow> (string \<times> string) option" where
  "read_quoted [] = None"
| "read_quoted (c # cs) =
     (if c = CHR 0x22 then Some ([], cs)
      else if c = CHR 0x5C then
        (case cs of
           [] \<Rightarrow> None
         | d # ds \<Rightarrow> if d = CHR 0x22 \<or> d = CHR 0x5C then map_option (\<lambda>(s, r). (d # s, r)) (read_quoted ds)
                     else map_option (\<lambda>(s, r). (c # s, r)) (read_quoted cs))
      else map_option (\<lambda>(s, r). (c # s, r)) (read_quoted cs))"

lemma read_escaped:
  "CHR 0x5C \<notin> set str \<Longrightarrow> read_quoted (lineProtocolStrEscape str @ rest)
     = map_option (\<lambda>(s, r). (str @ s, r)) (read_quoted rest)"
proof (induction str)
  case Nil
  then show ?case by (cases "read_quoted rest") auto
next
  case (Cons c str)
  then show ?case by (cases "read_quoted rest") auto
qed

text \<open>A string without a backslash is read back as it was, quotes and all; one that ends in a
  backslash runs over its closing quote into what follows, because backslashes are not escaped.\<close>

theorem escape_roundtrip:
  assumes "CHR 0x5C \<notin> set str"
  shows "read_quoted (tl (stash_quoted False str) @ rest) = Some (str, rest)
    \<and> read_quoted (tl (stash_quoted False (str @ [CHR 0x5C])) @ rest)
        = map_option (\<lambda>(s, r). (str @ CHR 0x22 # s, r)) (read_quoted rest)"
proof -
  have esc: "lineProtocolStrEscape (xs @ ys) = lineProtocolStrEscape xs @ lineProtocolStrEscape ys" for xs ys
    by (induction xs) auto
  show ?thesis
    using read_escaped [OF assms, of "CHR 0x22 # rest"] read_escaped [OF assms, of "CHR 0x5C # CHR 0x22 # rest"]
    by (cases "read_quoted rest") (auto simp: stash_quoted_def esc)
qed

theorem escape_roundtrip_witness:
  "read_quoted (tl (stash_quoted False ''a\"b'') @ '',x=1'') = Some (''a\"b'', '',x=1'')
   \<and> read_quoted (tl (stash_quoted False [CHR 0x5C]) @ '',x=1'') = None"
  using escape_roundtrip [of "''a\"b''" "'',x=1''"] escape_roundtrip [of "[]" "'',x=1''"] by simp

section \<open>Lines\<close>

text \<open>The value of a field as text; \<open>None\<close> when it cannot be read.\<close>

definition field_text :: "rope \<Rightarrow> nat \<Rightarrow> bool \<Rightarrow> field \<Rightarrow> string option" where
  "field_text r base tags f = (case f_type f of
     FieldTypeBool \<Rightarrow> map_option (\<lambda>b. if b \<noteq> 0 then ''t'' else ''f'') (read_uint 1 r base (f_offset f))
   | FieldTypeInt \<Rightarrow> map_option show_int (read_sint 4 r base (f_offset f))
   | FieldTypeUnsignedInt \<Rightarrow> map_option show_int (read_uint 4 r base (f_offset f))
   | FieldTypeLong \<Rightarrow> map_option show_int (read_sint 8 r base (f_offset f))
   | FieldTypeUnsignedLong \<Rightarrow> map_option show_int (read_uint 8 r base (f_offset f))
   | FieldTypeString \<Rightarrow> map_option (stash_quoted tags)
       (read_uint 4 r base (f_offset f) \<bind> (\<lambda>l. read_cstr r (nat l)))
   | _ \<Rightarrow> map_option (\<lambda>m. stash_quoted tags (to_chars m))
       (overlay r base (f_offset f) \<bind> char_array (f_size f)))"

definition is_written :: "bool \<Rightarrow> field \<Rightarrow> bool" where
  "is_written tags f \<longleftrightarrow> f_tag f = tags \<and> (case f_type f of FieldTypeList \<Rightarrow> False | FieldTypeOther _ \<Rightarrow> False | _ \<Rightarrow> True)"

definition pairs :: "rope \<Rightarrow> nat \<Rightarrow> bool \<Rightarrow> field list \<Rightarrow> string list option" where
  "pairs r base tags fs = those (map (\<lambda>f. map_option (\<lambda>v. f_name f @ ''='' @ v) (field_text r base tags f))
     (filter (is_written tags) fs))"

lemma pairs_Cons:
  "pairs r base tags (f # fs) = (if is_written tags f
     then do { v \<leftarrow> field_text r base tags f; ps \<leftarrow> pairs r base tags fs; Some ((f_name f @ ''='' @ v) # ps) }
     else pairs r base tags fs)"
  by (cases "field_text r base tags f") (simp_all add: pairs_def map_conv_bind_option comp_def)

lemma pairs_Nil: "pairs r base tags [] = Some []"
  by (simp add: pairs_def)

text \<open>The pairs, each after a comma but the first after \<open>sep\<close>.\<close>

fun join :: "char \<Rightarrow> string list \<Rightarrow> string" where
  "join sep [] = []"
| "join sep (p # ps) = sep # p @ join CHR '','' ps"

lemma join_append: "join sep (ps @ qs) = join sep ps @ join (if ps = [] then sep else CHR '','') qs"
  by (induction ps arbitrary: sep) auto

lemma stashField_text:
  "tags = f_tag f \<Longrightarrow> stashField (out, sep) base tags f r
     = (if is_written tags f
        then map_option (\<lambda>v. (out @ sep # f_name f @ ''='' @ v, CHR '','')) (field_text r base tags f)
        else Some (out, sep))"
  by (cases "f_type f")
    (simp_all add: stashField_def is_written_def field_text_def stash_kv_def stashBool_def stashInt_def
      stashUnsignedInt_def stashLong_def stashUnsignedLong_def stashString_def stashChar_def
      map_conv_bind_option comp_def)

lemma stashFieldList_text:
  "stashFieldList (out, sep) base tags fs r
     = map_option (\<lambda>ps. (out @ join sep ps, if ps = [] then sep else CHR '','')) (pairs r base tags fs)"
proof (induction fs arbitrary: out sep)
  case (Cons f fs)
  show ?case
  proof (cases "is_written tags f")
    case True
    then have "tags = f_tag f" by (simp add: is_written_def)
    with True stashField_text [of tags f out sep base r]
    have "stashFieldList (out, sep) base tags (f # fs) r = field_text r base tags f
        \<bind> (\<lambda>v. stashFieldList (out @ sep # f_name f @ ''='' @ v, CHR '','') base tags fs r)"
      by (simp add: map_conv_bind_option)
    with True show ?thesis by (simp add: Cons pairs_Cons map_conv_bind_option comp_def)
  next
    case False
    then have "(if tags = f_tag f then stashField (out, sep) base tags f r else Some (out, sep)) = Some (out, sep)"
      by (cases "tags = f_tag f") (simp_all add: stashField_text)
    with False show ?thesis by (simp add: Cons pairs_Cons)
  qed
qed (simp add: pairs_Nil)

text \<open>The line of a message: the name, the tags, a space, the fields.\<close>

definition line :: "string \<Rightarrow> string list \<Rightarrow> string list \<Rightarrow> string" where
  "line name ts vs = name @ join CHR '','' ts @ join CHR '' '' vs"

definition item_line :: "strct \<Rightarrow> field \<Rightarrow> rope \<Rightarrow> nat \<Rightarrow> string option" where
  "item_line st lst r item = do {
     a \<leftarrow> pairs r headerSize True (fieldList st);
     b \<leftarrow> pairs r item True (listOf lst);
     c \<leftarrow> pairs r headerSize False (fieldList st);
     d \<leftarrow> pairs r item False (listOf lst);
     Some (line (s_name st) (a @ b) (c @ d)) }"

text \<open>The items of a list in the message, from the offset of the first.\<close>

fun items_at :: "rope \<Rightarrow> nat \<Rightarrow> nat list \<Rightarrow> bool" where
  "items_at r item [] \<longleftrightarrow> item = 0"
| "items_at r item (i # is) \<longleftrightarrow> item = i \<and> i \<noteq> 0
     \<and> (case read_uint 4 r i 0 of None \<Rightarrow> False | Some n \<Rightarrow> items_at r (nat n) is)"

lemma stash_items_lines:
  "items_at r item is \<Longrightarrow> those (map (item_line st lst r) is) = Some ls
     \<Longrightarrow> stash_items st lst out item r = Some (out @ concat (map (\<lambda>l. l @ [CHR 0x0A]) ls))"
proof (induction "is" arbitrary: item ls out)
  case Nil
  then show ?case by (subst stash_items.simps) auto
next
  case (Cons i "is")
  then obtain n l ls' where n: "read_uint 4 r i 0 = Some n" "items_at r (nat n) is" "i \<noteq> 0" "item = i"
    and l: "item_line st lst r i = Some l" "those (map (item_line st lst r) is) = Some ls'" "ls = l # ls'"
    by (auto split: option.splits)
  from l(1) obtain a b c d where p: "pairs r headerSize True (fieldList st) = Some a"
    "pairs r i True (listOf lst) = Some b" "pairs r headerSize False (fieldList st) = Some c"
    "pairs r i False (listOf lst) = Some d" "l = line (s_name st) (a @ b) (c @ d)"
    by (auto simp: item_line_def split: bind_splits)
  from Cons.IH [OF n(2) l(2)] show ?case
    using n(1,3,4) p l(3)
    by (subst stash_items.simps) (simp add: stashFieldList_text line_def join_append)
qed

text \<open>(C32) A message is written as its lines: without a list it is one line, the name, then every tag
  after a comma, then a space and the other fields, with commas between them; with a list it is such
  a line for every item, in the order of the list, with the tags and fields of the message before
  those of the item. The loop over the items ends whenever the list in the message does.\<close>

theorem message_text:
  assumes "hasList st = None \<Longrightarrow> pairs r headerSize True (fieldList st) = Some ts \<and> pairs r headerSize False (fieldList st) = Some vs"
    and "\<And>lst. hasList st = Some lst \<Longrightarrow> (\<exists>item. read_uint 4 r headerSize (f_offset lst) = Some item \<and> items_at r (nat item) items)
       \<and> those (map (item_line st lst r) items) = Some ls"
  shows "stashStruct st r = Some (if hasList st = None then line (s_name st) ts vs
    else concat (map (\<lambda>l. l @ [CHR 0x0A]) ls))"
proof (cases "hasList st")
  case None
  with assms(1) show ?thesis by (simp add: stashStruct_def stashFieldList_text line_def)
next
  case (Some lst)
  with assms(2) [OF Some] show ?thesis
    by (auto simp: stashStruct_def stash_items_lines)
qed

definition demo_block :: "u8 list" where
  "demo_block = replicate 16 0 @ [28, 0, 0, 0] @ [5, 0, 0, 0] @ [0, 0, 0, 0]
     @ [36, 0, 0, 0, 7, 0, 0, 0] @ [0, 0, 0, 0, 9, 0, 0, 0]"

definition demo_strct :: strct where
  "demo_strct = (let lst = Field ''l'' False FieldTypeList 1 0 [Field ''x'' False FieldTypeInt 4 4 []] in
     \<lparr>s_name = ''m'', s_ID = 7, fieldList = [Field ''t'' True FieldTypeInt 4 4 [], lst], hasList = Some lst\<rparr>)"

lemmas text_eval = read_uint_def read_sint_def overlay_def pktFind_def demo_block_def get_sint_def get_uint.simps
  numeral_eq_Suc

lemma demo_reads:
  "read_uint 4 [demo_block] 16 0 = Some 28" "read_uint 4 [demo_block] 28 0 = Some 36"
  "read_uint 4 [demo_block] 36 0 = Some 0" "read_sint 4 [demo_block] 16 4 = Some 5"
  "read_sint 4 [demo_block] 28 4 = Some 7" "read_sint 4 [demo_block] 36 4 = Some 9"
  by code_simp+

lemma demo_digits: "show_int 5 = ''5''" "show_int 7 = ''7''" "show_int 9 = ''9''"
  by code_simp+

lemma demo_items:
  "item_line demo_strct (the (hasList demo_strct)) [demo_block] 28 = Some ''m,t=5 x=7''"
  "item_line demo_strct (the (hasList demo_strct)) [demo_block] 36 = Some ''m,t=5 x=9''"
  by (simp_all add: item_line_def demo_strct_def Let_def pairs_Cons pairs_Nil is_written_def field_text_def
      headerSize_def demo_reads demo_digits line_def)

theorem message_text_witness:
  "stashStruct demo_strct [demo_block] = Some (''m,t=5 x=7'' @ [CHR 0x0A] @ ''m,t=5 x=9'' @ [CHR 0x0A])"
proof -
  have lst: "hasList demo_strct \<noteq> None" by (simp add: demo_strct_def Let_def)
  have "stashStruct demo_strct [demo_block] = Some (if hasList demo_strct = None then line (s_name demo_strct) [] []
      else concat (map (\<lambda>l. l @ [CHR 0x0A]) [''m,t=5 x=7'', ''m,t=5 x=9'']))"
  proof (rule message_text [where items = "[28, 36]"])
    fix lst assume "hasList demo_strct = Some lst"
    with demo_items show "(\<exists>item. read_uint 4 [demo_block] headerSize (f_offset lst) = Some item
          \<and> items_at [demo_block] (nat item) [28, 36])
        \<and> those (map (item_line demo_strct lst [demo_block]) [28, 36]) = Some [''m,t=5 x=7'', ''m,t=5 x=9'']"
      by (auto simp: demo_reads headerSize_def) (auto simp: demo_strct_def Let_def demo_reads)
  qed (use lst in simp)
  with lst show ?thesis by auto
qed

end
