(* ===== verification/Broker_Pubsub.thy ===== *)
theory Broker_Pubsub
  imports Broker Broker_Text
begin

text \<open>
  The broker refines publish and subscribe: every run of \<open>Broker\<close> is a run of the specification
  \<open>pubsub\<close>, and what a subscriber gets follows from the messages alone.
\<close>

section \<open>Every event\<close>

lemma stashInflux_keeps:
  "stashInflux token mid buf b = Some b' \<Longrightarrow> connList b' = connList b \<and> lastList b' = lastList b \<and> replaying b' = replaying b"
  by (auto simp: stashInflux_def split: option.splits if_splits)

lemma recvPacketType_refines:
  assumes "broker_inv b"
  shows "\<exists>b'. recvPacketType name numId n ds b = Some b' \<and> broker_inv b' \<and> broker_abs b' = broker_abs b"
proof -
  obtain s where "packet_struct name numId n ds = Some s"
    using readStruct_total [of n ds] by (auto simp: packet_struct_def)
  then show ?thesis
    using assms by (auto simp: recvPacketType_def broker_abs_def broker_inv_def)
qed

lemma dispatch_refines:
  assumes "broker_inv b" "stashInflux token mid buf b = Some c"
  shows "\<exists>b'. dispatchPacket ids u token fd mid buf b = Some b' \<and> broker_inv b'
    \<and> broker_abs b' = ps_step ids u (Receive fd mid buf) (broker_abs b)"
proof -
  have c: "broker_inv c" "broker_abs c = broker_abs b" "\<not> replaying c"
    using stashInflux_keeps [OF assms(2)] assms(1) by (auto simp: broker_inv_def broker_abs_def)
  obtain name numId n ds where d: "unpack_PacketType u buf = (name, numId, n, ds)" by (cases "unpack_PacketType u buf")
  show ?thesis
    using resend_refines [OF c(1), of mid buf] subscribe_refines [OF c(1), of fd "unpack_WantId u buf"]
      recvPacketType_refines [OF c(1), of name numId n ds] c assms(2) d
    by (auto simp: dispatchPacket_def recvPing_def)
qed

lemma step_refines:
  assumes "broker_inv b"
  shows "(\<not> token \<longrightarrow> broker_step ids u token e b \<noteq> None)
    \<and> (\<forall>b'. broker_step ids u token e b = Some b' \<longrightarrow> broker_inv b' \<and> broker_abs b' = ps_step ids u e (broker_abs b))"
proof (cases e)
  case (Receive fd mid buf)
  show ?thesis
  proof (cases "stashInflux token mid buf b")
    case None
    then have token by (simp add: stashInflux_def split: option.splits if_splits)
    with None Receive show ?thesis by (simp add: dispatchPacket_def)
  next
    case (Some c)
    from dispatch_refines [OF assms Some, of ids u fd] Receive show ?thesis by auto
  qed
qed (use assms in \<open>auto simp: connectionFactory_def packetClosed_def handleTimer_def ps_client_def broker_abs_def broker_inv_def\<close>)

text \<open>Without a database no step crashes.\<close>

interpretation pubsub_sim: simulation "broker_step ids u False" "\<lambda>e a. Some (ps_step ids u e a)"
    "\<lambda>a b. broker_inv b \<and> broker_abs b = a" for ids u
proof
  fix a b e a'
  assume "broker_inv b \<and> broker_abs b = a" "Some (ps_step ids u e a) = Some a'"
  then show "\<exists>b'. broker_step ids u False e b = Some b' \<and> broker_inv b' \<and> broker_abs b' = a'"
    using step_refines [of b False ids u e] by auto
qed

lemma run_plain:
  "broker_inv b \<Longrightarrow> \<exists>b'. broker_run ids u False es b = Some b' \<and> broker_inv b' \<and> broker_abs b' = fold (ps_step ids u) es (broker_abs b)"
  using pubsub_sim.run_sim [of b "broker_abs b" ids u es] by (simp add: run_opt_total)


lemma broker_inv_new: "broker_inv (broker_new False)"
  by (simp add: broker_inv_def broker_new_def)

lemma broker_abs_new: "broker_abs (broker_new False) = \<lparr>ps_clients = [], ps_latest = Map.empty\<rparr>"
  by (simp add: broker_abs_def broker_new_def latest_in_def fun_eq_iff)


definition demo_ids :: packet_ids where
  "demo_ids = \<lparr>Ping_ID = 1, WantId_ID = 2, SetRetain_ID = 3, PacketType_ID = 4\<rparr>"

definition demo_unpack :: unpackers where
  "demo_unpack = \<lparr>unpack_WantId = (\<lambda>r. uint (hd (hd r))), unpack_PacketType = (\<lambda>r. ('''', 0, 0, []))\<rparr>"


section \<open>What a subscriber gets\<close>

text \<open>The messages with an id among the events.\<close>

fun message_of :: "packet_ids \<Rightarrow> int \<Rightarrow> broker_event \<Rightarrow> rope list" where
  "message_of ids w (Receive fd mid buf) =
     (if mid = w \<and> mid \<notin> {Ping_ID ids, WantId_ID ids, PacketType_ID ids} then [buf] else [])"
| "message_of ids w _ = []"

definition published :: "packet_ids \<Rightarrow> int \<Rightarrow> broker_event list \<Rightarrow> rope list" where
  "published ids w es = concat (map (message_of ids w) es)"

text \<open>The events that are not about the client \<open>fd\<close> itself.\<close>

fun leaves :: "packet_ids \<Rightarrow> nat \<Rightarrow> broker_event \<Rightarrow> bool" where
  "leaves ids fd (Connect f) \<longleftrightarrow> f \<noteq> fd"
| "leaves ids fd (Close f) \<longleftrightarrow> f \<noteq> fd"
| "leaves ids fd (Receive f mid buf) \<longleftrightarrow> f \<noteq> fd \<or> mid \<noteq> WantId_ID ids"
| "leaves ids fd _ \<longleftrightarrow> True"

abbreviation client_in :: "nat \<Rightarrow> client list \<Rightarrow> client list" where
  "client_in fd cs \<equiv> filter (\<lambda>c. cl_fd c = fd) cs"

lemma latest_published:
  "ps_latest (fold (ps_step ids u) es s) w
     = (if published ids w es = [] then ps_latest s w else Some (last (published ids w es)))"
proof (induction es rule: rev_induct)
  case (snoc e es)
  then show ?case
    by (cases e) (auto simp: published_def ps_client_def ps_subscribe_def ps_publish_def)
qed (simp add: published_def)

lemma client_in_map:
  assumes "\<And>c. cl_fd (f c) = cl_fd c"
  shows "client_in fd (map f cs) = map f (client_in fd cs)"
  by (induction cs) (simp_all add: assms)

lemma step_client:
  assumes "leaves ids fd e" "client_in fd (ps_clients s) = [c]" "cl_established c" "\<not> brokerConnClosed c"
    and "w \<notin> {Ping_ID ids, WantId_ID ids, PacketType_ID ids}" "wantIds c = {w}"
  shows "client_in fd (ps_clients (ps_step ids u e s)) = [send_to (message_of ids w e) c]"
proof -
  have "c \<in> set (client_in fd (ps_clients s))" by (simp add: assms(2))
  then have fd: "cl_fd c = fd" by simp
  have other: "client_in fd (map (\<lambda>c. if cl_fd c = f then g c else c) (ps_clients s)) = [c]"
    if "f \<noteq> fd" "\<And>c. cl_fd (g c) = cl_fd c" for f g
    using that assms(2) fd by (subst client_in_map) auto
  have send: "cl_fd (send_to rs c) = cl_fd c" "brokerConnClosed (send_to rs c) = brokerConnClosed c" for rs c
    by (simp_all add: send_to_def)
  have same: "send_to [] c = c" by (simp add: send_to_def)
  show ?thesis
  proof (cases e)
    case (Connect f)
    then show ?thesis using assms(1,2) same by (simp add: client_new_def)
  next
    case (Establish f)
    then show ?thesis
      using assms(2,3) same fd other [of f "\<lambda>c. c\<lparr>cl_established := True\<rparr>"]
      by (cases "f = fd") (auto simp: ps_client_def client_in_map)
  next
    case (Close f)
    then show ?thesis
      using assms(1) same other [of f "\<lambda>c. c\<lparr>brokerConnClosed := True\<rparr>"] by (simp add: ps_client_def)
  next
    case (Receive f mid buf)
    let ?pub = "map (\<lambda>c. if wants mid c then send_to [buf] c else c) (ps_clients s)"
    have "client_in fd (filter (\<lambda>c. \<not> brokerConnClosed c) ?pub) = filter (\<lambda>c. \<not> brokerConnClosed c) (client_in fd ?pub)"
      by (simp add: conj_commute)
    also have "client_in fd ?pub = [if mid = w then send_to [buf] c else c]"
      using assms(2-4,6) by (subst client_in_map) (auto simp: send wants_def)
    finally show ?thesis
      using Receive assms(1,2,4,5) same other [of f] send
      by (auto simp: ps_publish_def ps_subscribe_def ps_client_def)
  next
    case Timer
    then show ?thesis using assms(2) same by simp
  qed
qed

lemma run_client:
  assumes "list_all (leaves ids fd) es" "client_in fd (ps_clients s) = [c]" "cl_established c" "\<not> brokerConnClosed c"
    and "w \<notin> {Ping_ID ids, WantId_ID ids, PacketType_ID ids}" "wantIds c = {w}"
  shows "client_in fd (ps_clients (fold (ps_step ids u) es s)) = [send_to (published ids w es) c]"
  using assms(1-4,6)
proof (induction es arbitrary: s c)
  case Nil
  then show ?case by (simp add: published_def send_to_def)
next
  case (Cons e es)
  let ?c = "send_to (message_of ids w e) c"
  have "client_in fd (ps_clients (ps_step ids u e s)) = [?c]"
    using Cons.prems by (intro step_client [OF _ _ _ _ assms(5)]) auto
  moreover have "cl_established ?c" "\<not> brokerConnClosed ?c" "wantIds ?c = {w}"
    using Cons.prems by (simp_all add: send_to_def)
  ultimately show ?case
    using Cons.IH [of "ps_step ids u e s" ?c] Cons.prems(1) by (simp add: published_def send_to_def)
qed

text \<open>(C21) A subscriber misses nothing and gets nothing twice: a client that is connected and asks for
  the id \<open>w\<close> is sent at once the last message with that id that came before, if there was any, and
  from then on every message with that id, in the order in which the broker gets them, whatever the
  other clients do, as long as its own connection lasts and it asks for nothing else.\<close>

theorem subscriber_gets_all:
  assumes "broker_run ids u False es0 (broker_new False) = Some b" "client_in fd (connList b) = [c]"
    and "cl_established c" "\<not> brokerConnClosed c" "wantIds c = {}"
    and "w \<notin> {Ping_ID ids, WantId_ID ids, PacketType_ID ids}" "WantId_ID ids \<noteq> Ping_ID ids"
    and "unpack_WantId u req = w" "list_all (leaves ids fd) es"
  shows "\<exists>b' c'. broker_run ids u False (Receive fd (WantId_ID ids) req # es) b = Some b'
    \<and> client_in fd (connList b') = [c']
    \<and> cl_sent c' = cl_sent c @ (if published ids w es0 = [] then [] else [last (published ids w es0)])
        @ published ids w es"
proof -
  have inv: "broker_inv b" and abs: "broker_abs b = fold (ps_step ids u) es0 (broker_abs (broker_new False))"
    using run_plain [OF broker_inv_new, of ids u es0] assms(1) by auto
  let ?es = "Receive fd (WantId_ID ids) req # es"
  from run_plain [OF inv, of ids u ?es] obtain b' where
    b': "broker_run ids u False ?es b = Some b'" "broker_abs b' = fold (ps_step ids u) ?es (broker_abs b)" by auto
  let ?rs = "if published ids w es0 = [] then [] else [last (published ids w es0)]"
  have "ps_latest (broker_abs (broker_new False)) w = None"
    by (simp add: broker_abs_def broker_new_def latest_in_def)
  then have latest: "(case ps_latest (broker_abs b) w of None \<Rightarrow> [] | Some r \<Rightarrow> [r]) = ?rs"
    by (simp add: abs latest_published)
  let ?c = "send_to ?rs (c\<lparr>wantIds := {w}\<rparr>)"
  have "c \<in> set (client_in fd (connList b))" by (simp add: assms(2))
  then have "cl_fd c = fd" by simp
  then have "client_in fd (ps_clients (ps_step ids u (Receive fd (WantId_ID ids) req) (broker_abs b))) = [?c]"
    using assms(2,5,7,8) latest
    by (simp add: ps_subscribe_def ps_client_def client_in_map send_to_def) (simp add: broker_abs_def)
  from run_client [OF assms(9) this _ _ assms(6)] assms(3,4)
  have "client_in fd (ps_clients (broker_abs b')) = [send_to (published ids w es) ?c]"
    by (simp add: b'(2) send_to_def)
  with b'(1) show ?thesis by (simp add: broker_abs_def send_to_def)
qed

theorem subscriber_gets_all_witness:
  "\<exists>b b' c'. broker_run demo_ids demo_unpack False [Connect 5, Establish 5, Receive 6 9 [[1]], Receive 6 9 [[2]]] (broker_new False) = Some b
    \<and> broker_run demo_ids demo_unpack False [Receive 5 2 [[9]], Receive 7 8 [[0]], Receive 6 9 [[3]]] b = Some b'
    \<and> client_in 5 (connList b') = [c'] \<and> cl_sent c' = [[[2]], [[3]]]"
proof -
  let ?es0 = "[Connect 5, Establish 5, Receive 6 9 [[1]], Receive 6 9 [[2]]]"
  from run_plain [OF broker_inv_new, of demo_ids demo_unpack ?es0] obtain b where
    b: "broker_run demo_ids demo_unpack False ?es0 (broker_new False) = Some b"
    "broker_abs b = fold (ps_step demo_ids demo_unpack) ?es0 (broker_abs (broker_new False))" by auto
  then have "connList b = [(client_new 5)\<lparr>cl_established := True\<rparr>]"
    by (simp add: broker_abs_new) (simp add: broker_abs_def demo_ids_def ps_client_def ps_publish_def client_new_def wants_def)
  with subscriber_gets_all [OF b(1), of 5 "(client_new 5)\<lparr>cl_established := True\<rparr>" 9 "[[9]]"
      "[Receive 7 8 [[0]], Receive 6 9 [[3]]]"] b(1)
  show ?thesis
    by (simp add: client_new_def demo_ids_def demo_unpack_def published_def)
qed

end
