(* ===== verification/Parse_Dns.thy ===== *)
theory Parse_Dns
  imports Text_Bytes Parse_Vpt_Tree
begin

text \<open>
  The DNS parser, src/parse/dns.rl: its state machines as functions on positions in the packet, their
  actions as they stand. A position \<open>p\<close> is an index; the pointer \<open>pe\<close> is the length of the packet.
  A machine that runs out of input stops without an error, and its function returns \<open>pe\<close>; one
  that meets a byte it does not accept returns the null pointer, here the inner \<open>None\<close>. The
  outer \<open>None\<close> says that an array is overrun or that the code does not return. What is pushed
  into the value tree does not influence the parser, so the calls on the tree are its output.
\<close>

section \<open>Names\<close>

text \<open>
  \<open>copyName\<close> writes into a buffer of 256 bytes, which \<open>nb\<close> is filled with so far; the argument \<open>max\<close>
  is not used by the code. A byte from 64 to 191 makes the loop spin.
\<close>

definition pointer_off :: "u8 \<Rightarrow> u8 \<Rightarrow> nat" where
  "pointer_off hi lo = unat (push_bit 8 (ucast (hi AND 0x3f) :: u32) OR ucast lo)"

partial_function (option) copyName :: "u8 list \<Rightarrow> nat list \<Rightarrow> nat \<Rightarrow> u8 list \<Rightarrow> (int \<times> u8 list) option" where
  "copyName pk names ptr nb =
     (if ptr \<ge> length pk then None
      else let c = pk ! ptr in
        if c = 0 then (if length nb < 256 then Some (0, nb) else None)
        else if c \<le> 63 then
          (let pl = unat c;
               nb' = (if nb \<noteq> [] then nb @ [46] else nb) @ take pl (drop (ptr + 1) pk)
           in if ptr + 1 + pl > length pk \<or> length nb' > 256 then None
              else copyName pk names (ptr + 1 + pl) nb')
        else if c \<ge> 192 then
          (if ptr + 1 \<ge> length pk then None
           else let off = pointer_off c (pk ! (ptr + 1)) in
             if off \<in> set names then copyName pk names off nb else Some (- 1, []))
        else copyName pk names ptr nb)"

text \<open>The machine \<open>name\<close>: it ends at the position of its last byte.\<close>

datatype name_scan = NameEnd nat | NameMore | NameErr

function name_machine :: "u8 list \<Rightarrow> nat \<Rightarrow> name_scan" where
  "name_machine pk p =
     (if p \<ge> length pk then NameMore
      else let c = pk ! p in
        if c = 0 then NameEnd p
        else if c \<le> 63 then name_machine pk (p + 1 + unat c)
        else if c \<ge> 192 then (if p + 1 < length pk then NameEnd (p + 1) else NameMore)
        else NameErr)"
  by auto
termination by (relation "measure (\<lambda>(pk, p). length pk - p)") auto

declare name_machine.simps [simp del]

text \<open>The offsets of the parts of a name, which the action \<open>name_end\<close> registers.\<close>

function part_offs :: "u8 list \<Rightarrow> nat \<Rightarrow> nat list" where
  "part_offs pk s =
     (if s < length pk \<and> 1 \<le> pk ! s \<and> pk ! s \<le> 63 then s # part_offs pk (s + 1 + unat (pk ! s)) else [])"
  by auto
termination by (relation "measure (\<lambda>(pk, p). length pk - p)") auto

declare part_offs.simps [simp del]

text \<open>The action: the copy, unless \<open>namebuf\<close> is null, and the registration in an array of 32.\<close>

definition name_end :: "u8 list \<Rightarrow> nat \<Rightarrow> bool \<Rightarrow> nat list \<Rightarrow> (u8 list \<times> nat list) option" where
  "name_end pk name_start want names = do {
     nb \<leftarrow> (if want then map_option snd (copyName pk names name_start []) else Some []);
     let names' = names @ part_offs pk name_start;
     if length names' \<le> 32 then Some (nb, names') else None }"

text \<open>A name inside a record: where it ends, its text, and the names registered.\<close>

datatype 'a machine_out = Done 'a | More | Err

definition scan_name :: "u8 list \<Rightarrow> nat \<Rightarrow> bool \<Rightarrow> nat list \<Rightarrow> ((nat \<times> u8 list) machine_out \<times> nat list) option" where
  "scan_name pk p want names = (case name_machine pk p of
     NameMore \<Rightarrow> Some (More, names)
   | NameErr \<Rightarrow> Some (Err, names)
   | NameEnd q \<Rightarrow> map_option (\<lambda>(nb, names'). (Done (q + 1, nb), names')) (name_end pk p want names))"

section \<open>Records\<close>

type_synonym dns_out = "nat option \<times> nat list \<times> vpt_op list"

text \<open>A machine that stops early, and one that has read the bytes up to \<open>q\<close>.\<close>

definition dns_more :: "u8 list \<Rightarrow> nat list \<Rightarrow> dns_out" where
  "dns_more pk names = (Some (length pk), names, [])"

definition dns_read :: "u8 list \<Rightarrow> nat list \<Rightarrow> nat \<Rightarrow> vpt_op list \<Rightarrow> dns_out" where
  "dns_read pk names q ops = (if q \<le> length pk then (Some q, names, ops) else dns_more pk names)"

definition question :: "u8 list \<Rightarrow> nat \<Rightarrow> nat list \<Rightarrow> dns_out option" where
  "question pk p names = map_option (\<lambda>(r, names). case r of
       More \<Rightarrow> dns_more pk names | Err \<Rightarrow> (None, names, []) | Done (q, _) \<Rightarrow> dns_read pk names (q + 4) [])
     (scan_name pk p True names)"

text \<open>The texts are handed on as C strings.\<close>

definition SetName :: "u8 list \<Rightarrow> vpt_op" where
  "SetName nb = SetText (c_str (to_chars nb))"

definition rr_a_ops :: "u8 list \<Rightarrow> u8 list \<Rightarrow> vpt_op list" where
  "rr_a_ops name addr =
     [Push DnsRrA, Push DnsName, SetName name, Pop DnsName, Push DnsAddr, SetData addr, Pop DnsAddr, Pop DnsRrA]"

definition rr_cname_ops :: "u8 list \<Rightarrow> u8 list \<Rightarrow> vpt_op list" where
  "rr_cname_ops name cname =
     [Push DnsRrCname, Push DnsName, SetName name, Pop DnsName, Push DnsName, SetName cname, Pop DnsName, Pop DnsRrCname]"

text \<open>The second name of a record, after which it ends.\<close>

definition second_name :: "u8 list \<Rightarrow> nat \<Rightarrow> bool \<Rightarrow> nat list \<Rightarrow> (u8 list \<Rightarrow> vpt_op list) \<Rightarrow> dns_out option" where
  "second_name pk p want names ops = map_option (\<lambda>(r, names). case r of
       More \<Rightarrow> dns_more pk names | Err \<Rightarrow> (None, names, []) | Done (q, nb) \<Rightarrow> (Some q, names, ops nb))
     (scan_name pk p want names)"

definition rr_body :: "u8 list \<Rightarrow> nat \<Rightarrow> u8 list \<Rightarrow> nat list \<Rightarrow> dns_out option" where
  "rr_body pk t name names =
     (let d = t + 10;
          rdlength = unat (pk ! (t + 8)) * 256 + unat (pk ! (t + 9)) in
      if length pk < t + 2 then Some (dns_more pk names)
      else if pk ! t \<noteq> 0 \<or> pk ! (t + 1) \<notin> {1, 2, 5, 12, 15, 28} then
        (if length pk < d then Some (dns_more pk names)
         else if d - 1 + rdlength < length pk then Some (Some (d + rdlength), names, [])
         else Some (None, names, []))
      else if pk ! (t + 1) = 1 then Some (dns_read pk names (d + 4) (rr_a_ops name (take 4 (drop d pk))))
      else if pk ! (t + 1) = 28 then Some (dns_read pk names (d + 16) [Push DnsRrAAAA, Pop DnsRrAAAA])
      else if pk ! (t + 1) = 2 then second_name pk d False names (\<lambda>_. [])
      else if pk ! (t + 1) = 5 then second_name pk d True names (rr_cname_ops name)
      else if pk ! (t + 1) = 12 then second_name pk d True names (\<lambda>_. [])
      else second_name pk (d + 2) False names (\<lambda>_. []))"

definition resource_record :: "u8 list \<Rightarrow> nat \<Rightarrow> nat list \<Rightarrow> dns_out option" where
  "resource_record pk p names = do {
     (r, names) \<leftarrow> scan_name pk p True names;
     (case r of More \<Rightarrow> Some (dns_more pk names) | Err \<Rightarrow> Some (None, names, [])
      | Done (t, name) \<Rightarrow> rr_body pk t name names) }"

section \<open>Packets\<close>

text \<open>
  The counts and node types of the four sections stay in the parser from packet to packet; they
  are not set before the first header is read.
\<close>

type_synonym dns_sects = "(nat \<times> node_kind) list"

definition section_tree :: "node_kind list" where
  "section_tree = [DnsQuestion, DnsAnswer, DnsAuthority, DnsAdditional]"

definition dns_header :: "u8 list \<Rightarrow> dns_sects \<Rightarrow> nat \<times> dns_sects" where
  "dns_header pk sects = (min 12 (length pk),
     map (\<lambda>i. if 4 + 2 * (i + 1) \<le> length pk
               then (unat (pk ! (4 + 2 * i)) * 256 + unat (pk ! (5 + 2 * i)), section_tree ! i) else sects ! i) [0..<4])"

fun section_loop :: "(nat \<Rightarrow> nat list \<Rightarrow> dns_out option) \<Rightarrow> nat option \<Rightarrow> nat \<Rightarrow> nat list
    \<Rightarrow> (nat option \<times> nat \<times> nat list \<times> vpt_op list) option" where
  "section_loop parse None count names = Some (None, count, names, [])"
| "section_loop parse (Some p) 0 names = Some (Some p, 0, names, [])"
| "section_loop parse (Some p) (Suc count) names = do {
     (q, names, ops) \<leftarrow> parse p names;
     (q, count, names, ops') \<leftarrow> section_loop parse q count names;
     Some (q, count, names, ops @ ops') }"

fun dns_sections :: "u8 list \<Rightarrow> nat \<Rightarrow> nat option \<Rightarrow> dns_sects \<Rightarrow> nat list \<Rightarrow> (dns_sects \<times> vpt_op list) option" where
  "dns_sections pk s p [] names = Some ([], [])"
| "dns_sections pk s p ((count, tree) # sects) names =
     (if count > 0 then do {
        (p, count, names, ops) \<leftarrow> section_loop (if s = 0 then question pk else resource_record pk) p count names;
        (sects, ops') \<leftarrow> dns_sections pk (s + 1) p sects names;
        Some ((count, tree) # sects, Push tree # ops @ Pop tree # ops') }
      else map_option (\<lambda>(sects, ops). ((count, tree) # sects, ops)) (dns_sections pk (s + 1) p sects names))"

definition dns_data :: "u8 list \<Rightarrow> dns_sects \<Rightarrow> (dns_sects \<times> vpt_op list) option" where
  "dns_data pk sects =
     (let (p, sects) = dns_header pk sects in
      map_option (\<lambda>(sects, ops). (sects, Push DnsPacket # ops @ [Pop DnsPacket]))
        (dns_sections pk 0 (Some p) sects []))"


section \<open>What a name stands for\<close>

text \<open>
  A name in a packet by the standard: parts, up to a zero byte or a pointer to an earlier name.
  \<open>names\<close> are the offsets that a pointer may lead to.
\<close>

inductive dns_name :: "u8 list \<Rightarrow> nat list \<Rightarrow> nat \<Rightarrow> u8 list list \<Rightarrow> bool" for pk names where
  dns_root: "p < length pk \<Longrightarrow> pk ! p = 0 \<Longrightarrow> dns_name pk names p []"
| dns_part: "p < length pk \<Longrightarrow> 0 < pk ! p \<Longrightarrow> pk ! p \<le> 63 \<Longrightarrow> p + 1 + unat (pk ! p) \<le> length pk \<Longrightarrow>
    dns_name pk names (p + 1 + unat (pk ! p)) ls \<Longrightarrow> dns_name pk names p (take (unat (pk ! p)) (drop (p + 1) pk) # ls)"
| dns_pointer: "p + 1 < length pk \<Longrightarrow> 192 \<le> pk ! p \<Longrightarrow> pointer_off (pk ! p) (pk ! (p + 1)) \<in> set names \<Longrightarrow>
    dns_name pk names (pointer_off (pk ! p) (pk ! (p + 1))) ls \<Longrightarrow> dns_name pk names p ls"

fun dotted :: "u8 list list \<Rightarrow> u8 list" where
  "dotted [] = []"
| "dotted [l] = l"
| "dotted (l # ls) = l @ 46 # dotted ls"

text \<open>The parts written behind what the buffer holds.\<close>

fun glue :: "u8 list \<Rightarrow> u8 list list \<Rightarrow> u8 list" where
  "glue nb [] = nb"
| "glue nb (l # ls) = glue ((if nb \<noteq> [] then nb @ [46] else nb) @ l) ls"

lemma glue_length: "length nb \<le> length (glue nb ls)"
proof (induction nb ls rule: glue.induct)
  case (2 nb l ls)
  then show ?case by (auto split: if_splits)
qed simp

lemma glue_dotted: "nb \<noteq> [] \<Longrightarrow> ls \<noteq> [] \<Longrightarrow> glue nb ls = nb @ 46 # dotted ls"
proof (induction ls arbitrary: nb)
  case (Cons l ls)
  then show ?case using Cons.IH [of "nb @ 46 # l"] by (cases ls) auto
qed simp

lemma glue_Nil: "\<forall>l \<in> set ls. l \<noteq> [] \<Longrightarrow> glue [] ls = dotted ls"
proof (cases ls)
  case (Cons l ms)
  moreover assume "\<forall>l \<in> set ls. l \<noteq> []"
  ultimately show ?thesis using glue_dotted [of l ms] by (cases ms) auto
qed simp

lemma copyName_glue:
  assumes "dns_name pk names p ls" "length nb \<le> 256"
  shows "copyName pk names p nb = (if length (glue nb ls) < 256 then Some (0, glue nb ls) else None)"
  using assms
proof (induction arbitrary: nb)
  case (dns_root p)
  then show ?case by (subst copyName.simps) simp
next
  case (dns_part p ls)
  define nb' where "nb' = (if nb \<noteq> [] then nb @ [46] else nb) @ take (unat (pk ! p)) (drop (p + 1) pk)"
  have c: "pk ! p \<noteq> 0" using dns_part(2) by auto
  have step: "copyName pk names p nb =
      (if length nb' > 256 then None else copyName pk names (p + 1 + unat (pk ! p)) nb')"
    using dns_part(1,3,4) c by (subst copyName.simps) (auto simp: Let_def nb'_def)
  have g: "glue nb (take (unat (pk ! p)) (drop (p + 1) pk) # ls) = glue nb' ls" by (simp add: nb'_def)
  show ?case
    using dns_part.IH [of nb'] glue_length [of nb' ls] unfolding step g by auto
next
  case (dns_pointer p ls)
  have c: "pk ! p \<noteq> 0" "\<not> pk ! p \<le> 63" using dns_pointer(2) by (auto simp: word_le_nat_alt)
  have "copyName pk names p nb = copyName pk names (pointer_off (pk ! p) (pk ! (p + 1))) nb"
    using dns_pointer(1-3) c by (subst copyName.simps) (simp add: Let_def)
  then show ?case using dns_pointer.IH [OF dns_pointer.prems] by simp
qed

lemma dns_name_parts: "dns_name pk names p ls \<Longrightarrow> l \<in> set ls \<Longrightarrow> l \<noteq> []"
proof (induction rule: dns_name.induct)
  case (dns_part p ls)
  then have "0 < unat (pk ! p)" by (simp add: unat_gt_0)
  with dns_part show ?case by auto
qed auto

text \<open>
  A name is copied: whatever parts it has and wherever its pointers lead, \<open>copyName\<close> returns the parts
  with dots between them, if they fit the buffer with the terminator; if not, the buffer is overrun.
\<close>

lemma name_copied:
  assumes "dns_name pk names p ls"
  shows "copyName pk names p [] = (if length (dotted ls) < 256 then Some (0, dotted ls) else None)"
  using copyName_glue [OF assms, of "[]"] glue_Nil [of ls] dns_name_parts [OF assms] by simp

end
