(* ===== verification/Parse_Dns_Message.thy ===== *)
theory Parse_Dns_Message
  imports Parse_Dns
begin

text \<open>
  Messages of the standard and what the parser makes of them: an encoder that compresses names as
  servers do, and the round trip through \<open>dns_data\<close>.
\<close>

section \<open>Bytes at a position\<close>

definition bytes_at :: "u8 list \<Rightarrow> nat \<Rightarrow> u8 list \<Rightarrow> bool" where
  "bytes_at pk p bs \<longleftrightarrow> p + length bs \<le> length pk \<and> take (length bs) (drop p pk) = bs"

lemma bytes_at_Cons: "bytes_at pk p (b # bs) \<longleftrightarrow> p < length pk \<and> pk ! p = b \<and> bytes_at pk (Suc p) bs"
  by (auto simp: bytes_at_def take_Suc_conv_app_nth Cons_nth_drop_Suc [symmetric])

lemma bytes_at_append: "bytes_at pk p (as @ bs) \<longleftrightarrow> bytes_at pk p as \<and> bytes_at pk (p + length as) bs"
proof (induction as arbitrary: p)
  case Nil
  then show ?case by (auto simp: bytes_at_def)
next
  case (Cons a as)
  then show ?case by (simp add: bytes_at_Cons)
qed

lemma bytes_at_take: "bytes_at pk p bs \<Longrightarrow> take (length bs) (drop p pk) = bs"
  by (simp add: bytes_at_def)

lemma bytes_at_length: "bytes_at pk p bs \<Longrightarrow> p + length bs \<le> length pk"
  by (simp add: bytes_at_def)

lemma bytes_at_self: "bytes_at (as @ bs @ cs) (length as) bs"
  by (simp add: bytes_at_def)

section \<open>Names\<close>

text \<open>A table of the names written so far and where they are; a name is looked up from its front.\<close>

type_synonym name_table = "(u8 list list \<times> nat) list"

fun enc_name :: "name_table \<Rightarrow> nat \<Rightarrow> u8 list list \<Rightarrow> u8 list \<times> name_table" where
  "enc_name tbl p [] = ([0], [])"
| "enc_name tbl p (l # ls) = (case map_of tbl (l # ls) of
     Some off \<Rightarrow> ([192 + word_of_nat (off div 256), word_of_nat off], [])
   | None \<Rightarrow> (case enc_name tbl (p + 1 + length l) ls of
       (bs, new) \<Rightarrow> (word_of_nat (length l) # l @ bs, (l # ls, p) # new)))"

definition name_ok :: "u8 list list \<Rightarrow> bool" where
  "name_ok ls \<longleftrightarrow> (\<forall>l \<in> set ls. l \<noteq> [] \<and> length l \<le> 63) \<and> length (dotted ls) < 256"

definition table_ok :: "u8 list \<Rightarrow> name_table \<Rightarrow> bool" where
  "table_ok pk tbl \<longleftrightarrow> (\<forall>(ls, off) \<in> set tbl. off < 16384 \<and> dns_name pk (map snd tbl) off ls)"

lemma pointer_off_eq: "pointer_off hi lo = 256 * (unat hi mod 64) + unat lo"
proof -
  have hi: "uint (hi AND 0x3f) = uint hi mod 64"
    using take_bit_eq_mask [of 6 "uint hi"] by (simp add: uint_and mask_eq_exp_minus_1 take_bit_eq_mod)
  have lt: "uint lo < 256" using uint_lt2p [of lo] by simp
  have "concat_bit 8 (uint lo) (uint hi mod 64) = take_bit 8 (uint lo) + push_bit 8 (uint hi mod 64)"
    by (rule concat_bit_eq)
  moreover have "concat_bit 8 (uint lo) (uint hi mod 64) = take_bit 8 (uint lo) OR push_bit 8 (uint hi mod 64)"
    by (rule concat_bit_def)
  ultimately have or: "push_bit 8 (uint hi mod 64) OR uint lo = 256 * (uint hi mod 64) + uint lo"
    using lt by (simp add: push_bit_eq_mult take_bit_int_eq_self or.commute)
  have "uint (push_bit 8 (ucast (hi AND 0x3f) :: u32)) = push_bit 8 (uint hi mod 64)"
  proof -
    have u: "uint (ucast (hi AND 0x3f) :: u32) = uint hi mod 64"
      by (simp add: unsigned_ucast_eq take_bit_int_eq_self hi)
    have "uint (push_bit 8 (ucast (hi AND 0x3f) :: u32)) = take_bit 32 (push_bit 8 (uint (ucast (hi AND 0x3f) :: u32)))"
      using unsigned_push_bit_eq [of 8 "ucast (hi AND 0x3f) :: u32"]  by simp
    moreover have "0 \<le> uint hi mod 64 * 256 \<and> uint hi mod 64 * 256 < 2 ^ 32"
      using pos_mod_bound [of 64 "uint hi"] by simp
    ultimately show ?thesis unfolding u by (simp add: push_bit_eq_mult take_bit_int_eq_self)
  qed
  moreover have "uint (ucast lo :: u32) = uint lo"
    using lt by (simp add: unsigned_ucast_eq take_bit_int_eq_self)
  ultimately have "uint (push_bit 8 (ucast (hi AND 0x3f) :: u32) OR ucast lo) = 256 * (uint hi mod 64) + uint lo"
    by (simp only: uint_or or)
  then have "int (pointer_off hi lo) = int (256 * (unat hi mod 64) + unat lo)"
    by (simp add: pointer_off_def zmod_int)
  then show ?thesis by linarith
qed

lemma pointer_off_enc:
  assumes "off < 16384"
  shows "pointer_off (192 + word_of_nat (off div 256)) (word_of_nat off) = off"
    "192 \<le> (192 + word_of_nat (off div 256) :: u8)"
proof -
  have "(192 + word_of_nat (off div 256) :: u8) = word_of_nat (192 + off div 256)" by simp
  moreover have "192 + off div 256 < 256" using assms by linarith
  ultimately have hi: "unat (192 + word_of_nat (off div 256) :: u8) = 192 + off div 256"
    by (simp only: unat_of_nat) simp
  have "(192 + h) mod 64 = h" if "h < 64" for h :: nat
    using mod_mult_self2 [of h 64 3] that by (simp add: add.commute)
  moreover have "off div 256 < 64" using assms by (simp add: less_mult_imp_div_less)
  ultimately have "(192 + off div 256) mod 64 = off div 256" by blast
  then show "pointer_off (192 + word_of_nat (off div 256)) (word_of_nat off) = off"
    using hi by (simp add: pointer_off_eq unat_of_nat)
  show "192 \<le> (192 + word_of_nat (off div 256) :: u8)" using hi by (simp add: word_le_nat_alt)
qed

lemma dns_name_mono: "dns_name pk names p ls \<Longrightarrow> set names \<subseteq> set names' \<Longrightarrow> dns_name pk names' p ls"
proof (induction rule: dns_name.induct)
  case (dns_root p)
  then show ?case by (intro dns_name.dns_root)
next
  case (dns_part p ls)
  then show ?case by (intro dns_name.dns_part)
next
  case (dns_pointer p ls)
  from dns_pointer(3) dns_pointer.prems have "pointer_off (pk ! p) (pk ! (p + 1)) \<in> set names'" by (rule subsetD [rotated])
  then show ?case by (rule dns_name.dns_pointer [OF dns_pointer(1,2) _ dns_pointer.IH [OF dns_pointer.prems]])
qed

lemma enc_name_scanned:
  assumes "\<forall>l \<in> set ls. l \<noteq> [] \<and> length l \<le> 63" "enc_name tbl p ls = (bs, new)" "bytes_at pk p bs"
    "table_ok pk tbl" "length pk \<le> 16384"
  shows "bs \<noteq> [] \<and> name_machine pk p = NameEnd (p + length bs - 1) \<and> part_offs pk p = map snd new
    \<and> dns_name pk (map snd tbl) p ls \<and> (\<forall>(k, off) \<in> set new. off < 16384 \<and> dns_name pk (map snd tbl) off k)"
  using assms
proof (induction tbl p ls arbitrary: bs new rule: enc_name.induct)
  case (1 tbl p)
  then show ?case
    by (auto simp: bytes_at_Cons name_machine.simps [of pk p] part_offs.simps [of pk p] intro: dns_root)
next
  case (2 tbl p l ls)
  show ?case
  proof (cases "map_of tbl (l # ls)")
    case None
    then obtain cs new' where e: "enc_name tbl (p + 1 + length l) ls = (cs, new')"
      and bs: "bs = word_of_nat (length l) # l @ cs" "new = (l # ls, p) # new'"
      using "2.prems"(2) by (auto split: prod.splits)
    have len: "unat (word_of_nat (length l) :: u8) = length l" using "2.prems"(1) by (simp add: unat_of_nat)
    have c: "(word_of_nat (length l) :: u8) \<noteq> 0" "0 < (word_of_nat (length l) :: u8)" "1 \<le> (word_of_nat (length l) :: u8)" "(word_of_nat (length l) :: u8) \<le> 63"
      using "2.prems"(1) len by (auto simp: word_le_nat_alt word_less_nat_alt Suc_le_eq simp flip: unat_eq_0)
    have at: "p < length pk" "pk ! p = word_of_nat (length l)" "bytes_at pk (Suc p) l" "bytes_at pk (p + 1 + length l) cs"
      using "2.prems"(3) by (auto simp: bs bytes_at_Cons bytes_at_append)
    have IH: "cs \<noteq> [] \<and> name_machine pk (p + 1 + length l) = NameEnd (p + 1 + length l + length cs - 1) \<and> part_offs pk (p + 1 + length l) = map snd new'
        \<and> dns_name pk (map snd tbl) (p + 1 + length l) ls \<and> (\<forall>(k, off) \<in> set new'. off < 16384 \<and> dns_name pk (map snd tbl) off k)"
      using "2.IH" [OF None _ e at(4)] "2.prems"(1,4,5) by simp
    have "dns_name pk (map snd tbl) p (take (unat (pk ! p)) (drop (p + 1) pk) # ls)"
      using IH c len at bytes_at_length [OF at(3)] by (intro dns_part) auto
    then have name: "dns_name pk (map snd tbl) p (l # ls)" using bytes_at_take [OF at(3)] at(2) len by simp
    show ?thesis
      using IH at c len name "2.prems"(5)
      by (auto simp: bs name_machine.simps [of pk p] part_offs.simps [of pk p] Let_def)
  next
    case (Some off)
    then have bs: "bs = [192 + word_of_nat (off div 256), word_of_nat off]" "new = []" using "2.prems"(2) by auto
    from Some have mem: "(l # ls, off) \<in> set tbl" by (rule map_of_SomeD)
    with "2.prems"(4) have off: "off < 16384" "dns_name pk (map snd tbl) off (l # ls)" by (auto simp: table_ok_def)
    have at: "p + 1 < length pk" "pk ! p = 192 + word_of_nat (off div 256)" "pk ! (p + 1) = word_of_nat off"
      using "2.prems"(3) by (auto simp: bs bytes_at_Cons)
    have ge: "192 \<le> pk ! p" using pointer_off_enc(2) [OF off(1)] at(2) by simp
    then have n: "pk ! p \<noteq> 0" "\<not> pk ! p \<le> 63" by (auto simp: word_le_nat_alt)
    have ptr: "pointer_off (pk ! p) (pk ! (p + 1)) = off" using pointer_off_enc(1) [OF off(1)] at by simp
    have "off \<in> set (map snd tbl)" using mem by force
    then have "dns_name pk (map snd tbl) p (l # ls)"
      using dns_pointer [OF at(1) ge, of "map snd tbl" "l # ls"] off(2) unfolding ptr by blast
    then show ?thesis
      using at(1) ge n by (simp add: bs(2) name_machine.simps [of pk p] part_offs.simps [of pk p] Let_def) (simp add: bs)
  qed
qed

lemma scan_name_enc:
  assumes "name_ok ls" "enc_name tbl p ls = (bs, new)" "bytes_at pk p bs" "table_ok pk tbl" "length pk \<le> 16384"
    "length tbl + length new \<le> 32"
  shows "scan_name pk p want (map snd tbl) = Some (Done (p + length bs, if want then dotted ls else []), map snd (tbl @ new))"
    "table_ok pk (tbl @ new)"
proof -
  have s: "bs \<noteq> []" "name_machine pk p = NameEnd (p + length bs - 1)" "part_offs pk p = map snd new"
      "dns_name pk (map snd tbl) p ls" "\<forall>(k, off) \<in> set new. off < 16384 \<and> dns_name pk (map snd tbl) off k"
    using enc_name_scanned [OF _ assms(2-5)] assms(1) by (auto simp: name_ok_def)
  have "copyName pk (map snd tbl) p [] = Some (0, dotted ls)"
    using name_copied [OF s(4)] assms(1) by (simp add: name_ok_def)
  then show "scan_name pk p want (map snd tbl) = Some (Done (p + length bs, if want then dotted ls else []), map snd (tbl @ new))"
    using s(1-3) assms(6) by (cases bs) (simp_all add: scan_name_def name_end_def)
  show "table_ok pk (tbl @ new)"
    using assms(4) s(5) unfolding table_ok_def by (fastforce intro: dns_name_mono [where names = "map snd tbl"])
qed

section \<open>Items of a section\<close>

text \<open>
  What questions and records have in common: an item written at a position is read from there up to its
  end, announced, and its names are added to the table. A section is then read whole.
\<close>

fun enc_list :: "(name_table \<Rightarrow> nat \<Rightarrow> 'i \<Rightarrow> u8 list \<times> name_table) \<Rightarrow> name_table \<Rightarrow> nat \<Rightarrow> 'i list \<Rightarrow> u8 list \<times> name_table" where
  "enc_list enc tbl p [] = ([], [])"
| "enc_list enc tbl p (i # is) = (case enc tbl p i of (bs, new) \<Rightarrow>
     (case enc_list enc (tbl @ new) (p + length bs) is of (cs, new') \<Rightarrow> (bs @ cs, new @ new')))"

locale dns_item =
  fixes enc :: "name_table \<Rightarrow> nat \<Rightarrow> 'i \<Rightarrow> u8 list \<times> name_table"
    and parse :: "u8 list \<Rightarrow> nat \<Rightarrow> nat list \<Rightarrow> dns_out option"
    and ok :: "'i \<Rightarrow> bool" and ops :: "'i \<Rightarrow> vpt_op list"
  assumes item_read: "ok i \<Longrightarrow> enc tbl p i = (bs, new) \<Longrightarrow> bytes_at pk p bs \<Longrightarrow> table_ok pk tbl \<Longrightarrow>
      length pk \<le> 16384 \<Longrightarrow> length tbl + length new \<le> 32 \<Longrightarrow>
      parse pk p (map snd tbl) = Some (Some (p + length bs), map snd (tbl @ new), ops i) \<and> table_ok pk (tbl @ new)"
begin

lemma items_read:
  assumes "list_all ok is" "enc_list enc tbl p is = (bs, new)" "bytes_at pk p bs" "table_ok pk tbl"
    "length pk \<le> 16384" "length tbl + length new \<le> 32"
  shows "section_loop (parse pk) (Some p) (length is) (map snd tbl)
      = Some (Some (p + length bs), 0, map snd (tbl @ new), concat (map ops is)) \<and> table_ok pk (tbl @ new)"
  using assms
proof (induction "is" arbitrary: tbl p bs new)
  case (Cons i "is")
  obtain as n1 cs n2 where e: "enc tbl p i = (as, n1)" "enc_list enc (tbl @ n1) (p + length as) is = (cs, n2)"
    by (metis surj_pair)
  with Cons.prems(2) have bs: "bs = as @ cs" "new = n1 @ n2" by auto
  have at: "bytes_at pk p as" "bytes_at pk (p + length as) cs" using Cons.prems(3) by (auto simp: bs bytes_at_append)
  have one: "parse pk p (map snd tbl) = Some (Some (p + length as), map snd (tbl @ n1), ops i)" "table_ok pk (tbl @ n1)"
    using item_read [OF _ e(1) at(1) Cons.prems(4,5)] Cons.prems(1,6) by (auto simp: bs)
  have "section_loop (parse pk) (Some (p + length as)) (length is) (map snd (tbl @ n1))
      = Some (Some (p + length as + length cs), 0, map snd ((tbl @ n1) @ n2), concat (map ops is)) \<and> table_ok pk ((tbl @ n1) @ n2)"
    using Cons.IH [OF _ e(2) at(2) one(2) Cons.prems(5)] Cons.prems(1,6) by (simp add: bs)
  with one(1) show ?case by (simp add: bs add.assoc)
qed simp

lemma section_read:
  assumes "list_all ok is" "enc_list enc tbl p is = (bs, new)" "bytes_at pk p bs" "table_ok pk tbl"
    "length pk \<le> 16384" "length tbl + length new \<le> 32" and parse: "(if s = 0 then question pk else resource_record pk) = parse pk"
  shows "dns_sections pk s (Some p) ((length is, tree) # sects) (map snd tbl) =
      map_option (\<lambda>(ss, os). ((0, tree) # ss, (if is = [] then [] else Push tree # concat (map ops is) @ [Pop tree]) @ os))
        (dns_sections pk (s + 1) (Some (p + length bs)) sects (map snd (tbl @ new)))"
  using items_read [OF assms(1-6)] assms(2) by (auto simp: parse map_option_case split: option.splits)

end

section \<open>Questions and records\<close>

type_synonym dns_question = "u8 list list \<times> u8 list"

definition enc_question :: "name_table \<Rightarrow> nat \<Rightarrow> dns_question \<Rightarrow> u8 list \<times> name_table" where
  "enc_question tbl p q = (case enc_name tbl p (fst q) of (bs, new) \<Rightarrow> (bs @ snd q, new))"

definition question_ok :: "dns_question \<Rightarrow> bool" where
  "question_ok q \<longleftrightarrow> name_ok (fst q) \<and> length (snd q) = 4"

interpretation questions: dns_item enc_question question question_ok "\<lambda>_. []"
proof
  fix i tbl p bs new pk
  assume a: "question_ok i" "enc_question tbl p i = (bs, new)" "bytes_at pk p bs" "table_ok pk tbl" "length pk \<le> 16384" "length tbl + length new \<le> 32"
  obtain cs where cs: "enc_name tbl p (fst i) = (cs, new)" "bs = cs @ snd i"
    using a(2) by (auto simp: enc_question_def split: prod.splits)
  have at: "bytes_at pk p cs" "p + length cs + 4 \<le> length pk"
    using a(1,3) by (auto simp: cs bytes_at_append question_ok_def dest: bytes_at_length)
  have "name_ok (fst i)" using a(1) by (simp add: question_ok_def)
  from scan_name_enc [OF this cs(1) at(1) a(4,5,6)] at(2) a(1)
  show "question pk p (map snd tbl) = Some (Some (p + length bs), map snd (tbl @ new), []) \<and> table_ok pk (tbl @ new)"
    by (simp add: question_def dns_read_def cs(2) question_ok_def)
qed

text \<open>A record: its name, class and lifetime, and its data by type.\<close>

datatype rdata = Rd_A "u8 list" | Rd_NS "u8 list list" | Rd_CNAME "u8 list list" | Rd_PTR "u8 list list"
  | Rd_MX "u8 list" "u8 list list" | Rd_AAAA "u8 list" | Rd_other u8 u8 "u8 list"

type_synonym dns_rr = "u8 list list \<times> u8 list \<times> rdata"

fun rd_type :: "rdata \<Rightarrow> u8 list" where
  "rd_type (Rd_A _) = [0, 1]"
| "rd_type (Rd_NS _) = [0, 2]"
| "rd_type (Rd_CNAME _) = [0, 5]"
| "rd_type (Rd_PTR _) = [0, 12]"
| "rd_type (Rd_MX _ _) = [0, 15]"
| "rd_type (Rd_AAAA _) = [0, 28]"
| "rd_type (Rd_other hi lo _) = [hi, lo]"

fun enc_rdata :: "name_table \<Rightarrow> nat \<Rightarrow> rdata \<Rightarrow> u8 list \<times> name_table" where
  "enc_rdata tbl d (Rd_A addr) = (addr, [])"
| "enc_rdata tbl d (Rd_NS ls) = enc_name tbl d ls"
| "enc_rdata tbl d (Rd_CNAME ls) = enc_name tbl d ls"
| "enc_rdata tbl d (Rd_PTR ls) = enc_name tbl d ls"
| "enc_rdata tbl d (Rd_MX pref ls) = (case enc_name tbl (d + 2) ls of (bs, new) \<Rightarrow> (pref @ bs, new))"
| "enc_rdata tbl d (Rd_AAAA addr) = (addr, [])"
| "enc_rdata tbl d (Rd_other hi lo bs) = (bs, [])"

fun rdata_ok :: "rdata \<Rightarrow> bool" where
  "rdata_ok (Rd_A addr) = (length addr = 4)"
| "rdata_ok (Rd_NS ls) = name_ok ls"
| "rdata_ok (Rd_CNAME ls) = name_ok ls"
| "rdata_ok (Rd_PTR ls) = name_ok ls"
| "rdata_ok (Rd_MX pref ls) = (length pref = 2 \<and> name_ok ls)"
| "rdata_ok (Rd_AAAA addr) = (length addr = 16)"
| "rdata_ok (Rd_other hi lo bs) = (hi \<noteq> 0 \<or> lo \<notin> {1, 2, 5, 12, 15, 28})"

definition put16 :: "nat \<Rightarrow> u8 list" where
  "put16 n = [word_of_nat (n div 256), word_of_nat n]"

definition enc_rr :: "name_table \<Rightarrow> nat \<Rightarrow> dns_rr \<Rightarrow> u8 list \<times> name_table" where
  "enc_rr tbl p rr = (case rr of (nm, meta, rd) \<Rightarrow>
     (case enc_name tbl p nm of (bs, new) \<Rightarrow>
        (case enc_rdata (tbl @ new) (p + length bs + 10) rd of (cs, new') \<Rightarrow>
           (bs @ rd_type rd @ meta @ put16 (length cs) @ cs, new @ new'))))"

definition rr_ok :: "dns_rr \<Rightarrow> bool" where
  "rr_ok rr = (case rr of (nm, meta, rd) \<Rightarrow> name_ok nm \<and> length meta = 6 \<and> rdata_ok rd)"

definition rr_ops :: "dns_rr \<Rightarrow> vpt_op list" where
  "rr_ops rr = (case rr of (nm, meta, rd) \<Rightarrow> (case rd of
     Rd_A addr \<Rightarrow> rr_a_ops (dotted nm) addr
   | Rd_CNAME ls \<Rightarrow> rr_cname_ops (dotted nm) (dotted ls)
   | Rd_AAAA addr \<Rightarrow> [Push DnsRrAAAA, Pop DnsRrAAAA]
   | _ \<Rightarrow> []))"

lemma length_put16 [simp]: "length (put16 n) = 2"
  by (simp add: put16_def)

lemma put16_value: "n < 65536 \<Longrightarrow> unat (word_of_nat (n div 256) :: u8) * 256 + unat (word_of_nat n :: u8) = n"
  by (simp add: unat_of_nat)

lemma second_name_enc:
  assumes "name_ok ls" "enc_name tbl p ls = (bs, new)" "bytes_at pk p bs" "table_ok pk tbl" "length pk \<le> 16384"
    "length tbl + length new \<le> 32"
  shows "second_name pk p want (map snd tbl) ops = Some (Some (p + length bs), map snd (tbl @ new), ops (if want then dotted ls else []))"
  using scan_name_enc(1) [OF assms] by (simp add: second_name_def)

lemma rr_body_read:
  assumes rd: "rdata_ok rd" "enc_rdata tbl (t + 10) rd = (cs, new)" and meta: "length meta = 6"
    and at: "bytes_at pk t (rd_type rd @ meta @ put16 (length cs) @ cs)"
    and tbl: "table_ok pk tbl" "length pk \<le> 16384" "length tbl + length new \<le> 32"
  shows "rr_body pk t (dotted nm) (map snd tbl) = Some (Some (t + 10 + length cs), map snd (tbl @ new), rr_ops (nm, meta, rd))"
    "table_ok pk (tbl @ new)"
proof -
  have two: "length (rd_type rd) = 2" by (cases rd) auto
  have d: "bytes_at pk (t + 10) cs" "bytes_at pk (t + 8) (put16 (length cs))" "bytes_at pk t (rd_type rd)"
    using at meta two by (simp_all add: bytes_at_append ac_simps)
  have len: "t + 10 + length cs \<le> length pk" using bytes_at_length [OF d(1)] .
  have ty: "[pk ! t, pk ! (t + 1)] = rd_type rd" using d(3) by (cases rd) (auto simp: bytes_at_Cons)
  have nine: "t + 9 = Suc (t + 8)" by simp
  have rl: "unat (pk ! (t + 8)) * 256 + unat (pk ! (t + 9)) = length cs"
    using d(2) put16_value [of "length cs"] len tbl(2) unfolding nine by (simp add: put16_def bytes_at_Cons)
  have short: "\<not> length pk < t + 2" "\<not> length pk < t + 10" "t + 10 - 1 + length cs < length pk" using len by auto
  have take: "take (length cs) (drop (t + 10) pk) = cs" using bytes_at_take [OF d(1)] .
  note second = second_name_enc [OF _ _ _ tbl(1,2)] and ok = scan_name_enc(2) [OF _ _ _ tbl(1,2)]
  have "rr_body pk t (dotted nm) (map snd tbl) = Some (Some (t + 10 + length cs), map snd (tbl @ new), rr_ops (nm, meta, rd))
    \<and> table_ok pk (tbl @ new)"
  proof (cases rd)
    case (Rd_MX pref ls)
    obtain ds where ds: "enc_name tbl (t + 10 + 2) ls = (ds, new)" "cs = pref @ ds"
      using rd(2) Rd_MX by (auto split: prod.splits)
    have at: "bytes_at pk (t + 10 + 2) ds" using d(1) rd(1) by (simp add: ds(2) Rd_MX bytes_at_append)
    have "name_ok ls" "length pref = 2" using rd(1) Rd_MX by auto
    with second [OF this(1) ds(1) at tbl(3)] ok [OF this(1) ds(1) at tbl(3)] ty short show ?thesis
      by (simp add: Rd_MX rr_body_def rr_ops_def ds(2))
  next
    case (Rd_other hi lo bs)
    then show ?thesis using rd ty short tbl(1) rl by (auto simp: rr_body_def rr_ops_def Let_def)
  next
    case (Rd_NS ls)
    then show ?thesis
      using second [of ls _ cs new False "\<lambda>_. []"] ok [of ls _ cs new] rd d(1) tbl(3) ty short by (simp add: rr_body_def rr_ops_def)
  next
    case (Rd_PTR ls)
    then show ?thesis
      using second [of ls _ cs new True "\<lambda>_. []"] ok [of ls _ cs new] rd d(1) tbl(3) ty short by (simp add: rr_body_def rr_ops_def)
  next
    case (Rd_CNAME ls)
    then show ?thesis
      using second [of ls _ cs new True "rr_cname_ops (dotted nm)"] ok [of ls _ cs new] rd d(1) tbl(3) ty short by (simp add: rr_body_def rr_ops_def)
  next
    case (Rd_A addr)
    then show ?thesis using rd take len ty short tbl(1) by (simp add: rr_body_def rr_ops_def dns_read_def)
  next
    case (Rd_AAAA addr)
    then show ?thesis using rd len ty short tbl(1) by (simp add: rr_body_def rr_ops_def dns_read_def)
  qed
  then show "rr_body pk t (dotted nm) (map snd tbl) = Some (Some (t + 10 + length cs), map snd (tbl @ new), rr_ops (nm, meta, rd))"
    and "table_ok pk (tbl @ new)" by auto
qed

interpretation records: dns_item enc_rr resource_record rr_ok rr_ops
proof
  fix i tbl p bs new pk
  assume a: "rr_ok i" "enc_rr tbl p i = (bs, new)" "bytes_at pk p bs" "table_ok pk tbl" "length pk \<le> 16384" "length tbl + length new \<le> 32"
  obtain nm meta rd where i: "i = (nm, meta, rd)" by (cases i)
  obtain as n1 cs n2 where e: "enc_name tbl p nm = (as, n1)" "enc_rdata (tbl @ n1) (p + length as + 10) rd = (cs, n2)"
    by (metis surj_pair)
  with a(2) have bs: "bs = as @ rd_type rd @ meta @ put16 (length cs) @ cs" "new = n1 @ n2" by (auto simp: enc_rr_def i)
  have at: "bytes_at pk p as" "bytes_at pk (p + length as) (rd_type rd @ meta @ put16 (length cs) @ cs)"
    using a(3) unfolding bs(1) by (simp_all only: bytes_at_append)
  have ok: "name_ok nm" "length meta = 6" "rdata_ok rd" using a(1) by (simp_all add: rr_ok_def i)
  have n1: "length tbl + length n1 \<le> 32" using a(6) bs(2) by simp
  note name = scan_name_enc(1) [OF ok(1) e(1) at(1) a(4,5) n1, where want = True] scan_name_enc(2) [OF ok(1) e(1) at(1) a(4,5) n1]
  have n2: "length (tbl @ n1) + length n2 \<le> 32" using a(6) bs(2) by simp
  note body = rr_body_read(1) [OF ok(3) e(2) ok(2) at(2) name(2) a(5) n2, where nm = nm]
    rr_body_read(2) [OF ok(3) e(2) ok(2) at(2) name(2) a(5) n2]
  have "length (rd_type rd) = 2" by (cases rd) auto
  then have "p + length bs = p + length as + 10 + length cs" using ok(2) by (simp add: bs put16_def)
  then show "resource_record pk p (map snd tbl) = Some (Some (p + length bs), map snd (tbl @ new), rr_ops i) \<and> table_ok pk (tbl @ new)"
    using name(1) body by (simp add: resource_record_def bs(2) i)
qed

section \<open>Messages\<close>

record dns_msg =
  m_front :: "u8 list"
  m_qd :: "dns_question list"
  m_an :: "dns_rr list"
  m_ns :: "dns_rr list"
  m_ar :: "dns_rr list"

definition enc_msg :: "dns_msg \<Rightarrow> u8 list \<times> name_table" where
  "enc_msg m =
     (let (q, t1) = enc_list enc_question [] 12 (m_qd m);
          (a, t2) = enc_list enc_rr t1 (12 + length q) (m_an m);
          (n, t3) = enc_list enc_rr (t1 @ t2) (12 + length q + length a) (m_ns m);
          (r, t4) = enc_list enc_rr (t1 @ t2 @ t3) (12 + length q + length a + length n) (m_ar m)
      in (m_front m @ put16 (length (m_qd m)) @ put16 (length (m_an m)) @ put16 (length (m_ns m)) @ put16 (length (m_ar m))
            @ q @ a @ n @ r, t1 @ t2 @ t3 @ t4))"

text \<open>Names that fit, at most 32 parts registered, and a packet that the offsets of pointers can reach.\<close>

definition msg_ok :: "dns_msg \<Rightarrow> bool" where
  "msg_ok m \<longleftrightarrow> length (m_front m) = 4 \<and> list_all question_ok (m_qd m) \<and> list_all rr_ok (m_an m @ m_ns m @ m_ar m)
     \<and> length (m_qd m) < 65536 \<and> length (m_an m) < 65536 \<and> length (m_ns m) < 65536 \<and> length (m_ar m) < 65536
     \<and> length (fst (enc_msg m)) \<le> 16384 \<and> length (snd (enc_msg m)) \<le> 32"

definition section_ops :: "node_kind \<Rightarrow> dns_rr list \<Rightarrow> vpt_op list" where
  "section_ops tree rrs = (if rrs = [] then [] else Push tree # concat (map rr_ops rrs) @ [Pop tree])"

definition msg_ops :: "dns_msg \<Rightarrow> vpt_op list" where
  "msg_ops m = Push DnsPacket # (if m_qd m = [] then [] else [Push DnsQuestion, Pop DnsQuestion])
     @ section_ops DnsAnswer (m_an m) @ section_ops DnsAuthority (m_ns m) @ section_ops DnsAdditional (m_ar m) @ [Pop DnsPacket]"

lemma header_counts:
  assumes "length f = 4" "a < 65536" "b < 65536" "c < 65536" "d < 65536"
  shows "dns_header (f @ put16 a @ put16 b @ put16 c @ put16 d @ rest) sects
    = (12, [(a, DnsQuestion), (b, DnsAnswer), (c, DnsAuthority), (d, DnsAdditional)])"
proof -
  obtain f0 f1 f2 f3 where f: "f = [f0, f1, f2, f3]" using assms(1) by (auto simp: numeral_eq_Suc length_Suc_conv)
  have four: "[0..<4] = [0, 1, 2, 3::nat]" by (simp add: upt_rec)
  show ?thesis unfolding dns_header_def four
    using assms(2-) put16_value [of a] put16_value [of b] put16_value [of c] put16_value [of d]
    by (simp add: f put16_def section_tree_def)
qed

lemma dns_message_read:
  assumes ok: "msg_ok m"
  shows "dns_data (fst (enc_msg m)) sects
    = Some ([(0, DnsQuestion), (0, DnsAnswer), (0, DnsAuthority), (0, DnsAdditional)], msg_ops m)"
proof -
  obtain q t1 where q: "enc_list enc_question [] 12 (m_qd m) = (q, t1)" by fastforce
  obtain a t2 where a: "enc_list enc_rr t1 (12 + length q) (m_an m) = (a, t2)" by fastforce
  obtain n t3 where n: "enc_list enc_rr (t1 @ t2) (12 + length q + length a) (m_ns m) = (n, t3)" by fastforce
  obtain r t4 where r: "enc_list enc_rr ((t1 @ t2) @ t3) (12 + length q + length a + length n) (m_ar m) = (r, t4)" by fastforce
  define pk where "pk = fst (enc_msg m)"
  define h where "h = m_front m @ put16 (length (m_qd m)) @ put16 (length (m_an m)) @ put16 (length (m_ns m)) @ put16 (length (m_ar m))"
  have enc: "pk = h @ q @ a @ n @ r" "snd (enc_msg m) = t1 @ t2 @ t3 @ t4"
    using q a n r by (simp_all add: pk_def h_def enc_msg_def)
  have h: "length h = 12" using ok by (simp add: h_def msg_ok_def)
  have "bytes_at pk 0 pk" by (simp add: bytes_at_def)
  then have at: "bytes_at pk 12 q" "bytes_at pk (12 + length q) a" "bytes_at pk (12 + length q + length a) n"
      "bytes_at pk (12 + length q + length a + length n) r"
    unfolding enc(1) by (simp_all add: bytes_at_append h)
  have len: "length pk \<le> 16384" and tot: "length (t1 @ t2 @ t3 @ t4) \<le> 32"
    using ok enc(2) by (simp_all add: msg_ok_def pk_def)
  have oks: "list_all question_ok (m_qd m)" "list_all rr_ok (m_an m)" "list_all rr_ok (m_ns m)" "list_all rr_ok (m_ar m)"
    using ok by (simp_all add: msg_ok_def)
  have c: "length [] + length t1 \<le> 32" "length t1 + length t2 \<le> 32" "length (t1 @ t2) + length t3 \<le> 32" "length ((t1 @ t2) @ t3) + length t4 \<le> 32"
    using tot by simp_all
  have t0: "table_ok pk []" by (simp add: table_ok_def)
  have t1: "table_ok pk t1" using questions.items_read [OF oks(1) q at(1) t0 len c(1)] by simp
  have t2: "table_ok pk (t1 @ t2)" using records.items_read [OF oks(2) a at(2) t1 len c(2)] by simp
  have t3: "table_ok pk ((t1 @ t2) @ t3)" using records.items_read [OF oks(3) n at(3) t2 len c(3)] by simp
  have parse: "(if (0::nat) = 0 then question pk else resource_record pk) = question pk"
      "(if (1::nat) = 0 then question pk else resource_record pk) = resource_record pk"
      "(if (2::nat) = 0 then question pk else resource_record pk) = resource_record pk"
      "(if (3::nat) = 0 then question pk else resource_record pk) = resource_record pk" by simp_all
  note sections = questions.section_read [OF oks(1) q at(1) t0 len c(1) parse(1)]
    records.section_read [OF oks(2) a at(2) t1 len c(2) parse(2)]
    records.section_read [OF oks(3) n at(3) t2 len c(3) parse(3)]
    records.section_read [OF oks(4) r at(4) t3 len c(4) parse(4)]
  have pos: "0 + 1 = (1::nat)" "1 + 1 = (2::nat)" "2 + 1 = (3::nat)" "[] @ t1 = t1" by simp_all
  have "dns_sections pk 0 (Some 12) [(length (m_qd m), DnsQuestion), (length (m_an m), DnsAnswer), (length (m_ns m), DnsAuthority), (length (m_ar m), DnsAdditional)] (map snd ([] :: name_table))
      = Some ([(0, DnsQuestion), (0, DnsAnswer), (0, DnsAuthority), (0, DnsAdditional)],
         (if m_qd m = [] then [] else Push DnsQuestion # concat (map (\<lambda>_. []) (m_qd m)) @ [Pop DnsQuestion])
         @ section_ops DnsAnswer (m_an m) @ section_ops DnsAuthority (m_ns m) @ section_ops DnsAdditional (m_ar m))"
    by (simp only: sections pos(1-4)) (simp add: section_ops_def)
  then have secs: "dns_sections pk 0 (Some 12) [(length (m_qd m), DnsQuestion), (length (m_an m), DnsAnswer), (length (m_ns m), DnsAuthority), (length (m_ar m), DnsAdditional)] []
      = Some ([(0, DnsQuestion), (0, DnsAnswer), (0, DnsAuthority), (0, DnsAdditional)],
         (if m_qd m = [] then [] else [Push DnsQuestion, Pop DnsQuestion])
         @ section_ops DnsAnswer (m_an m) @ section_ops DnsAuthority (m_ns m) @ section_ops DnsAdditional (m_ar m))"
    by (simp del: dns_sections.simps)
  have head: "dns_header pk sects = (12, [(length (m_qd m), DnsQuestion), (length (m_an m), DnsAnswer), (length (m_ns m), DnsAuthority), (length (m_ar m), DnsAdditional)])"
    using header_counts [of "m_front m" "length (m_qd m)" "length (m_an m)" "length (m_ns m)" "length (m_ar m)" "q @ a @ n @ r" sects] ok
    unfolding enc(1) h_def by (simp add: msg_ok_def)
  show ?thesis
    unfolding pk_def [symmetric] dns_data_def head Let_def prod.case secs by (simp add: msg_ops_def)
qed

text \<open>
  (C13) A message is read back: whatever questions and records it has, with its names compressed against any
  name before, the parser announces its answer, authority and additional sections record by record,
  addresses and aliases with their names written out, and leaves no count behind.
\<close>

theorem dns_message_roundtrip:
  assumes "msg_ok m"
  shows "dns_data (fst (enc_msg m)) sects
    = Some ([(0, DnsQuestion), (0, DnsAnswer), (0, DnsAuthority), (0, DnsAdditional)], msg_ops m)"
  by (rule dns_message_read [OF assms])

definition sample_dns :: dns_msg where
  "sample_dns = \<lparr>m_front = [1, 2, 129, 128], m_qd = [([[97], [98]], [0, 1, 0, 1])],
     m_an = [([[97], [98]], [0, 1, 0, 0, 0, 9], Rd_CNAME [[99], [98]]), ([[99], [98]], [0, 1, 0, 0, 0, 9], Rd_A [10, 0, 0, 7])],
     m_ns = [([[98]], [0, 1, 0, 0, 0, 9], Rd_NS [[100], [98]])], m_ar = []\<rparr>"

lemma sample_dns_ok: "msg_ok sample_dns"
  by (simp add: msg_ok_def sample_dns_def enc_msg_def enc_rr_def enc_question_def put16_def rr_ok_def question_ok_def name_ok_def Let_def)

theorem dns_message_roundtrip_witness:
  "dns_data (fst (enc_msg sample_dns)) []
    = Some ([(0, DnsQuestion), (0, DnsAnswer), (0, DnsAuthority), (0, DnsAdditional)], msg_ops sample_dns) \<and>
   length (msg_ops sample_dns) = 24"
  using dns_message_roundtrip [OF sample_dns_ok, of "[]"]
  by (simp add: msg_ops_def section_ops_def rr_ops_def rr_a_ops_def rr_cname_ops_def sample_dns_def)

section \<open>Packets that overrun the parser\<close>

lemma enc_name_fresh: "length (snd (enc_name [] p ls)) = length ls"
proof (induction ls arbitrary: p)
  case (Cons l ls)
  show ?case using Cons.IH [of "p + 1 + length l"] by (auto split: prod.splits)
qed simp

lemma dns_data_first_question:
  assumes "length f = 4" "0 < c" "c < 65536" "question (f @ put16 c @ put16 0 @ put16 0 @ put16 0 @ rest) 12 [] = Some out"
    "section_loop (question (f @ put16 c @ put16 0 @ put16 0 @ put16 0 @ rest)) (fst out) (c - 1) (fst (snd out)) = None"
  shows "dns_data (f @ put16 c @ put16 0 @ put16 0 @ put16 0 @ rest) sects = None"
  using assms header_counts [of f c 0 0 0 rest sects] by (cases c; cases out) (simp_all add: dns_data_def)

text \<open>
  A question with a name of more than 32 parts overruns the array of offsets, however short the name is:
  the name that a reverse lookup of an IPv6 address asks for has 34.
\<close>

lemma many_parts_overrun:
  assumes "length f = 4" "name_ok nm" "32 < length nm" "length t = 4"
    and pk: "pk = f @ put16 1 @ put16 0 @ put16 0 @ put16 0 @ fst (enc_name [] 12 nm) @ t" "length pk \<le> 16384"
  shows "dns_data pk sects = None"
proof -
  obtain bs new where e: "enc_name [] 12 nm = (bs, new)" by fastforce
  have at: "bytes_at pk 12 bs" using assms(1) bytes_at_self [of "f @ put16 1 @ put16 0 @ put16 0 @ put16 0" bs t] by (simp add: pk e)
  have "part_offs pk 12 = map snd new" "name_machine pk 12 = NameEnd (12 + length bs - 1)"
    using enc_name_scanned [OF _ e at _ pk(2)] assms(2) by (auto simp: name_ok_def table_ok_def)
  moreover have "length new = length nm" using enc_name_fresh [of 12 nm] e by simp
  ultimately have "question pk 12 [] = None"
    using assms(3) by (auto simp: question_def scan_name_def name_end_def bind_eq_None_conv)
  moreover have "dns_header pk sects = (12, [(1, DnsQuestion), (0, DnsAnswer), (0, DnsAuthority), (0, DnsAdditional)])"
    using header_counts [of f 1 0 0 0] assms(1) by (simp add: pk(1))
  ultimately show ?thesis by (simp add: dns_data_def)
qed

definition reverse_name :: "u8 list list" where
  "reverse_name = replicate 32 [48] @ [[105, 112, 54], [97, 114, 112, 97]]"

lemma name_lengths:
  "length (fst (enc_name [] p ls)) = Suc (\<Sum>l \<leftarrow> ls. Suc (length l))"
  "length (dotted ls) \<le> (\<Sum>l \<leftarrow> ls. Suc (length l))"
proof (induction ls arbitrary: p)
  case (Cons l ls)
  {
    case 1
    show ?case using Cons.IH(1) [of "p + 1 + length l"] by (auto split: prod.splits)
  next
    case 2
    show ?case using Cons.IH(2) by (cases ls) auto
  }
qed simp_all

lemma many_parts_overrun_witness:
  "dns_data ([1, 2, 1, 0] @ put16 1 @ put16 0 @ put16 0 @ put16 0 @ fst (enc_name [] 12 reverse_name) @ [0, 12, 0, 1]) [] = None"
proof (rule many_parts_overrun [where nm = reverse_name and f = "[1, 2, 1, 0]" and t = "[0, 12, 0, 1]"])
  have sum: "(\<Sum>l \<leftarrow> reverse_name. Suc (length l)) = 73" by (simp add: reverse_name_def sum_list_replicate)
  show "name_ok reverse_name" using name_lengths(2) [of reverse_name] sum by (auto simp: name_ok_def) (auto simp: reverse_name_def)
  show "length ([1, 2, 1, 0] @ put16 1 @ put16 0 @ put16 0 @ put16 0 @ fst (enc_name [] 12 reverse_name) @ [0, 12, 0, 1]) \<le> 16384"
    by (simp add: name_lengths sum)
qed (simp_all add: reverse_name_def)

text \<open>A part that is followed by a pointer to itself is copied until the buffer is overrun.\<close>

lemma copy_loop_overruns:
  assumes loop: "p < length pk" "0 < pk ! p" "pk ! p \<le> 63" "q = p + 1 + unat (pk ! p)" "q + 1 < length pk"
      "192 \<le> pk ! q" "pointer_off (pk ! q) (pk ! (q + 1)) = p" "p \<in> set names"
  shows "copyName pk names p nb = None"
proof (induction "257 - length nb" arbitrary: nb rule: less_induct)
  case less
  define nb' where "nb' = (if nb \<noteq> [] then nb @ [46] else nb) @ take (unat (pk ! p)) (drop (p + 1) pk)"
  have nz: "pk ! p \<noteq> 0" "pk ! q \<noteq> 0" "\<not> pk ! q \<le> 63" using loop(2,6) by (auto simp: word_le_nat_alt)
  have "0 < unat (pk ! p)" using nz(1) by (simp add: unat_gt_0)
  then have grows: "length nb < length nb'" using loop(4,5) by (auto simp: nb'_def)
  have q: "copyName pk names q nb' = copyName pk names p nb'"
    using loop nz by (subst copyName.simps) (simp add: Let_def)
  have "copyName pk names p nb = (if length nb' > 256 then None else copyName pk names q nb')"
    using loop nz by (subst copyName.simps) (auto simp: Let_def nb'_def)
  then show ?case using less [of nb'] grows unfolding q by auto
qed

text \<open>
  (C26) The order of copying and registering does not prevent a self reference: a name that points to
  itself is refused, but its parts are registered all the same, and the next name that points to it
  is copied round and round until the buffer on the stack is overrun.
\<close>

theorem self_reference_overruns:
  assumes "length f = 4" "l \<noteq> []" "length l \<le> 63" "length t = 4"
    and pk: "pk = f @ put16 2 @ put16 0 @ put16 0 @ put16 0 @ (word_of_nat (length l) # l @ [192, 12]) @ t @ [192, 12] @ rest"
  shows "question pk 12 [] = Some (Some (19 + length l), [12], []) \<and> dns_data pk sects = None"
proof -
  define q where "q = 13 + length l"
  have len: "unat (word_of_nat (length l) :: u8) = length l" using assms(3) by (simp add: unat_of_nat)
  have c: "(word_of_nat (length l) :: u8) \<noteq> 0" "0 < (word_of_nat (length l) :: u8)" "1 \<le> (word_of_nat (length l) :: u8)" "(word_of_nat (length l) :: u8) \<le> 63"
    using assms(2,3) len by (auto simp: word_le_nat_alt word_less_nat_alt Suc_le_eq simp flip: unat_eq_0)
  have "bytes_at pk 0 pk" by (simp add: bytes_at_def)
  then have at: "12 < length pk" "pk ! 12 = word_of_nat (length l)" "q + 1 < length pk" "pk ! q = 192" "pk ! (q + 1) = 12"
      "q + 7 < length pk" "pk ! (q + 6) = 192" "pk ! (q + 7) = 12"
    unfolding pk q_def using assms(1,4) by (simp_all add: bytes_at_append bytes_at_Cons add.commute)
  have off: "pointer_off 192 12 = 12" by (simp add: pointer_off_eq)
  have n192: "\<not> (192::u8) \<le> 63" "(192::u8) \<noteq> 0" by simp_all
  have step: "12 + 1 + unat (pk ! 12) = q" using len at(2) by (simp add: q_def)
  have "name_machine pk 12 = NameEnd (q + 1)"
    using at c step n192 by (simp add: name_machine.simps [of pk 12] name_machine.simps [of pk q] Let_def)
  moreover have "part_offs pk 12 = [12]"
    using at c step n192 by (simp add: part_offs.simps [of pk 12] part_offs.simps [of pk q])
  moreover have "copyName pk [] 12 [] = Some (- 1, [])"
  proof -
    define nb where "nb = take (unat (pk ! 12)) (drop (12 + 1) pk)"
    have "length nb \<le> 256" using assms(3) len at(2) by (simp add: nb_def)
    then have "copyName pk [] 12 [] = copyName pk [] q nb"
      using at(1-3) c step by (subst copyName.simps) (simp add: Let_def nb_def)
    also have "\<dots> = Some (- 1, [])"
      using at(3-5) by (subst copyName.simps) (simp add: Let_def)
    finally show ?thesis .
  qed
  ultimately have one: "question pk 12 [] = Some (Some (19 + length l), [12], [])"
    using at(6) by (simp add: question_def scan_name_def name_end_def dns_read_def q_def)
  have "copyName pk [12] 12 [] = None"
    using at off c by (intro copy_loop_overruns [OF _ _ _ step [symmetric]]) simp_all
  moreover have "pk ! (7 + q) = 12" using at(8) by (simp only: add.commute)
  ultimately have "copyName pk [12] (q + 6) [] = None"
    using at(6,7) off by (subst copyName.simps) (simp add: Let_def)
  moreover have "name_machine pk (q + 6) = NameEnd (q + 7)"
    using at(6,7) n192 by (simp add: name_machine.simps [of pk "q + 6"] Let_def)
  ultimately have two: "question pk (q + 6) [12] = None" by (simp add: question_def scan_name_def name_end_def)
  have "section_loop (question pk) (Some (q + 6)) 1 [12] = None" using two by simp
  moreover have "19 + length l = q + 6" by (simp add: q_def)
  ultimately have "section_loop (question pk) (Some (19 + length l)) 1 [12] = None" by presburger
  then have "dns_data pk sects = None"
    using dns_data_first_question [of f 2 "(word_of_nat (length l) # l @ [192, 12]) @ t @ [192, 12] @ rest"] one assms(1)
    unfolding pk [symmetric] by simp
  with one show ?thesis by blast
qed

theorem self_reference_overruns_witness:
  "dns_data ([1, 2, 1, 0] @ put16 2 @ put16 0 @ put16 0 @ put16 0 @ (word_of_nat 1 # [97] @ [192, 12]) @ [0, 1, 0, 1] @ [192, 12] @ [0, 1, 0, 1]) [] = None"
  using self_reference_overruns [of "[1, 2, 1, 0]" "[97]" "[0, 1, 0, 1]" _ "[0, 1, 0, 1]" "[]", OF _ _ _ _ refl] by simp

end
