(* ===== verification/Sniff_Dns.thy ===== *)
theory Sniff_Dns
  imports Parse_Dns_Message Kctrl_Queue Runs
begin

text \<open>
  What the sniffer does with DNS, src/sniff/sniff.cc: the patterns it installs, the match functions
  that the value tree calls on address and alias records of an answer section, the set of watched
  names, the set of addresses already commanded, and the commands it writes to the control ring.
  The sets of the code are searched by content, so they are sets here; the notification that goes
  to the broker is recorded in \<open>redirects\<close>. \<open>None\<close> says that a null pointer is followed, that bytes
  are read past their end, or that the write does not return.
\<close>

section \<open>State\<close>

record sniff_state =
  lookupSet :: "string set"
  ipsAdded :: "u32 set"
  sn_cmd :: kctrl_ring
  redirects :: "string list"

definition answerCname :: "string \<Rightarrow> string \<Rightarrow> sniff_state \<Rightarrow> sniff_state" where
  "answerCname name cname st =
     (if name \<in> lookupSet st then
        if cname \<notin> lookupSet st then st\<lparr>lookupSet := insert cname (lookupSet st)\<rparr> else st
      else st)"

definition dns_toa :: "u8 list \<Rightarrow> string" where
  "dns_toa addr = show_nat (unat (addr ! 0)) @ ''.'' @ show_nat (unat (addr ! 1)) @ ''.''
     @ show_nat (unat (addr ! 2)) @ ''.'' @ show_nat (unat (addr ! 3))"

definition addr_word :: "u8 list \<Rightarrow> u32" where
  "addr_word addr = ucast (addr ! 0) OR push_bit 8 (ucast (addr ! 1)) OR push_bit 16 (ucast (addr ! 2))
     OR push_bit 24 (ucast (addr ! 3))"

definition matchedDns :: "kring_user \<Rightarrow> string \<Rightarrow> sniff_state \<Rightarrow> sniff_state option" where
  "matchedDns u toa st =
     (let ss = ''p '' @ toa in
      case kctrl_write_plain u (of_chars ss @ [0]) (int (length ss) + 1) (sn_cmd st) of
        None \<Rightarrow> None
      | Some (_, r) \<Rightarrow> Some (st\<lparr>sn_cmd := r, redirects := redirects st @ [toa]\<rparr>))"

definition answerA :: "kring_user \<Rightarrow> string \<Rightarrow> u8 list \<Rightarrow> sniff_state \<Rightarrow> sniff_state option" where
  "answerA u name addr st =
     (if name \<in> lookupSet st then
        let toa = dns_toa addr; ip = addr_word addr in
        if ip \<notin> ipsAdded st then matchedDns u toa (st\<lparr>ipsAdded := insert ip (ipsAdded st)\<rparr>) else Some st
      else Some st)"

section \<open>Match functions\<close>

definition dns_match1 :: "kring_user \<Rightarrow> vpt_node list \<Rightarrow> node_ptr \<Rightarrow> sniff_state \<Rightarrow> sniff_state option" where
  "dns_match1 u ns rra st = (case (findChild ns rra DnsName, findChild ns rra DnsAddr) of
     (Some name, Some val) \<Rightarrow>
       if node_data (ns ! val) = [] then Some st
       else if length (node_data (ns ! val)) < 4 then None
       else answerA u (c_str (node_text (ns ! name))) (node_data (ns ! val)) st
   | _ \<Rightarrow> Some st)"

text \<open>\<open>name->next\<close>, the node after it among the children.\<close>

fun next_node :: "node_ptr \<Rightarrow> node_ptr list \<Rightarrow> node_ptr option" where
  "next_node x [] = None"
| "next_node x (y # ys) = (if x = y then (case ys of [] \<Rightarrow> None | z # _ \<Rightarrow> Some z) else next_node x ys)"

definition dns_match2 :: "vpt_node list \<Rightarrow> node_ptr \<Rightarrow> sniff_state \<Rightarrow> sniff_state option" where
  "dns_match2 ns rra st = (case findChild ns rra DnsName of
     None \<Rightarrow> None
   | Some name \<Rightarrow> (case next_node name (node_children (ns ! rra)) of
       None \<Rightarrow> Some st
     | Some val \<Rightarrow> Some (answerCname (c_str (node_text (ns ! name))) (c_str (node_text (ns ! val))) st)))"

section \<open>Patterns\<close>

text \<open>Each pattern takes two nodes from \<open>p\<close> on.\<close>

definition consPatDnsAnswer1 :: "pat_ptr \<Rightarrow> match_ptr \<Rightarrow> patterns \<Rightarrow> patterns" where
  "consPatDnsAnswer1 p a1 P = P(p := (new_pat None DnsAnswer)\<lparr>pat_head := Some (p + 1)\<rparr>,
     p + 1 := (new_pat (Some p) DnsRrA)\<lparr>onMatch := Some a1, pat_skip := True\<rparr>)"

definition consPatDnsAnswer2 :: "pat_ptr \<Rightarrow> match_ptr \<Rightarrow> patterns \<Rightarrow> patterns" where
  "consPatDnsAnswer2 p a2 P = P(p := (new_pat None DnsAnswer)\<lparr>pat_head := Some (p + 1)\<rparr>,
     p + 1 := (new_pat (Some p) DnsRrCname)\<lparr>onMatch := Some a2, pat_skip := True\<rparr>)"

definition dns_pats :: patterns where
  "dns_pats = consPatDnsAnswer2 2 1 (consPatDnsAnswer1 0 0 (\<lambda>_. new_pat None Root))"

definition sniff_configureContext :: "vpt \<Rightarrow> vpt" where
  "sniff_configureContext v = addPat 2 (addPat 0 v)"

text \<open>Both match functions answer \<open>MatchFinished\<close>; their calls are made on the tree as it is then.\<close>

definition dns_call :: "kring_user \<Rightarrow> vpt_node list \<Rightarrow> match_ptr \<times> node_ptr \<Rightarrow> sniff_state \<Rightarrow> sniff_state option" where
  "dns_call u ns c st = (if fst c = 0 then dns_match1 u ns (snd c) st else dns_match2 ns (snd c) st)"

definition sniff_step :: "kring_user \<Rightarrow> vpt_op \<Rightarrow> vpt \<times> sniff_state \<Rightarrow> (vpt \<times> sniff_state) option" where
  "sniff_step u e x = (case x of (v, st) \<Rightarrow> do {
     w \<leftarrow> vpt_do (\<lambda>_ _ _. MatchFinished) dns_pats e v;
     st \<leftarrow> run_opt (dns_call u (nodes w)) (drop (length (calls v)) (calls w)) st;
     Some (w, st) })"

definition sniff_dns :: "kring_user \<Rightarrow> u8 list \<Rightarrow> dns_sects \<Rightarrow> vpt \<times> sniff_state \<Rightarrow> (dns_sects \<times> vpt \<times> sniff_state) option" where
  "sniff_dns u pk sects x = do {
     (sects, ops) \<leftarrow> dns_data pk sects;
     x \<leftarrow> run_opt (sniff_step u) ops x;
     Some (sects, x) }"

section \<open>One node at a time\<close>

lemma dns_pats_simps [simp]:
  "dns_pats 0 = (new_pat None DnsAnswer)\<lparr>pat_head := Some 1\<rparr>"
  "dns_pats 1 = (new_pat (Some 0) DnsRrA)\<lparr>onMatch := Some 0, pat_skip := True\<rparr>"
  "dns_pats (Suc 0) = (new_pat (Some 0) DnsRrA)\<lparr>onMatch := Some 0, pat_skip := True\<rparr>"
  "dns_pats 2 = (new_pat None DnsAnswer)\<lparr>pat_head := Some 3\<rparr>"
  "dns_pats 3 = (new_pat (Some 2) DnsRrCname)\<lparr>onMatch := Some 1, pat_skip := True\<rparr>"
  by (simp_all add: dns_pats_def consPatDnsAnswer1_def consPatDnsAnswer2_def)

definition dns_active :: "pat_state list" where
  "dns_active = [\<lparr>ps_node = 0, nextChild = Some 1\<rparr>, \<lparr>ps_node = 2, nextChild = Some 3\<rparr>]"

text \<open>A node of the tree is current, and the two patterns wait at the root.\<close>

definition sniff_ready :: "vpt \<Rightarrow> node_ptr \<Rightarrow> bool" where
  "sniff_ready v n \<longleftrightarrow> sn_node (vt v) = Some n \<and> n < length (nodes v) \<and> 0 \<le> topBarrier v \<and> patRoots v = [0, 2]"

definition add_child :: "node_ptr \<Rightarrow> vpt_node list \<Rightarrow> vpt_node list" where
  "add_child n ns = upd_node n (\<lambda>x. x\<lparr>node_children := node_children x @ [length ns]\<rparr>) ns"

abbreviation leaf :: "node_kind \<Rightarrow> string \<Rightarrow> u8 list \<Rightarrow> vpt_node" where
  "leaf ty str bytes \<equiv> \<lparr>node_type = ty, node_text = str, node_data = bytes, node_children = []\<rparr>"

definition set_op :: "string \<Rightarrow> u8 list \<Rightarrow> vpt_op \<Rightarrow> bool" where
  "set_op str bytes e \<longleftrightarrow> e = SetText str \<and> bytes = [] \<or> e = SetData bytes \<and> str = []"

lemma leaf_sniffed:
  assumes "sniff_ready v n" "\<forall>s \<in> set (active (vt v)). nextChild s = None" "ty \<noteq> DnsAnswer" "set_op str bytes e"
  shows "run_opt (sniff_step u) [Push ty, e, Pop ty] (v, st) = Some (v\<lparr>nodes := add_child n (nodes v) @ [leaf ty str bytes]\<rparr>, st)"
proof -
  have adv: "push_advance dns_pats ty ss = Some (ss, [], [])" if "\<forall>s \<in> set ss. nextChild s = None" for ss
    using that by (induction ss) auto
  show ?thesis
    using assms adv [OF assms(2)]
    by (auto simp: sniff_ready_def set_op_def sniff_step_def VPT_push_def VPT_pop_def VPT_setText_def VPT_setData_def
        new_pat_def new_stack_node_def new_node_def add_child_def nth_append list_update_append Let_def intro!: vpt.equality)
qed

text \<open>The match functions called when a record is closed inside an answer section.\<close>

definition rr_calls :: "node_kind \<Rightarrow> pat_state list \<Rightarrow> node_ptr \<Rightarrow> (match_ptr \<times> node_ptr) list" where
  "rr_calls ty A n = (if A = [] then [] else if ty = DnsRrA then [(0, n)] else if ty = DnsRrCname then [(1, n)] else [])"

definition rr_frame :: "node_kind \<Rightarrow> pat_state list \<Rightarrow> node_ptr \<Rightarrow> stack_node" where
  "rr_frame ty A n = (new_stack_node (Some n))\<lparr>active :=
     (if A = [] then [] else if ty = DnsRrA then [\<lparr>ps_node = 1, nextChild = None\<rparr>]
      else if ty = DnsRrCname then [\<lparr>ps_node = 3, nextChild = None\<rparr>] else [])\<rparr>"

definition rr_open :: "node_kind \<Rightarrow> node_ptr \<Rightarrow> vpt \<Rightarrow> vpt" where
  "rr_open ty n v = v\<lparr>nodes := add_child n (nodes v) @ [new_node ty], vs := vt v # vs v,
     vt := rr_frame ty (active (vt v)) (length (nodes v)), topBarrier := topBarrier v + 1\<rparr>"

lemma rr_opened:
  assumes "sniff_ready v n" "active (vt v) \<in> {[], dns_active}" "ty \<noteq> DnsAnswer"
  shows "sniff_step u (Push ty) (v, st) = Some (rr_open ty n v, st)"
    and "sniff_ready (rr_open ty n v) (length (nodes v))"
    and "\<forall>s \<in> set (active (vt (rr_open ty n v))). nextChild s = None"
  using assms
  by (auto simp: sniff_ready_def sniff_step_def VPT_push_def rr_open_def rr_frame_def dns_active_def new_pat_def
      new_stack_node_def new_node_def add_child_def Let_def intro!: vpt.equality)

lemma rr_closed:
  assumes "sniff_ready v n" "active (vt v) \<in> {[], dns_active}" "node_type (ns ! length (nodes v)) = ty"
  shows "sniff_step u (Pop ty) ((rr_open ty n v)\<lparr>nodes := ns\<rparr>, st) =
    (let cs = rr_calls ty (active (vt v)) (length (nodes v)) in
     map_option (\<lambda>st'. (v\<lparr>nodes := ns, calls := calls v @ cs\<rparr>, st')) (run_opt (dns_call u ns) cs st))"
proof -
  define A where "A = active (vt v)"
  have pop: "VPT_pop (\<lambda>_ _ _. MatchFinished) dns_pats ty ((rr_open ty n v)\<lparr>nodes := ns\<rparr>)
      = Some (True, v\<lparr>nodes := ns, calls := calls v @ rr_calls ty A (length (nodes v))\<rparr>)"
    using assms unfolding A_def [symmetric]
    by (auto simp: sniff_ready_def VPT_pop_def rr_open_def rr_frame_def rr_calls_def A_def new_pat_def collect_match_def add_match_def
        new_stack_node_def Let_def intro!: vpt.equality)
  then show ?thesis unfolding A_def [symmetric] by (auto simp: sniff_step_def rr_open_def Let_def map_option_case split: option.splits)
qed

lemma rr_two_sniffed:
  assumes "sniff_ready v n" "active (vt v) \<in> {[], dns_active}" "DnsAnswer \<notin> {ty, t1, t2}" "set_op s1 b1 e1" "set_op s2 b2 e2"
    and ns: "m = length (nodes v)"
      "ns = add_child n (nodes v) @ [\<lparr>node_type = ty, node_text = [], node_data = [], node_children = [m + 1, m + 2]\<rparr>, leaf t1 s1 b1, leaf t2 s2 b2]"
  shows "run_opt (sniff_step u) [Push ty, Push t1, e1, Pop t1, Push t2, e2, Pop t2, Pop ty] (v, st) =
    (let cs = rr_calls ty (active (vt v)) m in
     map_option (\<lambda>st'. (v\<lparr>nodes := ns, calls := calls v @ cs\<rparr>, st')) (run_opt (dns_call u ns) cs st))"
proof -
  define w where "w = rr_open ty n v"
  define w1 where "w1 = w\<lparr>nodes := add_child m (nodes w) @ [leaf t1 s1 b1]\<rparr>"
  note opened = rr_opened [OF assms(1,2), of ty, folded w_def, folded ns(1)]
  have one: "run_opt (sniff_step u) [Push t1, e1, Pop t1] (w, st) = Some (w1, st)"
    unfolding w1_def using leaf_sniffed [OF opened(2,3) _ assms(4), of t1] assms(3) by auto
  have "sniff_ready w1 m" "vt w1 = vt w" using opened(2) assms(3) by (auto simp: w1_def sniff_ready_def add_child_def)
  then have two: "run_opt (sniff_step u) [Push t2, e2, Pop t2] (w1, st) = Some (w1\<lparr>nodes := add_child m (nodes w1) @ [leaf t2 s2 b2]\<rparr>, st)"
    using leaf_sniffed [of w1 m t2, OF _ _ _ assms(5)] opened(3) assms(3) by auto
  have "add_child m (nodes w1) @ [leaf t2 s2 b2] = ns"
    using assms(1) by (simp add: ns w1_def w_def rr_open_def add_child_def new_node_def nth_append list_update_append sniff_ready_def)
  then have w2: "w1\<lparr>nodes := add_child m (nodes w1) @ [leaf t2 s2 b2]\<rparr> = w\<lparr>nodes := ns\<rparr>" by (simp add: w1_def)
  have ty: "node_type (ns ! m) = ty" using ns by (simp add: add_child_def nth_append)
  have zero: "run_opt (sniff_step u) [Push ty] (v, st) = Some (w, st)" using opened(1) assms(3) by auto
  have "[Push ty, Push t1, e1, Pop t1, Push t2, e2, Pop t2, Pop ty]
      = [Push ty] @ [Push t1, e1, Pop t1] @ [Push t2, e2, Pop t2] @ [Pop ty]" by simp
  then have "run_opt (sniff_step u) [Push ty, Push t1, e1, Pop t1, Push t2, e2, Pop t2, Pop ty] (v, st)
      = run_opt (sniff_step u) [Pop ty] (w\<lparr>nodes := ns\<rparr>, st)"
    by (simp only: run_opt_append zero one two w2 bind.bind_lunit)
  also have "\<dots> = sniff_step u (Pop ty) (w\<lparr>nodes := ns\<rparr>, st)" by (cases "sniff_step u (Pop ty) (w\<lparr>nodes := ns\<rparr>, st)") simp_all
  finally show ?thesis
    using rr_closed [OF assms(1,2) ty [unfolded ns(1)], of u st, folded w_def ns(1)] by simp
qed

section \<open>Records\<close>

text \<open>What a record means for the sniffer, and what is left of the tree: the stack is as it was, and
  the nodes there were keep their types.\<close>

definition host :: "u8 list list \<Rightarrow> string" where
  "host ls = c_str (to_chars (dotted ls))"

definition rr_effect :: "kring_user \<Rightarrow> dns_rr \<Rightarrow> sniff_state \<Rightarrow> sniff_state option" where
  "rr_effect u rr st = (case rr of (nm, meta, rd) \<Rightarrow> (case rd of
     Rd_A addr \<Rightarrow> answerA u (host nm) addr st
   | Rd_CNAME ls \<Rightarrow> Some (answerCname (host nm) (host ls) st)
   | _ \<Rightarrow> Some st))"

definition kept :: "vpt \<Rightarrow> vpt \<Rightarrow> bool" where
  "kept v v' \<longleftrightarrow> (\<exists>ns cs. v' = v\<lparr>nodes := ns, calls := cs\<rparr> \<and> length (nodes v) \<le> length ns
     \<and> (\<forall>i < length (nodes v). node_type (ns ! i) = node_type (nodes v ! i)))"

lemma kept_refl: "kept v v"
  by (auto simp: kept_def intro!: exI [of _ "nodes v"] exI [of _ "calls v"])

lemma kept_trans: "kept v v' \<Longrightarrow> kept v' v'' \<Longrightarrow> kept v v''"
proof -
  assume "kept v v'" "kept v' v''"
  then obtain ns cs ms ds where k: "v' = v\<lparr>nodes := ns, calls := cs\<rparr>" "v'' = v'\<lparr>nodes := ms, calls := ds\<rparr>"
      "length (nodes v) \<le> length ns" "\<forall>i < length (nodes v). node_type (ns ! i) = node_type (nodes v ! i)"
      "length (nodes v') \<le> length ms" "\<forall>i < length (nodes v'). node_type (ms ! i) = node_type (nodes v' ! i)"
    unfolding kept_def by blast
  then show ?thesis unfolding kept_def by (intro exI [of _ ms] exI [of _ ds]) auto
qed

lemma kept_ready: "kept v v' \<Longrightarrow> sniff_ready v n \<Longrightarrow> sniff_ready v' n \<and> vt v' = vt v"
  by (auto simp: kept_def sniff_ready_def)

lemma length_add_child [simp]: "length (add_child n ns) = length ns"
  by (simp add: add_child_def)

lemma type_add_child [simp]: "i < length ns \<Longrightarrow> node_type (add_child n ns ! i) = node_type (ns ! i)"
  by (cases "i = n") (simp_all add: add_child_def)

lemma kept_add: "n < length (nodes v) \<Longrightarrow> kept v (v\<lparr>nodes := add_child n (nodes v) @ ms, calls := cs\<rparr>)"
  by (auto simp: kept_def nth_append)

lemma set_op_Text: "set_op str [] (SetText str)" and set_op_Data: "set_op [] bytes (SetData bytes)"
  by (simp_all add: set_op_def)

lemma rr_sniffed:
  assumes ready: "sniff_ready v n" "active (vt v) \<in> {[], dns_active}" and ok: "rr_ok rr"
  shows "\<exists>v'. kept v v' \<and> (\<forall>st. run_opt (sniff_step u) (rr_ops rr) (v, st) =
    map_option (Pair v') (if active (vt v) = [] then Some st else rr_effect u rr st))"
proof -
  obtain nm meta rd where rr: "rr = (nm, meta, rd)" by (cases rr)
  define m where "m = length (nodes v)"
  have n: "n < length (nodes v)" using ready(1) by (simp add: sniff_ready_def)
  have other: "\<exists>v'. kept v v' \<and> (\<forall>st. run_opt (sniff_step u) [] (v, st) = map_option (Pair v') (if active (vt v) = [] then Some st else Some st))"
    by (rule exI [of _ v]) (simp add: kept_refl)
  show ?thesis
  proof (cases rd)
    case (Rd_A addr)
    define ns where "ns = add_child n (nodes v) @ [\<lparr>node_type = DnsRrA, node_text = [], node_data = [], node_children = [m + 1, m + 2]\<rparr>,
      leaf DnsName (host nm) [], leaf DnsAddr [] addr]"
    have "length addr = 4" using ok by (simp add: rr_ok_def rr Rd_A)
    moreover then have "addr \<noteq> []" by auto
    ultimately have "dns_match1 u ns m st = answerA u (host nm) addr st" for st
      by (simp add: dns_match1_def ns_def m_def findChild_def add_child_def nth_append) (simp add: host_def)
    then have calls: "run_opt (dns_call u ns) (rr_calls DnsRrA (active (vt v)) m) st = (if active (vt v) = [] then Some st else rr_effect u rr st)" for st
      by (simp add: rr_calls_def dns_call_def rr_effect_def rr Rd_A run_opt_single del: run_opt.simps(2))
    have k: "kept v (v\<lparr>nodes := ns, calls := cs\<rparr>)" for cs unfolding ns_def by (rule kept_add [OF n])
    have ops: "rr_ops rr = [Push DnsRrA, Push DnsName, SetText (host nm), Pop DnsName, Push DnsAddr, SetData addr, Pop DnsAddr, Pop DnsRrA]"
      by (simp add: rr rr_ops_def rr_a_ops_def SetName_def host_def Rd_A)
    show ?thesis
      using rr_two_sniffed [OF ready _ set_op_Text set_op_Data m_def ns_def, of u] k unfolding ops
      by (intro exI [of _ "v\<lparr>nodes := ns, calls := calls v @ rr_calls DnsRrA (active (vt v)) m\<rparr>"])
        (simp add: calls Let_def del: run_opt.simps)
  next
    case (Rd_CNAME ls)
    define ns where "ns = add_child n (nodes v) @ [\<lparr>node_type = DnsRrCname, node_text = [], node_data = [], node_children = [m + 1, m + 2]\<rparr>,
      leaf DnsName (host nm) [], leaf DnsName (host ls) []]"
    have "dns_match2 ns m st = Some (answerCname (host nm) (host ls) st)" for st
      by (simp add: dns_match2_def ns_def m_def findChild_def add_child_def nth_append) (simp add: host_def)
    then have calls: "run_opt (dns_call u ns) (rr_calls DnsRrCname (active (vt v)) m) st = (if active (vt v) = [] then Some st else rr_effect u rr st)" for st
      by (simp add: rr_calls_def dns_call_def rr_effect_def rr Rd_CNAME run_opt_single del: run_opt.simps(2))
    have k: "kept v (v\<lparr>nodes := ns, calls := cs\<rparr>)" for cs unfolding ns_def by (rule kept_add [OF n])
    have ops: "rr_ops rr = [Push DnsRrCname, Push DnsName, SetText (host nm), Pop DnsName, Push DnsName, SetText (host ls), Pop DnsName, Pop DnsRrCname]"
      by (simp add: rr rr_ops_def rr_cname_ops_def SetName_def host_def Rd_CNAME)
    show ?thesis
      using rr_two_sniffed [OF ready _ set_op_Text set_op_Text m_def ns_def, of u] k unfolding ops
      by (intro exI [of _ "v\<lparr>nodes := ns, calls := calls v @ rr_calls DnsRrCname (active (vt v)) m\<rparr>"])
        (simp add: calls Let_def del: run_opt.simps)
  next
    case (Rd_AAAA addr)
    define w where "w = rr_open DnsRrAAAA n v"
    have w: "w = w\<lparr>nodes := nodes w\<rparr>" by simp
    have ns: "nodes w = add_child n (nodes v) @ [new_node DnsRrAAAA]" by (simp add: w_def rr_open_def)
    have nt: "node_type (nodes w ! length (nodes v)) = DnsRrAAAA" by (simp add: ns nth_append new_node_def)
    have "sniff_step u (Pop DnsRrAAAA) (w, st) = Some (v\<lparr>nodes := nodes w, calls := calls v\<rparr>, st)" for st
      using rr_closed [OF ready nt, of u st] by (simp add: w_def [symmetric] rr_calls_def Let_def)
    then show ?thesis
      using rr_opened(1) [OF ready, of DnsRrAAAA u, folded w_def] kept_add [OF n, where cs = "calls v"]
      by (intro exI [of _ "v\<lparr>nodes := nodes w, calls := calls v\<rparr>"]) (simp add: rr rr_ops_def rr_effect_def Rd_AAAA ns)
  qed (use other in \<open>simp_all add: rr rr_ops_def rr_effect_def\<close>)
qed

section \<open>Sections\<close>

definition sect_open :: "node_kind \<Rightarrow> node_ptr \<Rightarrow> vpt \<Rightarrow> vpt" where
  "sect_open tree n v = v\<lparr>nodes := add_child n (nodes v) @ [new_node tree], vs := vt v # vs v,
     vt := (new_stack_node (Some (length (nodes v))))\<lparr>active := (if tree = DnsAnswer then dns_active else [])\<rparr>,
     topBarrier := topBarrier v + 1\<rparr>"

lemma sect_opened:
  assumes "sniff_ready v n" "active (vt v) = []"
  shows "sniff_step u (Push tree) (v, st) = Some (sect_open tree n v, st)"
    and "sniff_ready (sect_open tree n v) (length (nodes v))"
    and "active (vt (sect_open tree n v)) = (if tree = DnsAnswer then dns_active else [])"
  using assms
  by (auto simp: sniff_ready_def sniff_step_def VPT_push_def sect_open_def dns_active_def new_pat_def
      new_stack_node_def new_node_def add_child_def Let_def intro!: vpt.equality)

lemma sect_closed:
  assumes "sniff_ready v n" "active (vt v) = []" "kept (sect_open tree n v) w"
  shows "\<exists>v'. kept v v' \<and> (\<forall>st. sniff_step u (Pop tree) (w, st) = Some (v', st))"
proof -
  obtain ns cs where w: "w = (sect_open tree n v)\<lparr>nodes := ns, calls := cs\<rparr>" "length (nodes (sect_open tree n v)) \<le> length ns"
      "\<forall>i < length (nodes (sect_open tree n v)). node_type (ns ! i) = node_type (nodes (sect_open tree n v) ! i)"
    using assms(3) unfolding kept_def by blast
  have open': "nodes (sect_open tree n v) = add_child n (nodes v) @ [new_node tree]" by (simp add: sect_open_def)
  have ty: "node_type (ns ! length (nodes v)) = tree" using w(3) by (auto simp: open' add_child_def nth_append new_node_def)
  have "node_type (ns ! i) = node_type (nodes v ! i)" if "i < length (nodes v)" for i
    using w(3) that by (auto simp: open' nth_append)
  then have kept: "kept v (v\<lparr>nodes := ns, calls := cs\<rparr>)" using w(2) by (auto simp: kept_def open' add_child_def)
  have "VPT_pop (\<lambda>_ _ _. MatchFinished) dns_pats tree w = Some (True, v\<lparr>nodes := ns, calls := cs\<rparr>)"
    using assms(1,2) ty unfolding w(1)
    by (auto simp: sniff_ready_def VPT_pop_def sect_open_def dns_active_def new_pat_def new_stack_node_def Let_def intro!: vpt.equality)
  then have "sniff_step u (Pop tree) (w, st) = Some (v\<lparr>nodes := ns, calls := cs\<rparr>, st)" for st by (simp add: sniff_step_def w(1))
  with kept show ?thesis by blast
qed

text \<open>Records outside an answer section change nothing but the tree.\<close>

lemma records_ignored:
  assumes "sniff_ready v n" "active (vt v) = []" "list_all rr_ok rrs"
  shows "\<exists>v'. kept v v' \<and> (\<forall>st. run_opt (sniff_step u) (concat (map rr_ops rrs)) (v, st) = Some (v', st))"
  using assms
proof (induction rrs arbitrary: v)
  case (Cons rr rrs)
  obtain w where w: "kept v w" "\<And>st. run_opt (sniff_step u) (rr_ops rr) (v, st) = Some (w, st)"
    using rr_sniffed [of v n rr u] Cons.prems by auto
  from kept_ready [OF this(1) Cons.prems(1)] Cons.prems(2,3) Cons.IH [of w] obtain v' where
    v': "kept w v'" "\<And>st. run_opt (sniff_step u) (concat (map rr_ops rrs)) (w, st) = Some (v', st)" by auto
  with w show ?case by (intro exI [of _ v']) (auto simp: run_opt_append intro: kept_trans)
qed (auto intro: kept_refl)

section \<open>What the sniffer watches\<close>

record watch =
  w_names :: "string set"
  w_added :: "u32 set"
  w_sent :: "string list"
  w_queue :: "u8 list list"

definition dns_command :: "string \<Rightarrow> u8 list" where
  "dns_command toa = of_chars (''p '' @ toa) @ [0]"

text \<open>
  The effect of one record: an address of a watched name is commanded unless it was before, an alias of
  a watched name is watched from then on. The record must be one the parser reads, and the control ring
  must have room.
\<close>

definition watch_rr :: "dns_rr \<Rightarrow> watch \<Rightarrow> watch option" where
  "watch_rr rr w = (case rr of (nm, meta, rd) \<Rightarrow>
     if \<not> rr_ok rr then None
     else (case rd of
       Rd_A addr \<Rightarrow>
         if host nm \<in> w_names w \<and> addr_word addr \<notin> w_added w then
           if length (w_queue w) < 2047
           then Some (w\<lparr>w_added := insert (addr_word addr) (w_added w), w_sent := w_sent w @ [dns_toa addr],
                        w_queue := w_queue w @ [dns_command (dns_toa addr)]\<rparr>)
           else None
         else Some w
     | Rd_CNAME ls \<Rightarrow> Some (if host nm \<in> w_names w then w\<lparr>w_names := insert (host ls) (w_names w)\<rparr> else w)
     | _ \<Rightarrow> Some w))"

definition sniff_abs :: "watch \<Rightarrow> sniff_state \<Rightarrow> bool" where
  "sniff_abs w st \<longleftrightarrow> lookupSet st = w_names w \<and> ipsAdded st = w_added w \<and> redirects st = w_sent w
     \<and> kctrl_rep (sn_cmd st) (w_queue w)"

text \<open>The text of an address fits its buffer of 16 bytes, and the command its page.\<close>

lemma dns_toa_length: "length (dns_toa addr) \<le> 15"
proof -
  have "length (show_nat (unat b)) \<le> 3" for b :: u8
  proof (rule show_nat_length)
    have "unat b < 2 ^ LENGTH(8)" by (rule unsigned_less)
    then show "unat b < 256" by simp
  qed
  from this [of "addr ! 0"] this [of "addr ! 1"] this [of "addr ! 2"] this [of "addr ! 3"] show ?thesis
    by (simp add: dns_toa_def)
qed

lemma matchedDns_abs:
  assumes "sniff_abs w st" "length (w_queue w) < 2047" "length toa \<le> 15"
  shows "\<exists>st'. matchedDns u toa st = Some st' \<and> sniff_abs (w\<lparr>w_sent := w_sent w @ [toa], w_queue := w_queue w @ [dns_command toa]\<rparr>) st'"
proof -
  have "kctrl_msg_ok (dns_command toa)" using assms(3) by (simp add: kctrl_msg_ok_def dns_command_def)
  then obtain r where "kctrl_send u (dns_command toa) (sn_cmd st) = Some r" "kctrl_rep r (w_queue w @ [dns_command toa])"
    using kctrl_send_rep [of "sn_cmd st" "w_queue w" "dns_command toa" u] assms(1,2) by (auto simp: sniff_abs_def)
  then show ?thesis
    using assms(1) by (auto simp: matchedDns_def kctrl_send_def dns_command_def sniff_abs_def Let_def add.commute)
qed

lemma rr_effect_abs:
  assumes "sniff_abs w st" "watch_rr rr w = Some w'"
  shows "\<exists>st'. rr_effect u rr st = Some st' \<and> sniff_abs w' st'"
proof -
  obtain nm meta rd where rr: "rr = (nm, meta, rd)" by (cases rr)
  have same: "lookupSet st = w_names w" "ipsAdded st = w_added w" using assms(1) by (simp_all add: sniff_abs_def)
  show ?thesis
  proof (cases rd)
    case (Rd_A addr)
    show ?thesis
    proof (cases "host nm \<in> w_names w \<and> addr_word addr \<notin> w_added w")
      case True
      define w1 where "w1 = w\<lparr>w_added := insert (addr_word addr) (w_added w)\<rparr>"
      have "sniff_abs w1 (st\<lparr>ipsAdded := insert (addr_word addr) (ipsAdded st)\<rparr>)" using assms(1) by (simp add: sniff_abs_def w1_def)
      moreover have "length (w_queue w1) < 2047" and w': "w' = w1\<lparr>w_sent := w_sent w1 @ [dns_toa addr], w_queue := w_queue w1 @ [dns_command (dns_toa addr)]\<rparr>"
        using assms(2) True by (auto simp: watch_rr_def rr Rd_A w1_def split: if_splits)
      ultimately show ?thesis
        using matchedDns_abs [OF _ _ dns_toa_length] True same by (simp add: rr_effect_def rr Rd_A answerA_def)
    next
      case False
      then show ?thesis using assms same by (auto simp: watch_rr_def rr Rd_A rr_effect_def answerA_def split: if_splits)
    qed
  next
    case (Rd_CNAME ls)
    then show ?thesis using assms same
      by (auto simp: watch_rr_def rr rr_effect_def answerCname_def sniff_abs_def insert_absorb split: if_splits)
  qed (use assms in \<open>auto simp: watch_rr_def rr rr_effect_def split: if_splits\<close>)
qed

text \<open>The records of an answer section, one after the other, do what the specification says.\<close>

definition answer_rel :: "vpt \<Rightarrow> node_ptr \<Rightarrow> watch \<Rightarrow> vpt \<times> sniff_state \<Rightarrow> bool" where
  "answer_rel v0 n w x \<longleftrightarrow> sniff_ready v0 n \<and> active (vt v0) = dns_active \<and> kept v0 (fst x) \<and> sniff_abs w (snd x)"

interpretation answers: simulation "\<lambda>rr. run_opt (sniff_step u) (rr_ops rr)" watch_rr "answer_rel v0 n" for u v0 n
proof
  fix w x rr w'
  assume rel: "answer_rel v0 n w x" and spec: "watch_rr rr w = Some w'"
  obtain v st where x: "x = (v, st)" by (cases x)
  have v: "sniff_ready v n" "active (vt v) = dns_active"
    using rel kept_ready [of v0 v n] by (auto simp: answer_rel_def x)
  have "rr_ok rr" using spec by (auto simp: watch_rr_def split: prod.splits if_splits)
  then obtain v' where v': "kept v v'" "\<And>st. run_opt (sniff_step u) (rr_ops rr) (v, st) = map_option (Pair v') (rr_effect u rr st)"
    using rr_sniffed [OF v(1), of rr u] v(2) by (auto simp: dns_active_def)
  obtain st' where "rr_effect u rr st = Some st'" "sniff_abs w' st'"
    using rr_effect_abs [of w st rr w' u] rel spec by (auto simp: answer_rel_def x)
  with v' rel show "\<exists>s'. run_opt (sniff_step u) (rr_ops rr) x = Some s' \<and> answer_rel v0 n w' s'"
    by (auto simp: answer_rel_def x intro: kept_trans)
qed

section \<open>Messages\<close>

lemma wrapped_sniffed:
  assumes "sniff_ready v n" "active (vt v) = []"
    and "run_opt (sniff_step u) ops (sect_open tree n v, st) = Some (x, st')" "kept (sect_open tree n v) x"
  shows "\<exists>v'. run_opt (sniff_step u) (Push tree # ops @ [Pop tree]) (v, st) = Some (v', st') \<and> kept v v'"
  using sect_opened(1) [OF assms(1,2), of u tree st] sect_closed [OF assms(1,2,4), of u] assms(3) by (auto simp: run_opt_append)

lemma section_sniffed:
  assumes ready: "sniff_ready v n" "active (vt v) = []" and ok: "list_all rr_ok rrs" and abs: "sniff_abs w st"
    and watch: "(if tree = DnsAnswer then run_opt watch_rr rrs w else Some w) = Some w'"
  shows "\<exists>v' st'. run_opt (sniff_step u) (section_ops tree rrs) (v, st) = Some (v', st') \<and> kept v v' \<and> sniff_abs w' st'"
proof (cases "rrs = []")
  case True
  then show ?thesis using abs watch by (auto simp: section_ops_def intro!: exI [of _ v] kept_refl split: if_splits)
next
  case False
  define s where "s = sect_open tree n v"
  note opened = sect_opened(2,3) [OF ready, of tree, folded s_def]
  have "\<exists>x st'. run_opt (sniff_step u) (concat (map rr_ops rrs)) (s, st) = Some (x, st') \<and> kept s x \<and> sniff_abs w' st'"
  proof (cases "tree = DnsAnswer")
    case True
    have "answer_rel s (length (nodes v)) w (s, st)" using opened abs True by (simp add: answer_rel_def kept_refl)
    from answers.run_sim [OF this, of rrs w' u] watch True show ?thesis
      by (auto simp: answer_rel_def run_opt_concat run_opt_map comp_def)
  next
    case False
    then show ?thesis using records_ignored [OF opened(1) _ ok, of u] opened(2) abs watch by auto
  qed
  then obtain x st' where "run_opt (sniff_step u) (concat (map rr_ops rrs)) (s, st) = Some (x, st')" "kept s x" "sniff_abs w' st'" by blast
  with wrapped_sniffed [OF ready, of u _ tree st] False show ?thesis unfolding s_def section_ops_def by fastforce
qed

text \<open>Two parts of a message, one after the other.\<close>

lemma parts_sniffed:
  assumes "\<exists>v' st'. run_opt (sniff_step u) ops (v, st) = Some (v', st') \<and> kept v v' \<and> sniff_abs w st'"
    and "\<And>v' st'. kept v v' \<Longrightarrow> sniff_abs w st' \<Longrightarrow> \<exists>v'' st''. run_opt (sniff_step u) ops' (v', st') = Some (v'', st'') \<and> kept v' v'' \<and> sniff_abs w' st''"
  shows "\<exists>v' st'. run_opt (sniff_step u) (ops @ ops') (v, st) = Some (v', st') \<and> kept v v' \<and> sniff_abs w' st'"
  using assms by (fastforce simp: run_opt_append intro: kept_trans)

lemma message_sniffed:
  assumes ok: "msg_ok m" and ready: "sniff_ready v n" "active (vt v) = []" and abs: "sniff_abs w st"
    and watch: "run_opt watch_rr (m_an m) w = Some w'"
  shows "\<exists>v' st'. run_opt (sniff_step u) (msg_ops m) (v, st) = Some (v', st') \<and> kept v v' \<and> sniff_abs w' st'"
proof -
  define s where "s = sect_open DnsPacket n v"
  have s: "sniff_ready s (length (nodes v))" "active (vt s) = []" using sect_opened(2,3) [OF ready, of DnsPacket] by (simp_all add: s_def)
  have oks: "list_all rr_ok (m_an m)" "list_all rr_ok (m_ns m)" "list_all rr_ok (m_ar m)" using ok by (simp_all add: msg_ok_def)
  have stay: "sniff_ready x (length (nodes v))" "active (vt x) = []" if "kept s x" for x
    using kept_ready [OF that s(1)] s(2) by auto
  define qs where "qs = (if m_qd m = [] then [] else [Push DnsQuestion, Pop DnsQuestion])"
  have q: "\<exists>x st'. run_opt (sniff_step u) qs (s, st) = Some (x, st') \<and> kept s x \<and> sniff_abs w st'"
    using wrapped_sniffed [OF s, of u "[]" DnsQuestion st] abs kept_refl by (auto simp: qs_def)
  have an: "\<exists>x st'. run_opt (sniff_step u) (qs @ section_ops DnsAnswer (m_an m)) (s, st) = Some (x, st') \<and> kept s x \<and> sniff_abs w' st'"
    by (rule parts_sniffed [OF q]) (use section_sniffed [OF stay oks(1)] watch in simp)
  have ns: "\<exists>x st'. run_opt (sniff_step u) ((qs @ section_ops DnsAnswer (m_an m)) @ section_ops DnsAuthority (m_ns m)) (s, st) = Some (x, st') \<and> kept s x \<and> sniff_abs w' st'"
    by (rule parts_sniffed [OF an]) (use section_sniffed [OF stay oks(2)] in simp)
  have ar: "\<exists>x st'. run_opt (sniff_step u) (((qs @ section_ops DnsAnswer (m_an m)) @ section_ops DnsAuthority (m_ns m)) @ section_ops DnsAdditional (m_ar m)) (s, st) = Some (x, st') \<and> kept s x \<and> sniff_abs w' st'"
    by (rule parts_sniffed [OF ns]) (use section_sniffed [OF stay oks(3)] in simp)
  then obtain x st' where x: "run_opt (sniff_step u) (((qs @ section_ops DnsAnswer (m_an m)) @ section_ops DnsAuthority (m_ns m)) @ section_ops DnsAdditional (m_ar m)) (s, st) = Some (x, st')"
      "kept s x" "sniff_abs w' st'" by blast
  from wrapped_sniffed [OF ready x(1,2) [unfolded s_def]] x(3) show ?thesis by (auto simp: msg_ops_def qs_def)
qed

section \<open>Which addresses are commanded\<close>

text \<open>The names watched after some records, the addresses of watched names among them, and those that
  are new, each once.\<close>

fun aliases :: "string set \<Rightarrow> dns_rr list \<Rightarrow> string set" where
  "aliases W [] = W"
| "aliases W ((nm, meta, rd) # rrs) = aliases (case rd of Rd_CNAME ls \<Rightarrow> if host nm \<in> W then insert (host ls) W else W | _ \<Rightarrow> W) rrs"

fun targets :: "string set \<Rightarrow> dns_rr list \<Rightarrow> u8 list list" where
  "targets W [] = []"
| "targets W ((nm, meta, rd) # rrs) =
     (case rd of Rd_A addr \<Rightarrow> if host nm \<in> W then [addr] else [] | _ \<Rightarrow> []) @ targets (aliases W [(nm, meta, rd)]) rrs"

fun fresh_addrs :: "u32 set \<Rightarrow> u8 list list \<Rightarrow> u8 list list" where
  "fresh_addrs S [] = []"
| "fresh_addrs S (a # as) = (if addr_word a \<in> S then fresh_addrs S as else a # fresh_addrs (insert (addr_word a) S) as)"

lemma watch_run:
  assumes "list_all rr_ok rrs" "length (w_queue w) + length rrs \<le> 2047"
  shows "run_opt watch_rr rrs w =
    (let as = fresh_addrs (w_added w) (targets (w_names w) rrs) in
     Some (w\<lparr>w_names := aliases (w_names w) rrs, w_added := w_added w \<union> addr_word ` set (targets (w_names w) rrs),
       w_sent := w_sent w @ map dns_toa as, w_queue := w_queue w @ map (\<lambda>a. dns_command (dns_toa a)) as\<rparr>))"
  using assms
proof (induction rrs arbitrary: w)
  case (Cons rr rrs)
  obtain nm meta rd where rr: "rr = (nm, meta, rd)" by (cases rr)
  have "\<exists>w1. watch_rr rr w = Some w1 \<and> length (w_queue w1) \<le> Suc (length (w_queue w))"
    using Cons.prems by (cases rd) (auto simp: watch_rr_def rr)
  then obtain w1 where w1: "watch_rr rr w = Some w1" "length (w_queue w1) \<le> Suc (length (w_queue w))" by blast
  show ?case
    using Cons.IH [of w1] Cons.prems w1
    by (cases rd) (auto simp: watch_rr_def rr Let_def insert_absorb split: if_splits)
qed simp

text \<open>
  (C9) The sniffer commands the addresses of the hosts it watches: when a DNS message is read, with its
  names compressed or not, every address that its answers give for a watched name, or for an alias
  of one that an answer before has introduced, is written to the control ring as a command and
  reported, unless it was commanded before; each once, in the order of the answers, and nothing
  else is. The tree is left as it was but for new nodes, and the parser is ready for the next message.
\<close>

theorem watched_addresses_commanded:
  assumes "msg_ok m" and "sniff_ready v n" "active (vt v) = []"
    and "kctrl_rep (sn_cmd st) q" and "length q + length (m_an m) \<le> 2047"
  shows "\<exists>v' st'. sniff_dns u (fst (enc_msg m)) sects (v, st)
      = Some ([(0, DnsQuestion), (0, DnsAnswer), (0, DnsAuthority), (0, DnsAdditional)], v', st') \<and> kept v v' \<and>
    (let as = fresh_addrs (ipsAdded st) (targets (lookupSet st) (m_an m)) in
     kctrl_rep (sn_cmd st') (q @ map (\<lambda>a. dns_command (dns_toa a)) as) \<and> redirects st' = redirects st @ map dns_toa as \<and>
     lookupSet st' = aliases (lookupSet st) (m_an m) \<and>
     ipsAdded st' = ipsAdded st \<union> addr_word ` set (targets (lookupSet st) (m_an m)))"
proof -
  define w where "w = \<lparr>w_names = lookupSet st, w_added = ipsAdded st, w_sent = redirects st, w_queue = q\<rparr>"
  have "sniff_abs w st" using assms(4) by (simp add: sniff_abs_def w_def)
  moreover have "list_all rr_ok (m_an m)" using assms(1) by (simp add: msg_ok_def)
  ultimately obtain v' st' where r: "run_opt (sniff_step u) (msg_ops m) (v, st) = Some (v', st')" "kept v v'"
      "sniff_abs (let as = fresh_addrs (w_added w) (targets (w_names w) (m_an m)) in
        w\<lparr>w_names := aliases (w_names w) (m_an m), w_added := w_added w \<union> addr_word ` set (targets (w_names w) (m_an m)),
          w_sent := w_sent w @ map dns_toa as, w_queue := w_queue w @ map (\<lambda>a. dns_command (dns_toa a)) as\<rparr>) st'"
    using message_sniffed [OF assms(1-3), of w st _ u] watch_run [of "m_an m" w] assms(5) by (auto simp: Let_def w_def)
  then show ?thesis
    using dns_message_read [OF assms(1), of sects] by (intro exI [of _ v'] exI [of _ st']) (simp add: sniff_dns_def sniff_abs_def w_def Let_def)
qed

definition sample_writer :: kring_user where
  "sample_writer = \<lparr>u_socket = 3, u_ring_id = 0, u_nrings = 1, u_writer_id = 2, u_reader_id = -1, u_mode = KRING_WRITE, u_krerr = 0, u_errno = 0\<rparr>"

definition sample_sniff :: sniff_state where
  "sample_sniff = \<lparr>lookupSet = {''a.b''}, ipsAdded = {}, sn_cmd = kctrl_fresh, redirects = []\<rparr>"

theorem watched_addresses_commanded_witness:
  "\<exists>v' st'. sniff_dns sample_writer (fst (enc_msg sample_dns)) [] (sniff_configureContext (VPT_new 0), sample_sniff)
      = Some ([(0, DnsQuestion), (0, DnsAnswer), (0, DnsAuthority), (0, DnsAdditional)], v', st') \<and>
    kctrl_rep (sn_cmd st') [of_chars ''p 10.0.0.7'' @ [0]] \<and> lookupSet st' = {''a.b'', ''c.b''}"
proof -
  have ready: "sniff_ready (sniff_configureContext (VPT_new 0)) 0" "active (vt (sniff_configureContext (VPT_new 0))) = []"
    by (simp_all add: sniff_ready_def sniff_configureContext_def addPat_def VPT_new_def new_stack_node_def)
  have hosts: "host [[97], [98]] = ''a.b''" "host [[99], [98]] = ''c.b''" "host [[98]] = ''b''"
    by (simp_all add: host_def to_chars_def c_str_def char_of_def bit_Suc_0_iff)
  have toa: "dns_toa [10, 0, 0, 7] = ''10.0.0.7''" by (simp add: dns_toa_def show_nat.simps char_of_def bit_Suc_0_iff)
  have "kctrl_rep (sn_cmd sample_sniff) []" by (simp add: sample_sniff_def kctrl_rep_fresh)
  from watched_addresses_commanded [OF sample_dns_ok ready this, of sample_writer "[]"]
  show ?thesis by (auto simp: sample_dns_def sample_sniff_def hosts toa dns_command_def Let_def insert_commute)
qed

end
