(* ===== verification/Sniff_Shuttle.thy ===== *)
theory Sniff_Shuttle
  imports Sniff_Dns Shuttle_Frames
begin

text \<open>
  The sniffer and the shuttle together: a command that the sniffer writes for an address is taken
  from the control ring by the kernel, and from that frame on connections to port 443 of the
  address are handed to the host, where the proxy listens. \<open>in_aton\<close> is the kernel's; what is
  used of it is that it reads an address in dotted notation.
\<close>

definition reads_dotted :: "(u8 list \<Rightarrow> u32) \<Rightarrow> bool" where
  "reads_dotted in_aton \<longleftrightarrow> (\<forall>a. length a = 4 \<longrightarrow> in_aton (of_chars (dns_toa a)) = addr_word a)"

section \<open>The text of a command\<close>

lemma of_chars_show_nat: "b \<in> set (of_chars (show_nat n)) \<Longrightarrow> 48 \<le> b \<and> b \<le> 57"
proof -
  assume "b \<in> set (of_chars (show_nat n))"
  then obtain c where c: "c \<in> set (show_nat n)" "b = word_of_nat (of_char c)" by (auto simp: of_chars_def)
  then have "of_char c \<in> {48..57::nat}" using show_nat_digits by blast
  then have "unat b = of_char c" using c(2) by (simp add: unat_of_nat)
  with \<open>of_char c \<in> {48..57::nat}\<close> show ?thesis by (simp add: word_le_nat_alt)
qed

lemma of_chars_dot: "of_chars (CHR ''.'' # cs) = 46 # of_chars cs"
  by (simp add: of_chars_def)

lemma toa_bytes: "b \<in> set (of_chars (dns_toa a)) \<Longrightarrow> b \<noteq> 0 \<and> \<not> isspace b"
proof -
  have digit: "b \<noteq> 0 \<and> \<not> isspace b" if "48 \<le> b \<and> b \<le> 57" for b :: u8
    using that by (auto simp: isspace_def word_le_nat_alt word_unat_eq_iff)
  assume "b \<in> set (of_chars (dns_toa a))"
  then have "b = 46 \<or> 48 \<le> b \<and> b \<le> 57" by (auto simp: dns_toa_def of_chars_dot dest: of_chars_show_nat)
  then show ?thesis using digit by (auto simp: isspace_def)
qed

lemma command_scanned:
  shows "takeWhile (\<lambda>b. b \<noteq> 0) (dns_command (dns_toa a)) = 112 # 32 # of_chars (dns_toa a)"
    and "scan_word (32 # of_chars (dns_toa a)) = (of_chars (dns_toa a), [])"
    and "of_chars (dns_toa a) \<noteq> []" "length (of_chars (dns_toa a)) < 32"
proof -
  have p: "of_chars (''p '' @ dns_toa a) = 112 # 32 # of_chars (dns_toa a)" by (simp add: of_chars_def)
  have nz: "takeWhile (\<lambda>b. b \<noteq> 0) (of_chars (dns_toa a) @ [0]) = of_chars (dns_toa a)"
    using toa_bytes [of _ a] by (subst takeWhile_append2) auto
  then show "takeWhile (\<lambda>b. b \<noteq> 0) (dns_command (dns_toa a)) = 112 # 32 # of_chars (dns_toa a)"
    unfolding dns_command_def p by simp
  show ne: "of_chars (dns_toa a) \<noteq> []" by (simp add: of_chars_def dns_toa_def)
  then have "dropWhile isspace (of_chars (dns_toa a)) = of_chars (dns_toa a)"
    using toa_bytes [of _ a] by (cases "of_chars (dns_toa a)") auto
  moreover have "takeWhile (\<lambda>b. \<not> isspace b) (of_chars (dns_toa a)) = of_chars (dns_toa a)"
    using toa_bytes [of _ a] by (simp add: takeWhile_eq_all_conv)
  moreover have "dropWhile (\<lambda>b. \<not> isspace b) (of_chars (dns_toa a)) = []"
    using toa_bytes [of _ a] by (simp add: dropWhile_eq_Nil_conv)
  ultimately show "scan_word (32 # of_chars (dns_toa a)) = (of_chars (dns_toa a), [])"
    by (simp add: scan_word_def isspace_def [of 32] Let_def)
  show "length (of_chars (dns_toa a)) < 32" using dns_toa_length [of a] by simp
qed

section \<open>The command in the kernel\<close>

lemma ip_added:
  assumes "0 \<le> lk_nips l" "lk_nips l < 256" "length (lk_ips l) = 256"
  shows "in_ip_list (snd (link_ip_add_store in_aton ip l)) (in_aton ip)"
proof -
  define l' where "l' = snd (link_ip_add_store in_aton ip l)"
  have l': "lk_nips l' = lk_nips l + 1" "lk_ips l' = (lk_ips l)[nat (lk_nips l) := in_aton ip]"
    using assms(2) by (simp_all add: l'_def link_ip_add_store_def)
  have "nat (lk_nips l) < nat (lk_nips l')" "lk_ips l' ! nat (lk_nips l) = in_aton ip" using assms by (simp_all add: l')
  then show ?thesis unfolding l'_def [symmetric] by (auto simp: in_ip_list_def list_ex_iff)
qed

text \<open>
  (C16) An address commanded by the sniffer is diverted at once: when its command is the next on the control
  ring and the list of addresses has room, the frame that the kernel handles then, if it goes from
  the inside to port 443 of the address and its connection is not blocked, is given to the host
  and not sent on, and the address stays in the list.
\<close>

theorem commanded_address_diverted:
  assumes ready: "link_ready (ss_link st)" and rep: "kctrl_rep (ss_cmd st) (dns_command (dns_toa a) # q)" and a: "length a = 4"
    and aton: "reads_dotted in_aton"
    and room: "0 \<le> lk_nips (ss_link st)" "lk_nips (ss_link st) < 256" "length (lk_ips (ss_link st)) = 256"
    and table: "table_holds (ss_block st) C P" "skb_conn skb \<notin> C"
    and frame: "skb_dev skb = lk_inside (ss_link st)" "is_tcp skb" "th_dest skb = 443" "ip_daddr skb = addr_word a"
    and ring: "lk_kring (ss_link st) = Some k" "user_on i (kk_user k)" "packets_unread i rid (ss_rings st) us"
    and len: "skb_len skb < 2 ^ 31" "length us + (skb_len skb + 4087) div 4088 \<le> 2047"
  shows "\<exists>st'. shuttle_handle_frame in_aton kmalloc skb True st = Some ([Netif_receive_skb (lk_dev (ss_link st))], st') \<and>
    in_ip_list (ss_link st') (addr_word a) \<and> kctrl_rep (ss_cmd st') q \<and>
    packets_unread i rid (ss_rings st') (us @ fragments KDATA_DIR_INSIDE (skb_bytes skb))"
proof -
  define msg where "msg = dns_command (dns_toa a)"
  define l where "l = snd (link_ip_add_store in_aton (of_chars (dns_toa a)) (ss_link st))"
  have msg: "kctrl_msg_ok msg" "0 \<in> set msg"
    using dns_toa_length [of a] by (simp_all add: msg_def kctrl_msg_ok_def dns_command_def)
  obtain r where r: "kctrl_rep r q" "take_command in_aton kmalloc st =
      map_option (\<lambda>(link, block). st\<lparr>ss_link := link, ss_block := block, ss_cmd := r\<rparr>)
        (parse_kring_command in_aton kmalloc (takeWhile (\<lambda>b. b \<noteq> 0) msg) (ss_link st, ss_block st))"
    using take_command_msg [of st msg q in_aton kmalloc] rep msg ready by (auto simp: msg_def link_ready_def)
  define st1 where "st1 = st\<lparr>ss_link := l, ss_cmd := r\<rparr>"
  have parse: "parse_kring_command in_aton kmalloc (takeWhile (\<lambda>b. b \<noteq> 0) msg) (ss_link st, ss_block st) = Some (l, ss_block st)"
    using command_scanned [of a] by (simp add: parse_kring_command_def msg_def l_def)
  then have take: "take_command in_aton kmalloc st = Some st1" using r(2) by (simp add: st1_def)
  have l: "lk_inside l = lk_inside (ss_link st)" "lk_outside l = lk_outside (ss_link st)" "lk_dev l = lk_dev (ss_link st)" "lk_kring l = lk_kring (ss_link st)"
    using parse_command_ports [OF parse] by simp_all
  have ip: "in_ip_list l (addr_word a)" using ip_added [OF room, of in_aton "of_chars (dns_toa a)"] aton a by (simp add: l_def reads_dotted_def)
  have "block_conn (ss_block st1) skb = Some False" using block_conn_ok [OF table(1), of skb] table(2) by (simp add: st1_def)
  moreover have dir: "KDATA_DIR_INSIDE \<in> {KDATA_DIR_INSIDE, KDATA_DIR_OUTSIDE}" by simp
  obtain rs' where w: "link_kwrite KDATA_DIR_INSIDE skb st1 = Some (st1\<lparr>ss_rings := rs'\<rparr>)"
      "packets_unread i rid rs' (us @ fragments KDATA_DIR_INSIDE (skb_bytes skb))"
    using link_kwrite_ok [of st1 k i rid us skb, OF _ ring(2) _ len dir] ring(1,3) l(4) by (auto simp: st1_def)
  ultimately have "from_inside skb st1 = Some ([Netif_receive_skb (lk_dev (ss_link st))], st1\<lparr>ss_rings := rs'\<rparr>)"
    using frame(2-4) ip l(3) by (simp add: from_inside_def Let_def st1_def)
  then have "shuttle_handle_frame in_aton kmalloc skb True st = Some ([Netif_receive_skb (lk_dev (ss_link st))], st1\<lparr>ss_rings := rs'\<rparr>)"
    using ready frame(1) take l by (simp add: shuttle_handle_frame_def link_ready_def st1_def)
  then show ?thesis using ip r(1) w(2) by (intro exI [of _ "st1\<lparr>ss_rings := rs'\<rparr>"]) (simp add: st1_def)
qed

text \<open>A function that reads addresses as the kernel does.\<close>

fun aton_parts :: "nat \<Rightarrow> u8 list \<Rightarrow> nat list" where
  "aton_parts acc [] = [acc]"
| "aton_parts acc (b # bs) = (if b = 46 then acc # aton_parts 0 bs else aton_parts (acc * 10 + (unat b - 48)) bs)"

definition sample_aton :: "u8 list \<Rightarrow> u32" where
  "sample_aton bs = addr_word (map word_of_nat (aton_parts 0 bs))"

lemma aton_parts_show: "aton_parts 0 (of_chars (show_nat n) @ rest) = aton_parts n rest"
proof (induction n arbitrary: rest rule: show_nat.induct)
  case (1 n)
  have digit: "aton_parts acc (of_chars [char_of (48 + k :: nat)] @ rest) = aton_parts (acc * 10 + k) rest" if "k < 10" for acc k rest
  proof -
    have "unat (word_of_nat (48 + k) :: u8) = 48 + k" using that by (simp only: unat_of_nat) simp
    then have "unat (word_of_nat (48 + k) :: u8) - 48 = k" "(word_of_nat (48 + k) :: u8) \<noteq> 46" by (auto simp: word_unat_eq_iff)
    then show ?thesis using that by (simp add: of_chars_def of_char_of)
  qed
  show ?case
  proof (cases "n < 10")
    case True
    then show ?thesis using digit [of n 0 rest] by (subst show_nat.simps) simp
  next
    case False
    have "aton_parts 0 (of_chars (show_nat n) @ rest) = aton_parts 0 (of_chars (show_nat (n div 10)) @ of_chars [char_of (48 + n mod 10)] @ rest)"
      using False by (subst show_nat.simps) simp
    also have "\<dots> = aton_parts (n div 10) (of_chars [char_of (48 + n mod 10)] @ rest)" using "1.IH" [OF False] .
    also have "\<dots> = aton_parts n rest" using digit [of "n mod 10" "n div 10" rest] by simp
    finally show ?thesis .
  qed
qed

lemma sample_aton_reads: "reads_dotted sample_aton"
proof -
  have "aton_parts 0 (of_chars (dns_toa a)) = map unat [a ! 0, a ! 1, a ! 2, a ! 3]" for a
    using aton_parts_show [of "unat (a ! 3)" "[]"] by (simp add: dns_toa_def of_chars_dot aton_parts_show)
  then show ?thesis by (simp add: reads_dotted_def sample_aton_def addr_word_def)
qed

definition https_frame :: sk_buff where
  "https_frame = \<lparr>skb_dev = 1, skb_len = 60,
     skb_mem = (\<lambda>_. 0)(12 := 8, 14 := 69, 23 := 6, 26 := 50, 30 := 10, 33 := 7, 35 := 90, 36 := 1, 37 := 187)\<rparr>"

theorem commanded_address_diverted_witness:
  "\<exists>r st'. kctrl_rep r [of_chars ''p 10.0.0.7'' @ [0]] \<and>
     shuttle_handle_frame sample_aton (8, 16) https_frame True (sample_state\<lparr>ss_cmd := r\<rparr>) = Some ([Netif_receive_skb 3], st') \<and>
     in_ip_list (ss_link st') (addr_word [10, 0, 0, 7])"
proof -
  have toa: "dns_toa [10, 0, 0, 7] = ''10.0.0.7''" by (simp add: dns_toa_def show_nat.simps char_of_def bit_Suc_0_iff)
  obtain r where r: "kctrl_rep r [dns_command (dns_toa [10, 0, 0, 7])]"
    using kctrl_send_rep [OF kctrl_rep_fresh, of "dns_command (dns_toa [10, 0, 0, 7])"] dns_toa_length [of "[10, 0, 0, 7]"]
    by (auto simp: kctrl_msg_ok_def dns_command_def)
  define st where "st = sample_state\<lparr>ss_cmd := r\<rparr>"
  have st: "ss_link st = sample_link" "ss_block st = block_empty blank_heap (\<lambda>_. connection 0 0 0 0)" "ss_cmd st = r" "ss_rings st = entered_rings 2"
    by (simp_all add: st_def sample_state_def)
  have ihl: "ip_ihlen https_frame = 20" by (simp add: ip_ihlen_def https_frame_def)
  have frame: "is_tcp https_frame" "th_dest https_frame = 443" "ip_daddr https_frame = addr_word [10, 0, 0, 7]"
      "skb_dev https_frame = 1" "skb_len https_frame = 60"
    by (simp_all add: is_tcp_def h_proto_def ip_protocol_def be16_def th_dest_def ihl ip_daddr_def get_uint_4 addr_word_def)
      (simp_all add: https_frame_def)
  have unread: "packets_unread 0 2 (entered_rings 2) []" using entered_inv [of 2 0] entered_unread [of 2 0] by (simp add: packets_unread_def)
  have user: "user_on 0 (user_handle 0 0 KRING_WRITE)" by (simp add: user_on_def user_handle_def)
  from commanded_address_diverted [of st "[10, 0, 0, 7]" "[]" sample_aton "{}" "{}" https_frame _ 0 2 "[]" "(8, 16)"]
  show ?thesis
    using r sample_aton_reads frame unread user
    by (auto simp: st toa dns_command_def table_empty sample_link_def link_ready_def st_def [symmetric])
qed

end
