(* ===== verification/Tls_Proxy.thy ===== *)
theory Tls_Proxy
  imports Kdata Genf_Write Runs
begin

text \<open>
  The TLS proxy: src/tlsproxy/proxy.cc and proxy.h, with what it uses of src/genf/tls.cc,
  src/genf/connection.cc and \<open>selectFdReady\<close> of src/genf/select.cc. A proxied connection has two
  ends, the one accepted (\<open>Server\<close>) and the one made to the true server (\<open>Client\<close>); each end keeps
  the blocks of data that wait to be written to it. OpenSSL is outside: what \<open>SSL_read\<close> and
  \<open>SSL_write\<close> will answer is a schedule in the state of the end, and the results of \<open>SSL_accept\<close>
  and \<open>SSL_connect\<close>, of the verification of the peer and of the host comparison are arguments of
  the events. \<open>received\<close>, \<open>sent\<close> and \<open>parsed\<close> record the bytes read from an end, written to it, and
  given to the traffic parser. An end keeps its \<open>SelectFd\<close> after its connection was closed, but the
  pointer of the connection to it is null then (\<open>selectFd_null\<close>); \<open>None\<close> is a use of that pointer.
\<close>

section \<open>Data\<close>

datatype end_type = Server | Client

definition other :: "end_type \<Rightarrow> end_type" where
  "other e = (case e of Server \<Rightarrow> Client | Client \<Rightarrow> Server)"

datatype fd_state = Fd_Lookup | Fd_Connect | Fd_TlsAccept | Fd_TlsConnect | Fd_TlsEstablished | Fd_Established

text \<open>A block of \<open>blocklen\<close> bytes: the bytes up to \<open>tail\<close>, and \<open>head\<close>.\<close>

record wr_block =
  blk_data :: "u8 list"
  blk_head :: nat

definition blocklen :: nat where
  "blocklen = nat kdata_decrypted_max_data"

datatype tls_read_out = RData "u8 list" | RWantRead | RWantWrite | RError
datatype tls_write_out = WAccept nat | WWantRead | WWantWrite | WError

record proxy_end =
  pe_fd :: select_fd
  selectFd_null :: bool
  pe_state :: fd_state
  sslVerifyError :: bool
  pe_stop :: bool
  pe_connected :: bool
  haveHostname :: bool
  hostname :: string
  wbList :: "wr_block list"
  pe_reads :: "tls_read_out list"
  pe_writes :: "tls_write_out list"
  received :: "u8 list"
  sent :: "u8 list"
  parsed :: "u8 list"

type_synonym proxy = "end_type \<Rightarrow> proxy_end"

text \<open>A connection just accepted: the accepted end waits for the handshake, the other for its socket.\<close>

definition proxy_new :: "(end_type \<Rightarrow> tls_read_out list) \<Rightarrow> (end_type \<Rightarrow> tls_write_out list) \<Rightarrow> proxy" where
  "proxy_new rs ws e = \<lparr>pe_fd = selectFd_new\<lparr>wantRead := (e = Server), wantWrite := (e = Client)\<rparr>,
     selectFd_null = False, pe_state = (case e of Server \<Rightarrow> Fd_TlsAccept | Client \<Rightarrow> Fd_Connect), sslVerifyError = False,
     pe_stop = False, pe_connected = False, haveHostname = False, hostname = [], wbList = [],
     pe_reads = rs e, pe_writes = ws e, received = [], sent = [], parsed = []\<rparr>"

abbreviation upd_fd :: "(select_fd \<Rightarrow> select_fd) \<Rightarrow> proxy_end \<Rightarrow> proxy_end" where
  "upd_fd f pe \<equiv> pe\<lparr>pe_fd := f (pe_fd pe)\<rparr>"

section \<open>TLS\<close>

definition tlsRead :: "nat \<Rightarrow> proxy_end \<Rightarrow> (int \<times> u8 list) \<times> proxy_end" where
  "tlsRead len pe =
     (let pe = upd_fd (\<lambda>f. f\<lparr>tlsReadWantsWrite := False\<rparr>) pe
      in case pe_reads pe of
           [] \<Rightarrow> ((0, []), pe)
         | RData d # rs \<Rightarrow>
             (let n = min len (length d)
              in ((int n, take n d), pe\<lparr>received := received pe @ take n d,
                    pe_reads := (if n < length d then RData (drop n d) # rs else rs)\<rparr>))
         | RWantRead # rs \<Rightarrow> ((0, []), pe\<lparr>pe_reads := rs\<rparr>)
         | RWantWrite # rs \<Rightarrow> ((0, []), upd_fd (\<lambda>f. f\<lparr>tlsReadWantsWrite := True\<rparr>) (pe\<lparr>pe_reads := rs\<rparr>))
         | RError # rs \<Rightarrow> ((-1, []), pe\<lparr>pe_reads := rs\<rparr>))"

definition tlsWrite :: "u8 list \<Rightarrow> proxy_end \<Rightarrow> int \<times> proxy_end" where
  "tlsWrite bytes pe =
     (if bytes = [] then (0, pe)
      else let pe = upd_fd (\<lambda>f. f\<lparr>tlsWriteWantsRead := False\<rparr>) pe
      in case pe_writes pe of
           [] \<Rightarrow> (0, pe)
         | WAccept k # ws \<Rightarrow>
             (let n = min k (length bytes)
              in (int n, pe\<lparr>sent := sent pe @ take n bytes, pe_writes := ws\<rparr>))
         | WWantWrite # ws \<Rightarrow> (0, pe\<lparr>pe_writes := ws\<rparr>)
         | WWantRead # ws \<Rightarrow> (0, upd_fd (\<lambda>f. f\<lparr>tlsWriteWantsRead := True\<rparr>) (pe\<lparr>pe_writes := ws\<rparr>))
         | WError # ws \<Rightarrow> (-1, pe\<lparr>pe_writes := ws\<rparr>))"

section \<open>Blocks\<close>

definition readAvail :: "proxy_end \<Rightarrow> nat" where
  "readAvail pe = (if wbList pe = [] then 0 else blocklen - length (blk_data (last (wbList pe))))"

text \<open>\<open>readTo\<close> and \<open>readIn\<close>: the bytes go to the end of the last block.\<close>

definition readIn :: "u8 list \<Rightarrow> proxy_end \<Rightarrow> proxy_end" where
  "readIn d pe = pe\<lparr>wbList := butlast (wbList pe)
     @ [(last (wbList pe))\<lparr>blk_data := blk_data (last (wbList pe)) @ d\<rparr>]\<rparr>"

definition addSpace :: "proxy_end \<Rightarrow> proxy_end" where
  "addSpace pe = pe\<lparr>wbList := wbList pe @ [\<lparr>blk_data = [], blk_head = 0\<rparr>]\<rparr>"

definition writeAvail :: "proxy_end \<Rightarrow> nat" where
  "writeAvail pe = (if wbList pe = [] then 0 else length (blk_data (hd (wbList pe))) - blk_head (hd (wbList pe)))"

text \<open>\<open>writeFrom\<close>: the first block, from the \<open>head\<close> of the last one.\<close>

definition writeFrom :: "proxy_end \<Rightarrow> u8 list" where
  "writeFrom pe = drop (blk_head (last (wbList pe))) (blk_data (hd (wbList pe)))"

definition consume :: "nat \<Rightarrow> proxy_end \<Rightarrow> proxy_end" where
  "consume n pe = (case wbList pe of
     [] \<Rightarrow> pe
   | b # bs \<Rightarrow> pe\<lparr>wbList := (if length (blk_data b) \<le> blk_head b + n then bs
                             else b\<lparr>blk_head := blk_head b + n\<rparr> # bs)\<rparr>)"

section \<open>Moving data\<close>

definition proxyShutdown :: "end_type \<Rightarrow> proxy \<Rightarrow> proxy option" where
  "proxyShutdown e p =
     (if selectFd_null (p (other e)) then None
      else let shut = upd_fd (\<lambda>f. f\<lparr>fd_closed := True, wantRead := False, wantWrite := False\<rparr>)
           in Some (p(e := shut (p e), other e := (shut (p (other e)))\<lparr>pe_stop := True\<rparr>)))"

text \<open>The loop of \<open>proxyWrite\<close>, one write of the schedule in each round; the result says that the
  write failed.\<close>

function write_loop :: "proxy_end \<Rightarrow> proxy_end \<times> bool" where
  "write_loop pe =
     (let len = writeAvail pe
      in if len = 0 then (upd_fd (\<lambda>f. f\<lparr>tlsWantWrite := False\<rparr>) pe, False)
         else let bytes = take len (writeFrom pe);
                  (written, pe') = tlsWrite bytes pe
              in if written < 0 then (pe', True)
                 else if written = 0 then (upd_fd (\<lambda>f. f\<lparr>tlsWantWrite := True\<rparr>) pe', False)
                 else write_loop (consume (nat written)
                        (pe'\<lparr>parsed := parsed pe' @ take (nat written) bytes\<rparr>)))"
  by pat_completeness auto
termination
  by (relation "measure (\<lambda>pe. length (pe_writes pe))")
    (auto simp: tlsWrite_def consume_def Let_def split: list.splits tls_write_out.splits if_splits)

declare write_loop.simps [simp del]

definition proxyWrite :: "end_type \<Rightarrow> proxy \<Rightarrow> proxy option" where
  "proxyWrite e p =
     (if selectFd_null (p e) then None
      else if pe_state (p e) \<noteq> Fd_TlsEstablished
      then Some (p(e := upd_fd (\<lambda>f. f\<lparr>tlsWantWrite := True\<rparr>) (p e)))
      else let (pe, failed) = write_loop (p e)
           in if failed then proxyShutdown e (p(e := pe)) else Some (p(e := pe)))"

lemma other_neq [simp]: "other e \<noteq> e" "e \<noteq> other e" "other (other e) = e"
  by (cases e; simp add: other_def)+

lemma proxyWrite_reads: "proxyWrite (other e) p = Some p' \<Longrightarrow> pe_reads (p' e) = pe_reads (p e)"
  by (auto simp: proxyWrite_def proxyShutdown_def Let_def split: prod.splits if_splits)

fun reads_left :: "tls_read_out list \<Rightarrow> nat" where
  "reads_left [] = 0"
| "reads_left (RData d # rs) = Suc (length d) + reads_left rs"
| "reads_left (_ # rs) = Suc (reads_left rs)"

lemma tlsRead_left: "tlsRead n pe = ((nbytes, d), pe') \<Longrightarrow> 0 < nbytes \<Longrightarrow> reads_left (pe_reads pe') < reads_left (pe_reads pe)"
  by (auto simp: tlsRead_def Let_def split: list.splits tls_read_out.splits if_splits)

text \<open>\<open>sslReadReady\<close>: what is read from the end \<open>e\<close> goes to the blocks of the other.\<close>

function sslReadReady :: "end_type \<Rightarrow> proxy \<Rightarrow> proxy option" where
  "sslReadReady e p =
     (let o1 = (if readAvail (p (other e)) = 0 then addSpace (p (other e)) else p (other e))
      in case tlsRead (readAvail o1) (p e) of ((nbytes, d), pe) \<Rightarrow>
         let p1 = p(other e := o1, e := pe)
         in if nbytes < 0 then proxyShutdown e p1
            else if 0 < nbytes then
              (case proxyWrite (other e) (p1(other e := readIn d o1)) of
                 None \<Rightarrow> None
               | Some p2 \<Rightarrow> if \<not> fd_closed (pe_fd (p2 e)) then sslReadReady e p2 else Some p2)
            else Some p1)"
  by pat_completeness auto
termination
  by (relation "measure (\<lambda>(e, p). reads_left (pe_reads (p e)))") (auto dest!: proxyWrite_reads intro: tlsRead_left [OF sym])

declare sslReadReady.simps [simp del]

section \<open>Making the connections\<close>

definition str_bytes :: "string \<Rightarrow> u8 list" where
  "str_bytes str = map (\<lambda>c. word_of_nat (of_char c)) str"

definition verifyResponse :: "u8 list" where
  "verifyResponse = str_bytes (''HTTP/1.1 422 Unprocessable Entity'' @ [CHR 0x0D, CHR 0x0A, CHR 0x0D, CHR 0x0A]
     @ ''proxy could not verify TLS connection to server'' @ [CHR 0x0D, CHR 0x0A])"

definition Connection_close :: "end_type \<Rightarrow> proxy \<Rightarrow> proxy" where
  "Connection_close e p = p(e := upd_fd (\<lambda>f. f\<lparr>fd_closed := True\<rparr>) ((p e)\<lparr>selectFd_null := True\<rparr>))"

definition startTlsClient :: "proxy_end \<Rightarrow> proxy_end" where
  "startTlsClient pe = upd_fd (\<lambda>f. f\<lparr>wantRead := False, wantWrite := True\<rparr>) pe"

definition maybeStartTlsClient :: "proxy \<Rightarrow> proxy option" where
  "maybeStartTlsClient p =
     (if pe_connected (p Client) \<and> haveHostname (p Server)
      then (if selectFd_null (p Client) then None
            else Some (p(Client := (startTlsClient (p Client))\<lparr>pe_state := Fd_TlsConnect\<rparr>)))
      else Some p)"

definition serverName :: "string \<Rightarrow> proxy \<Rightarrow> proxy option" where
  "serverName host p = maybeStartTlsClient (p(Server := (p Server)\<lparr>haveHostname := True, hostname := host\<rparr>))"

definition sslPeerFailedVerify :: "end_type \<Rightarrow> proxy \<Rightarrow> proxy option" where
  "sslPeerFailedVerify e p = proxyWrite (other e)
     (p(other e := readIn verifyResponse (addSpace (p (other e))))) \<bind> proxyShutdown e"

text \<open>\<open>connectComplete\<close> of the thread, when the handshake with the server is done.\<close>

definition proxy_connectComplete :: "end_type \<Rightarrow> proxy \<Rightarrow> proxy option" where
  "proxy_connectComplete e p =
     (if sslVerifyError (p e) then sslPeerFailedVerify e p
      else sslReadReady e (p(e := upd_fd (\<lambda>f. f\<lparr>tlsEstablished := True, tlsWantRead := True\<rparr>)
             ((p e)\<lparr>pe_state := Fd_TlsEstablished\<rparr>))))"

text \<open>\<open>connectComplete\<close> of the connection, when its socket is connected: back to the state \<open>Connect\<close>
  until the name of the server is known.\<close>

definition ProxyConnection_connectComplete :: "end_type \<Rightarrow> proxy \<Rightarrow> proxy option" where
  "ProxyConnection_connectComplete e p =
     (if pe_state (p e) = Fd_Established
      then maybeStartTlsClient (p(e := upd_fd (\<lambda>f. f\<lparr>wantWrite := False, wantRead := False\<rparr>)
             ((p e)\<lparr>pe_connected := True, pe_state := Fd_Connect\<rparr>)))
      else if pe_state (p e) = Fd_TlsEstablished then proxy_connectComplete e p
      else Some p)"

text \<open>\<open>failure\<close> of the connection does something for a failed verification only.\<close>

definition connConnectReady :: "bool \<Rightarrow> end_type \<Rightarrow> proxy \<Rightarrow> proxy option" where
  "connConnectReady ok e p =
     (let p = p(e := upd_fd (\<lambda>f. f\<lparr>wantWrite := False\<rparr>) (p e))
      in if ok then ProxyConnection_connectComplete e
             (p(e := upd_fd (\<lambda>f. f\<lparr>wantRead := True\<rparr>) ((p e)\<lparr>pe_state := Fd_Established\<rparr>)))
         else Some (Connection_close e p))"

datatype ssl_result = SslOk | SslWantRead | SslWantWrite | SslFail

definition prepNextRound :: "ssl_result \<Rightarrow> proxy_end \<Rightarrow> proxy_end" where
  "prepNextRound r pe = upd_fd (\<lambda>f. f\<lparr>wantRead := (r = SslWantRead), wantWrite := (r = SslWantWrite)\<rparr>) pe"

text \<open>\<open>verified\<close>: the certificate of the peer was verified; \<open>matches\<close>: it is for the host asked for.\<close>

definition connTlsConnectReady :: "ssl_result \<Rightarrow> bool \<Rightarrow> bool \<Rightarrow> end_type \<Rightarrow> proxy \<Rightarrow> proxy option" where
  "connTlsConnectReady r verified matches e p =
     (if r \<noteq> SslOk then Some (p(e := prepNextRound r (p e)))
      else if \<not> verified then
        map_option (Connection_close e) (sslPeerFailedVerify e (p(e := (p e)\<lparr>sslVerifyError := True\<rparr>)))
      else if \<not> matches then
        Some (Connection_close e (p(e := (p e)\<lparr>sslVerifyError := True\<rparr>)))
      else ProxyConnection_connectComplete e (p(e := upd_fd (\<lambda>f. f\<lparr>tlsEstablished := True, tlsWantRead := True\<rparr>)
             ((p e)\<lparr>pe_state := Fd_TlsEstablished\<rparr>))))"

definition notifyAccept :: "end_type \<Rightarrow> proxy \<Rightarrow> proxy option" where
  "notifyAccept e p = sslReadReady e (p(e := upd_fd (\<lambda>f. f\<lparr>tlsWantRead := True\<rparr>) (p e)))"

definition connTlsAcceptReady :: "ssl_result \<Rightarrow> end_type \<Rightarrow> proxy \<Rightarrow> proxy option" where
  "connTlsAcceptReady r e p =
     (if r \<noteq> SslOk then Some (p(e := prepNextRound r (p e)))
      else notifyAccept e (p(e := upd_fd (\<lambda>f. f\<lparr>tlsEstablished := True\<rparr>)
             ((p e)\<lparr>pe_state := Fd_TlsEstablished\<rparr>))))"

definition connTlsEstablishedReady :: "end_type \<Rightarrow> proxy \<Rightarrow> proxy option" where
  "connTlsEstablishedReady e p =
     (if tlsWantRead (pe_fd (p e)) then sslReadReady e p else Some p)
       \<bind> (\<lambda>p1. if tlsWantWrite (pe_fd (p1 e)) then proxyWrite e p1 else Some p1)"

text \<open>What the select loop sees: the name the peer announces during its handshake, for which OpenSSL
  runs its callback once, and an end that is ready, which its state sends to one of the functions
  above; a closed end is not looked at.\<close>

datatype proxy_event = Name string | Ready end_type bool ssl_result bool bool

fun proxy_step :: "proxy_event \<Rightarrow> proxy \<Rightarrow> proxy option" where
  "proxy_step (Name host) p =
     (if pe_state (p Server) = Fd_TlsAccept \<and> \<not> fd_closed (pe_fd (p Server)) \<and> \<not> haveHostname (p Server)
      then serverName host p else Some p)"
| "proxy_step (Ready e ok r verified matches) p =
     (if fd_closed (pe_fd (p e)) \<or> \<not> (wantReadGet (pe_fd (p e)) \<or> wantWriteGet (pe_fd (p e))) then Some p
      else case pe_state (p e) of
        Fd_Lookup \<Rightarrow> Some p
      | Fd_Connect \<Rightarrow> connConnectReady ok e p
      | Fd_TlsAccept \<Rightarrow> connTlsAcceptReady r e p
      | Fd_TlsConnect \<Rightarrow> connTlsConnectReady r verified matches e p
      | Fd_TlsEstablished \<Rightarrow> connTlsEstablishedReady e p
      | Fd_Established \<Rightarrow> Some p)"

abbreviation proxy_run :: "proxy_event list \<Rightarrow> proxy \<Rightarrow> proxy option" where
  "proxy_run \<equiv> run_opt proxy_step"

end
