(* ===== verification/Tls_Proxy_Stream.thy ===== *)
theory Tls_Proxy_Stream
  imports Tls_Proxy
begin

text \<open>
  What the proxy of \<open>Tls_Proxy\<close> forwards. As long as OpenSSL takes a block whole or not at all, each
  end is sent exactly the bytes read from the other, in order; nothing is sent to the server before
  its certificate was verified and found to be for the host asked for. A block that is taken in parts
  while another waits behind it is sent wrong.
\<close>

section \<open>What waits and what was sent\<close>

definition pending :: "proxy_end \<Rightarrow> u8 list" where
  "pending pe = concat (map (\<lambda>b. drop (blk_head b) (blk_data b)) (wbList pe))"

text \<open>All that was ever queued for an end.\<close>

definition queued :: "proxy_end \<Rightarrow> u8 list" where
  "queued pe = sent pe @ pending pe"

text \<open>Blocks that are not begun, and a schedule that takes them whole.\<close>

definition whole_writes :: "tls_write_out list \<Rightarrow> bool" where
  "whole_writes ws \<longleftrightarrow> (\<forall>k. WAccept k \<in> set ws \<longrightarrow> k = 0 \<or> blocklen \<le> k)"

definition end_ok :: "proxy_end \<Rightarrow> bool" where
  "end_ok pe \<longleftrightarrow> (\<forall>b \<in> set (wbList pe). blk_head b = 0 \<and> length (blk_data b) \<le> blocklen)
     \<and> whole_writes (pe_writes pe) \<and> parsed pe = sent pe"

lemma queued_addSpace [simp]: "queued (addSpace pe) = queued pe"
  by (simp add: queued_def pending_def addSpace_def)

lemma end_ok_addSpace [simp]: "end_ok (addSpace pe) = end_ok pe"
  by (auto simp: end_ok_def addSpace_def)

lemma queued_readIn:
  assumes "wbList pe \<noteq> []" "end_ok pe"
  shows "queued (readIn d pe) = queued pe @ d"
proof -
  from assms(1) obtain bs b where b: "wbList pe = bs @ [b]" by (cases "wbList pe" rule: rev_cases) auto
  with assms(2) show ?thesis by (simp add: queued_def pending_def readIn_def end_ok_def)
qed

lemma end_ok_readIn:
  assumes "wbList pe \<noteq> []" "end_ok pe" "length d \<le> readAvail pe"
  shows "end_ok (readIn d pe)"
proof -
  from assms(1) obtain bs b where b: "wbList pe = bs @ [b]" by (cases "wbList pe" rule: rev_cases) auto
  with assms(2,3) show ?thesis by (auto simp: readIn_def end_ok_def readAvail_def)
qed

text \<open>The parts of an end that writing to it does not change.\<close>

definition same_rest :: "proxy_end \<Rightarrow> proxy_end \<Rightarrow> bool" where
  "same_rest pe pe' \<longleftrightarrow> received pe' = received pe \<and> pe_state pe' = pe_state pe \<and> pe_reads pe' = pe_reads pe
     \<and> haveHostname pe' = haveHostname pe \<and> sslVerifyError pe' = sslVerifyError pe
     \<and> selectFd_null pe' = selectFd_null pe \<and> (fd_closed (pe_fd pe) \<longrightarrow> fd_closed (pe_fd pe'))"

lemma same_rest_refl [simp]: "same_rest pe pe" "same_rest pe (pe\<lparr>pe_stop := b\<rparr>)"
  "same_rest pe (pe\<lparr>pe_fd := fd\<rparr>) \<longleftrightarrow> (fd_closed (pe_fd pe) \<longrightarrow> fd_closed fd)"
  by (simp_all add: same_rest_def)

lemma same_rest_trans: "same_rest a b \<Longrightarrow> same_rest b c \<Longrightarrow> same_rest a c"
  by (simp add: same_rest_def)

lemma queued_upd [simp]: "queued (pe\<lparr>pe_fd := fd\<rparr>) = queued pe" "queued (pe\<lparr>pe_stop := b\<rparr>) = queued pe"
  by (simp_all add: queued_def pending_def)

lemma end_ok_upd [simp]: "end_ok (pe\<lparr>pe_fd := fd\<rparr>) = end_ok pe" "end_ok (pe\<lparr>pe_stop := b\<rparr>) = end_ok pe"
  by (simp_all add: end_ok_def)

lemma queued_more [simp]: "queued (pe\<lparr>pe_state := st\<rparr>) = queued pe" "queued (pe\<lparr>pe_connected := b\<rparr>) = queued pe"
  "queued (pe\<lparr>haveHostname := b\<rparr>) = queued pe" "queued (pe\<lparr>hostname := h\<rparr>) = queued pe"
  "queued (pe\<lparr>sslVerifyError := b\<rparr>) = queued pe" "queued (pe\<lparr>selectFd_null := b\<rparr>) = queued pe"
  by (simp_all add: queued_def pending_def)

lemma end_ok_more [simp]: "end_ok (pe\<lparr>pe_state := st\<rparr>) = end_ok pe" "end_ok (pe\<lparr>pe_connected := b\<rparr>) = end_ok pe"
  "end_ok (pe\<lparr>haveHostname := b\<rparr>) = end_ok pe" "end_ok (pe\<lparr>hostname := h\<rparr>) = end_ok pe"
  "end_ok (pe\<lparr>sslVerifyError := b\<rparr>) = end_ok pe" "end_ok (pe\<lparr>selectFd_null := b\<rparr>) = end_ok pe"
  by (simp_all add: end_ok_def)

lemma tlsWrite_whole:
  assumes "tlsWrite bytes pe = (written, pe')" "whole_writes (pe_writes pe)" "length bytes \<le> blocklen"
  shows "wbList pe' = wbList pe \<and> parsed pe' = parsed pe \<and> same_rest pe pe' \<and> whole_writes (pe_writes pe')
    \<and> (written \<le> 0 \<and> sent pe' = sent pe \<or> written = int (length bytes) \<and> sent pe' = sent pe @ bytes)"
proof (cases "bytes = [] \<or> pe_writes pe = []")
  case True
  with assms show ?thesis by (auto simp: tlsWrite_def same_rest_def Let_def split: if_splits)
next
  case False
  then obtain o1 ws where ws: "pe_writes pe = o1 # ws" "bytes \<noteq> []" by (cases "pe_writes pe") auto
  with assms(2) have "whole_writes ws" and k: "\<And>k. o1 = WAccept k \<Longrightarrow> k = 0 \<or> blocklen \<le> k"
    by (auto simp: whole_writes_def)
  with assms(1,3) ws show ?thesis
    by (cases o1) (fastforce simp: tlsWrite_def same_rest_def Let_def dest: k)+
qed

text \<open>One write of a block.\<close>

lemma write_block:
  assumes ok: "end_ok pe" and avail: "writeAvail pe \<noteq> 0"
    and w: "tlsWrite (take (writeAvail pe) (writeFrom pe)) pe = (written, pe')"
  shows "written \<le> 0 \<Longrightarrow> end_ok pe' \<and> queued pe' = queued pe \<and> same_rest pe pe'"
    and "0 < written \<Longrightarrow> (let pe2 = consume (nat written)
        (pe'\<lparr>parsed := parsed pe' @ take (nat written) (take (writeAvail pe) (writeFrom pe))\<rparr>)
      in end_ok pe2 \<and> queued pe2 = queued pe \<and> same_rest pe pe2)"
proof -
  from avail obtain b bs where b: "wbList pe = b # bs" by (cases "wbList pe") (auto simp: writeAvail_def)
  with ok have h: "blk_head b = 0" "length (blk_data b) \<le> blocklen" "blk_head (last (b # bs)) = 0"
    by (auto simp: end_ok_def)
  then have bytes: "take (writeAvail pe) (writeFrom pe) = blk_data b" and ne: "blk_data b \<noteq> []"
    using b avail by (auto simp: writeAvail_def writeFrom_def)
  have w': "wbList pe' = wbList pe" "parsed pe' = parsed pe" "same_rest pe pe'" "whole_writes (pe_writes pe')"
    "written \<le> 0 \<and> sent pe' = sent pe \<or> written = int (length (blk_data b)) \<and> sent pe' = sent pe @ blk_data b"
    using tlsWrite_whole [OF w] ok h(2) by (auto simp: bytes end_ok_def)
  show "end_ok pe' \<and> queued pe' = queued pe \<and> same_rest pe pe'" if "written \<le> 0"
    using w' that ok ne by (auto simp: end_ok_def queued_def pending_def)
  show "let pe2 = consume (nat written)
        (pe'\<lparr>parsed := parsed pe' @ take (nat written) (take (writeAvail pe) (writeFrom pe))\<rparr>)
      in end_ok pe2 \<and> queued pe2 = queued pe \<and> same_rest pe pe2" if "0 < written"
    using w' that ok b h(1) bytes
    by (simp add: Let_def consume_def end_ok_def queued_def pending_def same_rest_def)
qed

lemma write_loop_ok:
  "end_ok pe \<Longrightarrow> write_loop pe = (pe', failed) \<Longrightarrow> end_ok pe' \<and> queued pe' = queued pe \<and> same_rest pe pe'"
proof (induction pe arbitrary: pe' failed rule: write_loop.induct)
  case (1 pe)
  show ?case
  proof (cases "writeAvail pe = 0")
    case True
    with 1(2,3) show ?thesis by (subst (asm) write_loop.simps) auto
  next
    case False
    let ?bytes = "take (writeAvail pe) (writeFrom pe)"
    obtain written x where w: "tlsWrite ?bytes pe = (written, x)" by fastforce
    show ?thesis
    proof (cases "0 < written")
      case True
      let ?next = "consume (nat written) (x\<lparr>parsed := parsed x @ take (nat written) ?bytes\<rparr>)"
      from write_block(2) [OF 1(2) False w True] have n: "end_ok ?next" "queued ?next = queued pe" "same_rest pe ?next"
        by (auto simp: Let_def)
      from 1(3) False True w have "write_loop ?next = (pe', failed)"
        by (subst (asm) write_loop.simps) (simp add: Let_def)
      with 1(1) [OF refl False refl w [symmetric] refl] True n show ?thesis by (auto intro: same_rest_trans)
    next
      case neg: False
      from 1(3) False neg w have "pe' = x \<or> pe' = upd_fd (\<lambda>f. f\<lparr>tlsWantWrite := True\<rparr>) x"
        by (subst (asm) write_loop.simps) (auto simp: Let_def split: if_splits)
      with write_block(1) [OF 1(2) False w] neg show ?thesis by (auto intro: same_rest_trans)
    qed
  qed
qed

section \<open>Both ends\<close>

text \<open>A change of the ends that keeps what was queued for them and read from them.\<close>

definition keeps :: "proxy \<Rightarrow> proxy \<Rightarrow> bool" where
  "keeps p p' \<longleftrightarrow> (\<forall>e. end_ok (p' e) \<and> queued (p' e) = queued (p e) \<and> same_rest (p e) (p' e)
     \<and> (pe_state (p e) \<noteq> Fd_TlsEstablished \<longrightarrow> sent (p' e) = sent (p e)))"

lemma keeps_trans: "keeps p q \<Longrightarrow> keeps q r \<Longrightarrow> keeps p r"
  by (fastforce simp: keeps_def same_rest_def)

lemma end_cases: "x = e \<or> x = other e"
  by (cases x; cases e) (simp_all add: other_def)

lemma all_ends: "(\<forall>x. P x) \<longleftrightarrow> P e \<and> P (other e)"
  using end_cases by metis

lemma keeps_end_ok: "keeps p q \<Longrightarrow> end_ok (q x)"
  by (simp add: keeps_def)

lemma keeps_upd:
  assumes "\<And>x. end_ok (p x)" "end_ok pe" "queued pe = queued (p e)" "same_rest (p e) pe"
    "pe_state (p e) = Fd_TlsEstablished \<or> sent pe = sent (p e)"
  shows "keeps p (p(e := pe))"
  using assms by (auto simp: keeps_def)

lemma keeps_shutdown: "(\<And>e. end_ok (p e)) \<Longrightarrow> proxyShutdown e p = Some p' \<Longrightarrow> keeps p p'"
  by (auto simp: keeps_def proxyShutdown_def Let_def same_rest_def split: if_splits)

lemma keeps_proxyWrite:
  assumes "\<And>e. end_ok (p e)" "proxyWrite e p = Some p'"
  shows "keeps p p'"
proof (cases "pe_state (p e) = Fd_TlsEstablished")
  case False
  with assms show ?thesis by (auto simp: proxyWrite_def keeps_upd split: if_splits)
next
  case True
  obtain pe failed where w: "write_loop (p e) = (pe, failed)" by fastforce
  with write_loop_ok [OF assms(1)] have pe: "keeps p (p(e := pe))"
    by (intro keeps_upd assms) (auto simp: True)
  then have "keeps (p(e := pe)) p'" if "proxyShutdown e (p(e := pe)) = Some p'"
    using that by (intro keeps_shutdown) (simp add: keeps_def)
  with pe True w assms(2) show ?thesis by (auto simp: proxyWrite_def intro: keeps_trans split: if_splits)
qed

text \<open>Nothing crashes while both connections have their descriptor.\<close>

definition both_there :: "proxy \<Rightarrow> bool" where
  "both_there p \<longleftrightarrow> (\<forall>x. \<not> selectFd_null (p x))"

lemma write_loop_null: "selectFd_null (fst (write_loop pe)) = selectFd_null pe"
proof (induction pe rule: write_loop.induct)
  case (1 pe)
  obtain written x where w: "tlsWrite (take (writeAvail pe) (writeFrom pe)) pe = (written, x)" by fastforce
  then have x: "selectFd_null x = selectFd_null pe"
    by (auto simp: tlsWrite_def Let_def split: list.splits tls_write_out.splits if_splits)
  have c: "selectFd_null (consume n q) = selectFd_null q" for n q by (simp add: consume_def split: list.splits)
  show ?case
  proof (cases "writeAvail pe \<noteq> 0 \<and> 0 < written")
    case True
    with 1 [OF refl _ refl w [symmetric]] w x c show ?thesis by (subst write_loop.simps) (simp add: Let_def)
  next
    case False
    with w x show ?thesis by (subst write_loop.simps) (auto simp: Let_def)
  qed
qed

lemma there_shutdown: "both_there p \<Longrightarrow> \<exists>p'. proxyShutdown e p = Some p' \<and> both_there p'"
  by (simp add: both_there_def proxyShutdown_def Let_def)

lemma there_proxyWrite:
  assumes "both_there p"
  shows "\<exists>p'. proxyWrite e p = Some p' \<and> both_there p'"
proof (cases "pe_state (p e) = Fd_TlsEstablished")
  case False
  with assms show ?thesis by (simp add: proxyWrite_def both_there_def)
next
  case True
  obtain pe failed where w: "write_loop (p e) = (pe, failed)" by fastforce
  with write_loop_null [of "p e"] assms have "both_there (p(e := pe))" by (auto simp: both_there_def)
  with there_shutdown [OF this] w True assms show ?thesis by (auto simp: proxyWrite_def both_there_def)
qed

text \<open>What neither reading nor writing changes: nothing is sent before the end is established.\<close>

definition stays :: "proxy_end \<Rightarrow> proxy_end \<Rightarrow> bool" where
  "stays pe pe' \<longleftrightarrow> pe_state pe' = pe_state pe \<and> selectFd_null pe' = selectFd_null pe \<and> haveHostname pe' = haveHostname pe \<and> sslVerifyError pe' = sslVerifyError pe
     \<and> (fd_closed (pe_fd pe) \<longrightarrow> fd_closed (pe_fd pe'))
     \<and> (pe_state pe \<noteq> Fd_TlsEstablished \<longrightarrow> sent pe' = sent pe)"

lemma stays_trans: "stays a b \<Longrightarrow> stays b c \<Longrightarrow> stays a c"
  by (simp add: stays_def)

text \<open>A read from the end \<open>e\<close>.\<close>

definition reads_to :: "end_type \<Rightarrow> u8 list \<Rightarrow> proxy \<Rightarrow> proxy \<Rightarrow> bool" where
  "reads_to e d p p' \<longleftrightarrow> (\<forall>x. end_ok (p' x) \<and> stays (p x) (p' x))
     \<and> received (p' e) = received (p e) @ d \<and> queued (p' (other e)) = queued (p (other e)) @ d
     \<and> received (p' (other e)) = received (p (other e)) \<and> queued (p' e) = queued (p e)"

lemma reads_to_append: "reads_to e d p q \<Longrightarrow> reads_to e d' q r \<Longrightarrow> reads_to e (d @ d') p r"
  by (auto simp: reads_to_def intro: stays_trans)

lemma reads_to_keeps: "reads_to e d p q \<Longrightarrow> keeps q r \<Longrightarrow> reads_to e d p r"
  by (fastforce simp: reads_to_def keeps_def same_rest_def stays_def)

lemma tlsRead_form:
  assumes "tlsRead n pe = ((nbytes, d), pe')"
  shows "queued pe' = queued pe \<and> (end_ok pe \<longrightarrow> end_ok pe') \<and> stays pe pe'
    \<and> received pe' = received pe @ d \<and> length d \<le> n \<and> (nbytes \<le> 0 \<longrightarrow> d = [])"
  using assms by (auto simp: tlsRead_def queued_def pending_def end_ok_def stays_def Let_def
      split: list.splits tls_read_out.splits if_splits)

lemma sslReadReady_unfold:
  fixes e p
  defines "o1 \<equiv> (if readAvail (p (other e)) = 0 then addSpace (p (other e)) else p (other e))"
  assumes "tlsRead (readAvail o1) (p e) = ((nbytes, d), pe)"
  shows "sslReadReady e p =
     (if nbytes < 0 then proxyShutdown e (p(other e := o1, e := pe))
      else if 0 < nbytes then
        (case proxyWrite (other e) (p(e := pe, other e := readIn d o1)) of
           None \<Rightarrow> None
         | Some p2 \<Rightarrow> if \<not> fd_closed (pe_fd (p2 e)) then sslReadReady e p2 else Some p2)
      else Some (p(other e := o1, e := pe)))"
  using assms(2) unfolding o1_def by (subst sslReadReady.simps) (simp add: Let_def fun_upd_twist)

lemma there_sslReadReady: "both_there p \<Longrightarrow> \<exists>p'. sslReadReady e p = Some p' \<and> both_there p'"
proof (induction e p rule: sslReadReady.induct)
  case (1 e p)
  define o1 where "o1 = (if readAvail (p (other e)) = 0 then addSpace (p (other e)) else p (other e))"
  obtain nbytes d pe where r: "tlsRead (readAvail o1) (p e) = ((nbytes, d), pe)" by (metis prod.exhaust)
  note unfold = sslReadReady_unfold [OF r [unfolded o1_def], folded o1_def]
  have "selectFd_null pe = selectFd_null (p e)" using tlsRead_form [OF r] by (simp add: stays_def)
  moreover have "selectFd_null o1 = selectFd_null (p (other e))" by (simp add: o1_def addSpace_def)
  ultimately have b: "both_there (p(other e := o1, e := pe))" "both_there (p(e := pe, other e := readIn d o1))"
    using 1(2) by (auto simp: both_there_def readIn_def)
  from there_proxyWrite [OF b(2)] obtain p2 where p2: "proxyWrite (other e) (p(e := pe, other e := readIn d o1)) = Some p2"
    "both_there p2" by blast
  have "\<exists>p'. sslReadReady e p2 = Some p' \<and> both_there p'" if "0 < nbytes" "\<not> fd_closed (pe_fd (p2 e))"
    using 1(1) [OF o1_def r [symmetric] refl refl _ that(1)] p2 that by (simp add: fun_upd_twist)
  with there_shutdown [OF b(1)] b p2 unfold show ?case by auto
qed

lemma sslReadReady_ok:
  "(\<And>x. end_ok (p x)) \<Longrightarrow> sslReadReady e p = Some p' \<Longrightarrow> \<exists>d. reads_to e d p p'"
proof (induction e p arbitrary: p' rule: sslReadReady.induct)
  case (1 e p)
  define o1 where "o1 = (if readAvail (p (other e)) = 0 then addSpace (p (other e)) else p (other e))"
  obtain nbytes d pe where r: "tlsRead (readAvail o1) (p e) = ((nbytes, d), pe)" by (metis prod.exhaust)
  note unfold = sslReadReady_unfold [OF r [unfolded o1_def], folded o1_def]
  have o1: "end_ok o1" "queued o1 = queued (p (other e))" "stays (p (other e)) o1"
    "received o1 = received (p (other e))"
    using 1(2) by (auto simp: o1_def addSpace_def queued_def pending_def end_ok_def stays_def)
  have pe: "queued pe = queued (p e)" "end_ok pe" "stays (p e) pe" "received pe = received (p e) @ d"
    "length d \<le> readAvail o1" "nbytes \<le> 0 \<Longrightarrow> d = []"
    using tlsRead_form [OF r] 1(2) by auto
  show ?case
  proof (cases "0 < nbytes")
    case False
    define p1 where "p1 = p(other e := o1, e := pe)"
    have p1: "p1 e = pe" "p1 (other e) = o1" by (simp_all add: p1_def)
    have ok1: "end_ok (p1 x)" for x using end_cases [of x e] o1(1) pe(2) p1 by auto
    have "reads_to e [] p p1"
      unfolding reads_to_def using False pe o1 p1 ok1 by (auto simp: all_ends [of _ e])
    moreover have "p' = p1 \<or> proxyShutdown e p1 = Some p'"
      using 1(3) False unfold by (auto simp: p1_def split: if_splits)
    ultimately show ?thesis using keeps_shutdown [of p1, OF ok1] by (auto intro: reads_to_keeps)
  next
    case True
    have ne: "wbList o1 \<noteq> []"
      using pe(5,6) True r by (auto simp: o1_def readAvail_def addSpace_def split: if_splits)
    define p1 where "p1 = p(e := pe, other e := readIn d o1)"
    have "end_ok (readIn d o1)" "queued (readIn d o1) = queued o1 @ d"
      using end_ok_readIn [OF ne o1(1) pe(5)] queued_readIn [OF ne o1(1)] by auto
    then have in_ok: "reads_to e d p p1"
      unfolding reads_to_def p1_def using pe o1 by (auto simp: all_ends [of _ e] readIn_def stays_def)
    from 1(3) True unfold obtain p2 where w: "proxyWrite (other e) p1 = Some p2"
      and p': "p' = p2 \<or> \<not> fd_closed (pe_fd (p2 e)) \<and> sslReadReady e p2 = Some p'"
      by (auto simp: p1_def split: option.splits if_splits)
    from w have p2: "reads_to e d p p2"
      by (intro reads_to_keeps [OF in_ok] keeps_proxyWrite) (use in_ok in \<open>auto simp: reads_to_def\<close>)
    have "\<exists>d'. reads_to e d' p2 p'" if "\<not> fd_closed (pe_fd (p2 e))" "sslReadReady e p2 = Some p'"
      using 1(1) [OF o1_def r [symmetric] refl refl _ True _ that(1) _ that(2)] w True p2
      by (simp add: reads_to_def p1_def fun_upd_twist)
    with p2 p' show ?thesis by (auto intro: reads_to_append)
  qed
qed

section \<open>The invariant of a connection\<close>

text \<open>Each end is queued what was read from the other, but for the answer that tells the peer of a
  failed verification, after which both ends are closed.\<close>

definition streams :: "proxy \<Rightarrow> bool" where
  "streams p \<longleftrightarrow> (\<forall>x. end_ok (p x)) \<and> queued (p Client) = received (p Server)
     \<and> pe_state (p Server) \<in> {Fd_TlsAccept, Fd_TlsEstablished}
     \<and> pe_state (p Client) \<in> {Fd_Connect, Fd_TlsConnect, Fd_TlsEstablished}
     \<and> (sslVerifyError (p Client) \<longrightarrow> fd_closed (pe_fd (p Client)))
     \<and> \<not> sslVerifyError (p Server) \<and> (\<not> haveHostname (p Server) \<longrightarrow> pe_state (p Client) = Fd_Connect)
     \<and> (pe_state (p Client) \<noteq> Fd_TlsEstablished \<longrightarrow> received (p Client) = [] \<and> sent (p Client) = [])
     \<and> \<not> selectFd_null (p Server) \<and> (selectFd_null (p Client) \<longrightarrow> fd_closed (pe_fd (p Client)))
     \<and> (queued (p Server) = received (p Client)
        \<or> (queued (p Server) = verifyResponse \<and> pe_state (p Client) \<noteq> Fd_TlsEstablished
           \<and> fd_closed (pe_fd (p Client)) \<and> fd_closed (pe_fd (p Server))))"

text \<open>The connection to the server is gone and the peer does not know it.\<close>

definition half_gone :: "proxy \<Rightarrow> bool" where
  "half_gone p \<longleftrightarrow> selectFd_null (p Client) \<and> \<not> fd_closed (pe_fd (p Server))"

lemma other_simps [simp]: "other Server = Client" "other Client = Server"
  by (simp_all add: other_def)

lemma streams_end_ok: "streams p \<Longrightarrow> end_ok (p x)"
  by (simp add: streams_def)

lemma streams_there: "streams p \<Longrightarrow> \<not> selectFd_null (p Client) \<Longrightarrow> both_there p"
  unfolding streams_def both_there_def by (metis end_type.exhaust)

lemma streams_keeps: "streams p \<Longrightarrow> keeps p p' \<Longrightarrow> streams p'"
  unfolding streams_def keeps_def same_rest_def by (elim conjE) (intro conjI; metis)

lemma streams_read:
  assumes "streams p" "pe_state (p e) = Fd_TlsEstablished" "sslReadReady e p = Some p'"
  shows "streams p'" "stays (p x) (p' x)"
proof -
  obtain d where d: "reads_to e d p p'"
    using sslReadReady_ok [OF _ assms(3)] assms(1) by (auto simp: streams_def)
  then show "stays (p x) (p' x)" by (simp add: reads_to_def)
  from d assms show "streams p'"
    by (cases e) (auto simp: streams_def reads_to_def stays_def)
qed

text \<open>The transitions of the handshakes.\<close>

lemma addSpace_simps [simp]: "wbList (addSpace pe) \<noteq> []" "readAvail (addSpace pe) = blocklen"
  by (simp_all add: addSpace_def readAvail_def)

lemma shutdown_closed: "proxyShutdown e p = Some p' \<Longrightarrow> fd_closed (pe_fd (p' x))"
  using end_cases [of x e] by (auto simp: proxyShutdown_def Let_def split: if_splits)

lemma length_verifyResponse: "length verifyResponse = 86"
  by (simp add: verifyResponse_def str_bytes_def)

lemma streams_established:
  assumes "streams p" "\<not> fd_closed (pe_fd (p e))" "\<not> fd_closed fd"
    "pe_state (p e) \<in> {Fd_TlsAccept, Fd_TlsConnect}"
  shows "streams (p(e := (p e)\<lparr>pe_state := Fd_TlsEstablished, pe_fd := fd\<rparr>))"
  using assms by (cases e) (auto simp: streams_def end_ok_def queued_def pending_def)

lemma failed_verify_ok:
  assumes "streams p" "pe_state (p Client) = Fd_TlsConnect" "\<not> fd_closed (pe_fd (p Client))"
  shows "\<exists>r. sslPeerFailedVerify Client (p(Client := (p Client)\<lparr>sslVerifyError := True\<rparr>)) = Some r
    \<and> streams (Connection_close Client r) \<and> pe_state (r Client) = Fd_TlsConnect \<and> fd_closed (pe_fd (r Server))"
proof -
  define s where "s = addSpace (p Server)"
  define q where "q = p(Client := (p Client)\<lparr>sslVerifyError := True\<rparr>, Server := readIn verifyResponse s)"
  have s: "end_ok s" "wbList s \<noteq> []" "queued s = []" "length verifyResponse \<le> readAvail s"
    using assms by (auto simp: s_def streams_def length_verifyResponse blocklen_def kdata_decrypted_max_data_def)
  have q: "end_ok (q x)" for x
    using end_ok_readIn [OF s(2,1,4)] assms(1) by (cases x) (auto simp: q_def streams_def end_ok_def)
  have qs: "queued (q Server) = verifyResponse" using queued_readIn [OF s(2,1)] s(3) by (simp add: q_def)
  have qf: "queued (q Client) = received (q Server)" "pe_state (q Client) = Fd_TlsConnect" "sslVerifyError (q Client)"
    "received (q Client) = []" "sent (q Client) = []" "pe_state (q Server) \<in> {Fd_TlsAccept, Fd_TlsEstablished}"
    "\<not> sslVerifyError (q Server)" "haveHostname (q Server)" "\<not> selectFd_null (q Server)" "\<not> selectFd_null (q Client)"
    using assms by (auto simp: q_def streams_def readIn_def s_def addSpace_def)
  then have "both_there q" unfolding both_there_def by (metis end_type.exhaust)
  from there_proxyWrite [OF this] obtain w where w: "proxyWrite Server q = Some w" "both_there w" by blast
  from there_shutdown [OF w(2)] obtain r where r: "proxyShutdown Client w = Some r" by blast
  have kw: "keeps q w" by (rule keeps_proxyWrite [OF _ w(1)]) (rule q)
  have k: "keeps q r" by (rule keeps_trans [OF kw keeps_shutdown [OF _ r]]) (rule keeps_end_ok [OF kw])
  have rf: "end_ok (r x)" "queued (r x) = queued (q x)" "received (r x) = received (q x)" "pe_state (r x) = pe_state (q x)"
    "haveHostname (r x) = haveHostname (q x)" "sslVerifyError (r x) = sslVerifyError (q x)"
    "selectFd_null (r x) = selectFd_null (q x)" "fd_closed (pe_fd (r x))"
    "pe_state (q x) \<noteq> Fd_TlsEstablished \<Longrightarrow> sent (r x) = sent (q x)" for x
    using k shutdown_closed [OF r] by (auto simp: keeps_def same_rest_def)
  have "sslPeerFailedVerify Client (p(Client := (p Client)\<lparr>sslVerifyError := True\<rparr>)) = Some r"
    using w(1) r by (simp add: sslPeerFailedVerify_def q_def s_def)
  moreover have "streams (Connection_close Client r)"
    using rf qf qs by (auto simp: streams_def Connection_close_def)
  ultimately show ?thesis using rf qf by auto
qed

lemma streams_upd:
  assumes "streams p" "end_ok pe" "queued pe = queued (p e)" "received pe = received (p e)" "sent pe = sent (p e)"
    "sslVerifyError pe = sslVerifyError (p e) \<or> e = Client \<and> fd_closed (pe_fd pe)"
    "selectFd_null pe = selectFd_null (p e) \<or> e = Client \<and> fd_closed (pe_fd pe)"
    "fd_closed (pe_fd (p e)) \<Longrightarrow> fd_closed (pe_fd pe)"
    "pe_state pe = pe_state (p e)" "haveHostname (p e) \<Longrightarrow> haveHostname pe"
  shows "streams (p(e := pe))"
  using assms by (cases e) (auto simp: streams_def)

lemma streams_maybeStart:
  assumes "streams p" "pe_state (p Client) = Fd_Connect" "maybeStartTlsClient p = Some p'"
  shows "streams p'" "pe_state (p' Client) \<noteq> Fd_TlsEstablished" "half_gone p' \<Longrightarrow> half_gone p"
  using assms by (auto simp: maybeStartTlsClient_def startTlsClient_def streams_def half_gone_def split: if_splits)

text \<open>An event keeps the invariant; the end of the server is established by a handshake whose
  certificate was verified for the host only; the proxy crashes when the connection to the server
  is gone alone, which a failed connect or a certificate for another host does.\<close>

definition friendly :: "proxy_event \<Rightarrow> bool" where
  "friendly ev = (case ev of Name _ \<Rightarrow> True | Ready _ ok _ _ matches \<Rightarrow> ok \<and> matches)"

definition proxy_moves :: "proxy_event \<Rightarrow> proxy \<Rightarrow> proxy option \<Rightarrow> bool" where
  "proxy_moves ev p res = (case res of
     None \<Rightarrow> half_gone p
   | Some p' \<Rightarrow> streams p' \<and> (pe_state (p' Client) = Fd_TlsEstablished
         \<longrightarrow> pe_state (p Client) = Fd_TlsEstablished \<or> (\<exists>ok. ev = Ready Client ok SslOk True True))
       \<and> (half_gone p' \<longrightarrow> half_gone p \<or> \<not> friendly ev))"

lemma moves_name:
  assumes "streams p"
  shows "proxy_moves (Name host) p (proxy_step (Name host) p)"
proof (cases "pe_state (p Server) = Fd_TlsAccept \<and> \<not> fd_closed (pe_fd (p Server)) \<and> \<not> haveHostname (p Server)")
  case True
  define q where "q = p(Server := (p Server)\<lparr>haveHostname := True, hostname := host\<rparr>)"
  have q: "streams q" "pe_state (q Client) = Fd_Connect"
    using assms True by (auto simp: streams_def q_def)
  have "half_gone q = half_gone p" by (simp add: half_gone_def q_def)
  moreover have "half_gone q" if "maybeStartTlsClient q = None"
    using that True by (auto simp: maybeStartTlsClient_def half_gone_def q_def split: if_splits)
  ultimately show ?thesis using True streams_maybeStart [OF q]
    by (auto simp: proxy_moves_def serverName_def q_def [symmetric] split: option.split)
qed (auto simp: proxy_moves_def assms)

lemma moves_connect:
  assumes "streams p" "pe_state (p e) = Fd_Connect" "\<not> fd_closed (pe_fd (p e))"
  shows "proxy_moves (Ready e ok r verified matches) p (connConnectReady ok e p)"
proof -
  have e: "e = Client" using assms by (cases e) (auto simp: streams_def)
  show ?thesis
  proof (cases ok)
    case False
    then have "connConnectReady ok e p = Some (Connection_close e (p(e := upd_fd (\<lambda>f. f\<lparr>wantWrite := False\<rparr>) (p e))))"
      by (simp add: connConnectReady_def Let_def)
    moreover have "streams (Connection_close e (p(e := upd_fd (\<lambda>f. f\<lparr>wantWrite := False\<rparr>) (p e))))"
      using assms(1) e by (auto simp: Connection_close_def streams_end_ok intro!: streams_upd)
    ultimately show ?thesis using False assms(2) e by (simp add: proxy_moves_def friendly_def Connection_close_def)
  next
    case True
    define q where "q = p(Client := (p Client)\<lparr>pe_connected := True, pe_state := Fd_Connect,
      pe_fd := (pe_fd (p Client))\<lparr>wantWrite := False, wantRead := False\<rparr>\<rparr>)"
    have q: "streams q" "pe_state (q Client) = Fd_Connect"
      using assms e by (auto simp: q_def streams_def)
    moreover have "connConnectReady ok e p = maybeStartTlsClient q"
      using True e by (simp add: connConnectReady_def ProxyConnection_connectComplete_def q_def Let_def)
    moreover have "half_gone q = half_gone p" by (simp add: half_gone_def q_def)
    moreover have "maybeStartTlsClient q \<noteq> None"
      using assms e by (auto simp: maybeStartTlsClient_def q_def streams_def)
    ultimately show ?thesis using streams_maybeStart [OF q] by (auto simp: proxy_moves_def)
  qed
qed

text \<open>Reading from an end that was not closed.\<close>

lemma moves_read:
  assumes "streams q" "pe_state (q e) = Fd_TlsEstablished" "\<not> fd_closed (pe_fd (q e))" "half_gone q \<Longrightarrow> half_gone p"
    "pe_state (q Client) = Fd_TlsEstablished
       \<Longrightarrow> pe_state (p Client) = Fd_TlsEstablished \<or> (\<exists>ok. ev = Ready Client ok SslOk True True)"
  shows "proxy_moves ev p (sslReadReady e q)"
proof (cases "sslReadReady e q")
  case None
  then have "\<not> both_there q" using there_sslReadReady [of q e] by auto
  then have "selectFd_null (q Client)" using streams_there [OF assms(1)] by blast
  with assms(1,3) have "half_gone q" by (cases e) (auto simp: half_gone_def streams_def)
  with assms(4) None show ?thesis by (simp add: proxy_moves_def)
next
  case (Some p')
  have "half_gone p' \<Longrightarrow> half_gone q"
    using streams_read(2) [OF assms(1,2) Some] by (auto simp: half_gone_def stays_def)
  moreover have "pe_state (p' Client) = pe_state (q Client)"
    using streams_read(2) [OF assms(1,2) Some] by (auto simp: stays_def)
  ultimately show ?thesis using Some assms(4,5) streams_read(1) [OF assms(1,2) Some]
    by (auto simp: proxy_moves_def)
qed

lemma moves_tls_connect:
  assumes "streams p" "pe_state (p e) = Fd_TlsConnect" "\<not> fd_closed (pe_fd (p e))"
  shows "proxy_moves (Ready e ok r verified matches) p (connTlsConnectReady r verified matches e p)"
proof -
  have e: "e = Client" using assms by (cases e) (auto simp: streams_def)
  consider "r \<noteq> SslOk" | "r = SslOk" "\<not> verified" | "r = SslOk" "verified" "\<not> matches" | "r = SslOk" "verified" "matches"
    by blast
  then show ?thesis
  proof cases
    case 1
    then have "streams (p(e := prepNextRound r (p e)))"
      using assms(1) by (auto simp: prepNextRound_def streams_end_ok intro!: streams_upd)
    with 1 assms(2) e show ?thesis by (simp add: proxy_moves_def connTlsConnectReady_def prepNextRound_def half_gone_def)
  next
    case 2
    with failed_verify_ok [OF assms(1)] assms(2,3) e show ?thesis
      by (auto simp: proxy_moves_def connTlsConnectReady_def Connection_close_def half_gone_def)
  next
    case 3
    then have "streams (Connection_close e (p(e := (p e)\<lparr>sslVerifyError := True\<rparr>)))"
      using assms(1) e by (auto simp: Connection_close_def streams_end_ok intro!: streams_upd)
    with 3 assms(2) e show ?thesis
      by (simp add: proxy_moves_def connTlsConnectReady_def friendly_def Connection_close_def)
  next
    case 4
    define q where "q = p(e := (p e)\<lparr>pe_state := Fd_TlsEstablished,
      pe_fd := (pe_fd (p e))\<lparr>tlsEstablished := True, tlsWantRead := True\<rparr>\<rparr>)"
    have q: "streams q" "pe_state (q e) = Fd_TlsEstablished" "\<not> sslVerifyError (q e)"
      using assms e unfolding q_def by (auto intro!: streams_established simp: streams_def)
    have "connTlsConnectReady r verified matches e p = sslReadReady e q"
      using 4 q(3) by (simp add: connTlsConnectReady_def ProxyConnection_connectComplete_def proxy_connectComplete_def q_def)
    moreover have "proxy_moves (Ready e ok r verified matches) p (sslReadReady e q)"
      by (rule moves_read [OF q(1,2)]) (use 4 e assms(3) in \<open>auto simp: q_def half_gone_def\<close>)
    ultimately show ?thesis by simp
  qed
qed

lemma moves_accept:
  assumes "streams p" "pe_state (p e) = Fd_TlsAccept" "\<not> fd_closed (pe_fd (p e))"
  shows "proxy_moves ev p (connTlsAcceptReady r e p)"
proof -
  have e: "e = Server" using assms by (cases e) (auto simp: streams_def)
  show ?thesis
  proof (cases "r = SslOk")
    case False
    then have "streams (p(e := prepNextRound r (p e)))"
      using assms(1) by (auto simp: prepNextRound_def streams_end_ok intro!: streams_upd)
    with False e assms(3) show ?thesis
      by (simp add: proxy_moves_def connTlsAcceptReady_def half_gone_def prepNextRound_def)
  next
    case True
    define q where "q = p(e := (p e)\<lparr>pe_state := Fd_TlsEstablished,
      pe_fd := (pe_fd (p e))\<lparr>tlsEstablished := True, tlsWantRead := True\<rparr>\<rparr>)"
    have q: "streams q" "pe_state (q e) = Fd_TlsEstablished"
      using assms unfolding q_def by (auto intro!: streams_established)
    have "connTlsAcceptReady r e p = sslReadReady e q"
      using True by (simp add: connTlsAcceptReady_def notifyAccept_def q_def)
    moreover have "proxy_moves ev p (sslReadReady e q)"
      by (rule moves_read [OF q]) (use e assms(3) in \<open>auto simp: q_def half_gone_def\<close>)
    ultimately show ?thesis by simp
  qed
qed

lemma moves_established:
  assumes "streams p" "pe_state (p e) = Fd_TlsEstablished" "\<not> fd_closed (pe_fd (p e))"
  shows "proxy_moves ev p (connTlsEstablishedReady e p)"
proof (cases "if tlsWantRead (pe_fd (p e)) then sslReadReady e p else Some p")
  case None
  then have r: "connTlsEstablishedReady e p = None" "sslReadReady e p = None"
    by (auto simp: connTlsEstablishedReady_def split: if_splits)
  have "proxy_moves ev p (sslReadReady e p)" by (rule moves_read [OF assms]) auto
  with r show ?thesis by simp
next
  case (Some q)
  have q: "streams q" "stays (p x) (q x)" for x
    using Some assms streams_read [OF assms(1,2)] by (auto simp: stays_def split: if_splits)
  have st: "pe_state (q Client) = pe_state (p Client)" "half_gone q \<Longrightarrow> half_gone p"
    "selectFd_null (q x) = selectFd_null (p x)" for x
    using q(2) by (auto simp: stays_def half_gone_def)
  have null: "\<not> selectFd_null (q e)"
    using assms(1,3) st(3) by (cases e) (auto simp: streams_def)
  show ?thesis
  proof (cases "tlsWantWrite (pe_fd (q e))")
    case False
    with Some q(1) st show ?thesis by (simp add: proxy_moves_def connTlsEstablishedReady_def)
  next
    case True
    then have eq: "connTlsEstablishedReady e p = proxyWrite e q" using Some by (simp add: connTlsEstablishedReady_def)
    show ?thesis
    proof (cases "proxyWrite e q")
      case None
      then have "\<not> both_there q" using there_proxyWrite [of q e] by auto
      then have "selectFd_null (p Client)" using streams_there [OF q(1)] st(3) by blast
      with assms(1,3) have "half_gone p" by (cases e) (auto simp: half_gone_def streams_def)
      with eq None show ?thesis by (simp add: proxy_moves_def)
    next
      case (Some p')
      have k: "keeps q p'" by (rule keeps_proxyWrite [OF _ Some]) (rule streams_end_ok [OF q(1)])
      then have "streams p'" "pe_state (p' Client) = pe_state (q Client)" "half_gone p' \<Longrightarrow> half_gone q"
        by (auto intro: streams_keeps [OF q(1)] simp: keeps_def same_rest_def half_gone_def)
      with eq Some st show ?thesis by (simp add: proxy_moves_def)
    qed
  qed
qed

lemma step_moves:
  assumes "streams p"
  shows "proxy_moves ev p (proxy_step ev p)"
proof (cases ev)
  case (Name host)
  with assms show ?thesis by (simp only: moves_name)
next
  case (Ready e ok r verified matches)
  have idle: "proxy_moves ev p (Some p)" by (simp add: proxy_moves_def assms)
  with Ready assms show ?thesis
    by (cases "pe_state (p e)")
      (auto intro: moves_connect moves_tls_connect moves_accept moves_established)
qed

lemma streams_new:
  assumes "whole_writes (ws Server)" "whole_writes (ws Client)"
  shows "streams (proxy_new rs ws)"
proof -
  have "whole_writes (ws x)" for x using assms by (cases x) auto
  then show ?thesis by (simp add: streams_def proxy_new_def end_ok_def queued_def pending_def selectFd_new_def)
qed

lemma run_streams:
  fixes es rs ws
  defines "res \<equiv> proxy_run es (proxy_new rs ws)"
  assumes "whole_writes (ws Server)" "whole_writes (ws Client)"
  shows "case res of
      None \<Rightarrow> \<exists>ev \<in> set es. \<not> friendly ev
    | Some p \<Rightarrow> streams p \<and> (half_gone p \<longrightarrow> (\<exists>ev \<in> set es. \<not> friendly ev))
        \<and> (pe_state (p Client) = Fd_TlsEstablished \<longrightarrow> (\<exists>ok. Ready Client ok SslOk True True \<in> set es))"
  unfolding res_def
proof (induction es rule: rev_induct)
  case Nil
  have "pe_state (proxy_new rs ws Client) = Fd_Connect" "\<not> half_gone (proxy_new rs ws)"
    by (simp_all add: proxy_new_def half_gone_def)
  then show ?case using streams_new [OF assms(2,3)] by simp
next
  case (snoc ev es)
  show ?case
  proof (cases "proxy_run es (proxy_new rs ws)")
    case None
    with snoc show ?thesis by (auto simp: run_opt_append)
  next
    case (Some p)
    with snoc have "streams p" by simp
    from step_moves [OF this, of ev] Some snoc show ?thesis
      by (auto simp: run_opt_append proxy_moves_def split: option.splits)
  qed
qed

section \<open>Properties\<close>


text \<open>A request is read from the peer before the server is there, and written to it then.\<close>

definition demo_run :: "proxy_event list" where
  "demo_run = [Ready Client True SslFail False True, Name ''h'', Ready Server True SslOk False True,
     Ready Client True SslWantRead False True, Ready Client True SslOk True True,
     Ready Client True SslFail False True, Ready Client True SslFail False True]"

definition demo_answers :: "end_type \<Rightarrow> tls_read_out list" where
  "demo_answers e = (case e of Server \<Rightarrow> [RData [1, 2], RData [3]] | Client \<Rightarrow> [RData [7]])"

definition demo_writes :: "end_type \<Rightarrow> tls_write_out list" where
  "demo_writes e = (case e of Server \<Rightarrow> [WAccept blocklen] | Client \<Rightarrow> [WWantWrite, WAccept blocklen])"

lemma demo_whole: "whole_writes (demo_writes Server)" "whole_writes (demo_writes Client)"
  by (auto simp: whole_writes_def demo_writes_def)

lemma demo_sent: "map_option (\<lambda>p. sent (p Client)) (proxy_run demo_run (proxy_new demo_answers demo_writes)) = Some [1, 2, 3]"
  by code_simp


text \<open>
  (C22) Nothing is written to the server before its certificate was verified and was found to be for
  the host that the peer asked for.
\<close>

theorem server_verified_first:
  assumes "whole_writes (ws Server)" "whole_writes (ws Client)"
    and "proxy_run es (proxy_new rs ws) = Some p" "sent (p Client) \<noteq> []"
  shows "\<exists>ok. Ready Client ok SslOk True True \<in> set es"
  using run_streams [OF assms(1,2), of es rs] assms(3,4) by (auto simp: streams_def)

theorem server_verified_first_witness:
  "\<exists>p ok. proxy_run demo_run (proxy_new demo_answers demo_writes) = Some p \<and> sent (p Client) = [1, 2, 3]
     \<and> Ready Client ok SslOk True True \<in> set demo_run"
proof -
  obtain p where p: "proxy_run demo_run (proxy_new demo_answers demo_writes) = Some p" "sent (p Client) = [1, 2, 3]"
    using demo_sent by auto
  from server_verified_first [OF demo_whole p(1)] p show ?thesis by simp
qed

text \<open>
  (C40) When the connection to the server fails, or its certificate is for another host, only that end
  is closed and its descriptor set to null; the first bytes of the peer make the proxy write through
  the null pointer.
\<close>

theorem lost_server_crashes:
  assumes "rs Server = RData d # answers" "d \<noteq> []"
  shows "proxy_run [Ready Client False r v m, Ready Server ok SslOk v' m'] (proxy_new rs ws) = None
    \<and> proxy_run [Ready Client True r v m, Name host, Ready Client True SslOk True False, Ready Server ok SslOk v' m']
        (proxy_new rs ws) = None"
proof -
  have "0 < blocklen" by (simp add: blocklen_def kdata_decrypted_max_data_def)
  with assms show ?thesis
    by (simp add: proxy_new_def selectFd_new_def wantReadGet_def wantWriteGet_def connConnectReady_def Connection_close_def
      connTlsAcceptReady_def notifyAccept_def sslReadReady.simps readAvail_def addSpace_def tlsRead_def proxyWrite_def
      ProxyConnection_connectComplete_def maybeStartTlsClient_def startTlsClient_def serverName_def connTlsConnectReady_def Let_def readIn_def)
qed

theorem lost_server_crashes_witness:
  "demo_answers Server = RData [1, 2] # [RData [3]]
   \<and> proxy_run [Ready Client False SslFail False False, Ready Server True SslOk False False]
       (proxy_new demo_answers demo_writes) = None"
  using lost_server_crashes [of demo_answers "[1, 2]" "[RData [3]]"] by (simp add: demo_answers_def)

text \<open>A write that takes part of a block.\<close>

lemma write_loop_step:
  assumes "writeAvail pe \<noteq> 0" "tlsWrite (take (writeAvail pe) (writeFrom pe)) pe = (written, pe')" "0 < written"
  shows "write_loop pe = write_loop (consume (nat written)
    (pe'\<lparr>parsed := parsed pe' @ take (nat written) (take (writeAvail pe) (writeFrom pe))\<rparr>))"
  using assms by (subst write_loop.simps) (simp add: Let_def)

text \<open>
  \<open>writeFrom\<close> counts from the head of the last block. When \<open>k\<close> bytes of a block are taken while
  another block waits behind it, the next write of it begins at its first byte again: the first
  bytes are sent twice and the last \<open>k\<close> are lost.
\<close>

lemma partial_write_repeats:
  assumes "wbList pe = [\<lparr>blk_data = d, blk_head = 0\<rparr>, \<lparr>blk_data = d', blk_head = 0\<rparr>]"
    "pe_writes pe = [WAccept k, WAccept (length d)]" "0 < k" "k < length d" "d' \<noteq> []"
  shows "sent (fst (write_loop pe)) = sent pe @ take k d @ take (length d - k) d"
proof -
  have first: "write_loop pe = write_loop (consume k (upd_fd (\<lambda>f. f\<lparr>tlsWriteWantsRead := False\<rparr>)
      pe\<lparr>sent := sent pe @ take k d, pe_writes := [WAccept (length d)], parsed := parsed pe @ take k d\<rparr>))"
    using assms by (subst write_loop_step [where written = "int k"])
      (auto simp: writeAvail_def writeFrom_def tlsWrite_def Let_def)
  show ?thesis unfolding first using assms
    by (simp add: consume_def, subst write_loop_step [where written = "int (length d - k)"])
      (auto simp: writeAvail_def writeFrom_def tlsWrite_def Let_def consume_def write_loop.simps)
qed

definition demo_partial :: proxy_end where
  "demo_partial = (proxy_new demo_answers demo_writes Client)
     \<lparr>wbList := [\<lparr>blk_data = [1, 2, 3], blk_head = 0\<rparr>, \<lparr>blk_data = [4], blk_head = 0\<rparr>],
      pe_writes := [WAccept 1, WAccept 3]\<rparr>"

lemma partial_write_repeats_witness:
  "sent (fst (write_loop demo_partial)) = [1, 1, 2]"
  using partial_write_repeats [of demo_partial "[1, 2, 3]" "[4]" 1] by (simp add: demo_partial_def proxy_new_def)

end
