(* ===== verification/Tls_Names.thy ===== *)
theory Tls_Names
  imports Prelude
begin

text \<open>
  The comparison of host names with the names in a certificate: \<open>checkName\<close> and \<open>hostMatch\<close> of
  src/genf/tls.cc, the code used when OpenSSL has no \<open>X509_check_host\<close>. A certificate is what OpenSSL
  reads from it: the alternative names, when the extension is there, each with whether it is a DNS
  name, and the common names of the subject, when there is a subject. Characters are bytes;
  \<open>strncasecmp\<close> compares the letters of ASCII without their case.
\<close>

definition tolower :: "char \<Rightarrow> char" where
  "tolower c = (if 65 \<le> (of_char c :: nat) \<and> (of_char c :: nat) \<le> 90 then char_of (of_char c + 32 :: nat) else c)"

fun strncasecmp_eq :: "string \<Rightarrow> string \<Rightarrow> nat \<Rightarrow> bool" where
  "strncasecmp_eq s t 0 = True"
| "strncasecmp_eq (a # s) (b # t) (Suc n) =
     (tolower a = tolower b \<and> (a = CHR 0x00 \<or> strncasecmp_eq s t n))"
| "strncasecmp_eq [] [] (Suc n) = True"
| "strncasecmp_eq [] (b # t) (Suc n) = (b = CHR 0x00)"
| "strncasecmp_eq (a # s) [] (Suc n) = (a = CHR 0x00)"

definition checkName :: "string \<Rightarrow> string \<Rightarrow> bool" where
  "checkName name pattern =
     (if 2 < length pattern \<and> pattern ! 0 = CHR ''*'' \<and> pattern ! 1 = CHR ''.''
      then (let pat = tl pattern; subj = dropWhile (\<lambda>c. c \<noteq> CHR ''.'') name
            in subj \<noteq> [] \<and> length subj = length pat \<and> strncasecmp_eq subj pat (length subj))
      else length name = length pattern \<and> strncasecmp_eq name pattern (length name))"

record certificate =
  altnames :: "(bool \<times> string) list option"
  subject_cns :: "string list option"

fun match_altnames :: "string \<Rightarrow> (bool \<times> string) list \<Rightarrow> bool" where
  "match_altnames name [] = False"
| "match_altnames name ((dns, pat) # ns) =
     (if \<not> dns then match_altnames name ns
      else if checkName name pat then True else match_altnames name ns)"

fun match_cns :: "string \<Rightarrow> string list \<Rightarrow> bool" where
  "match_cns name [] = False"
| "match_cns name (pat # ps) = (if checkName name pat then True else match_cns name ps)"

definition hostMatch :: "certificate \<Rightarrow> string \<Rightarrow> bool" where
  "hostMatch cert name = (case altnames cert of
     Some ns \<Rightarrow> match_altnames name ns
   | None \<Rightarrow> (case subject_cns cert of None \<Rightarrow> False | Some ps \<Rightarrow> match_cns name ps))"

section \<open>What is matched\<close>

text \<open>Equal without regard to case.\<close>

definition same_name :: "string \<Rightarrow> string \<Rightarrow> bool" where
  "same_name s t \<longleftrightarrow> map tolower s = map tolower t"

lemma tolower_iff:
  assumes "(of_char d :: nat) < 65"
  shows "tolower c = d \<longleftrightarrow> c = d"
proof (cases "65 \<le> (of_char c :: nat) \<and> (of_char c :: nat) \<le> 90")
  case True
  then have "(of_char (tolower c) :: nat) = of_char c + 32" by (simp add: tolower_def of_char_of)
  with assms True show ?thesis by auto
qed (auto simp: tolower_def)

lemma tolower_simps [simp]:
  "tolower c = CHR 0x00 \<longleftrightarrow> c = CHR 0x00" "tolower c = CHR ''.'' \<longleftrightarrow> c = CHR ''.''" "tolower (CHR ''.'') = CHR ''.''"
  by (simp_all add: tolower_iff)

lemma strncasecmp_same:
  "length s = length t \<Longrightarrow> CHR 0x00 \<notin> set s \<Longrightarrow> strncasecmp_eq s t (length s) \<longleftrightarrow> same_name s t"
  by (induction s t rule: list_induct2) (auto simp: same_name_def)

lemma same_name_length: "same_name s t \<Longrightarrow> length s = length t"
  unfolding same_name_def using map_eq_imp_length_eq by blast

lemma first_dot:
  "dropWhile (\<lambda>c. c \<noteq> CHR ''.'') name = CHR ''.'' # rest
   \<longleftrightarrow> (\<exists>label. name = label @ CHR ''.'' # rest \<and> CHR ''.'' \<notin> set label)"
proof
  assume a: "dropWhile (\<lambda>c. c \<noteq> CHR ''.'') name = CHR ''.'' # rest"
  have "name = takeWhile (\<lambda>c. c \<noteq> CHR ''.'') name @ CHR ''.'' # rest"
    using a by (metis takeWhile_dropWhile_id)
  moreover have "CHR ''.'' \<notin> set (takeWhile (\<lambda>c. c \<noteq> CHR ''.'') name)" by (auto dest: set_takeWhileD)
  ultimately show "\<exists>label. name = label @ CHR ''.'' # rest \<and> CHR ''.'' \<notin> set label" by blast
next
  assume "\<exists>label. name = label @ CHR ''.'' # rest \<and> CHR ''.'' \<notin> set label"
  then obtain label where l: "name = label @ CHR ''.'' # rest" "CHR ''.'' \<notin> set label" by blast
  from l(2) show "dropWhile (\<lambda>c. c \<noteq> CHR ''.'') name = CHR ''.'' # rest"
    unfolding l(1) by (induction label) auto
qed

text \<open>A pattern \<open>*.d\<close> covers the names with one more component before \<open>d\<close>, any other pattern itself.\<close>

definition wildcard :: "string \<Rightarrow> string \<Rightarrow> bool" where
  "wildcard pat d \<longleftrightarrow> pat = ''*.'' @ d \<and> d \<noteq> []"

definition name_covers :: "string \<Rightarrow> string \<Rightarrow> bool" where
  "name_covers pat name \<longleftrightarrow>
     (\<exists>d label rest. wildcard pat d \<and> name = label @ CHR ''.'' # rest \<and> CHR ''.'' \<notin> set label \<and> same_name rest d)
     \<or> ((\<nexists>d. wildcard pat d) \<and> same_name name pat)"

definition cert_names :: "certificate \<Rightarrow> string set" where
  "cert_names cert = (case altnames cert of
     Some ns \<Rightarrow> {pat. (True, pat) \<in> set ns}
   | None \<Rightarrow> (case subject_cns cert of None \<Rightarrow> {} | Some ps \<Rightarrow> set ps))"

lemma wildcard_iff: "(\<exists>d. wildcard pat d) \<longleftrightarrow> 2 < length pat \<and> pat ! 0 = CHR ''*'' \<and> pat ! 1 = CHR ''.''"
proof (cases pat)
  case (Cons a as)
  then show ?thesis by (cases as) (auto simp: wildcard_def)
qed (simp add: wildcard_def)

lemma checkName_covers:
  assumes "CHR 0x00 \<notin> set name"
  shows "checkName name pat \<longleftrightarrow> name_covers pat name"
proof (cases "\<exists>d. wildcard pat d")
  case False
  then have "name_covers pat name \<longleftrightarrow> same_name name pat" by (auto simp: name_covers_def)
  moreover have "checkName name pat \<longleftrightarrow> length name = length pat \<and> strncasecmp_eq name pat (length name)"
    using False wildcard_iff [of pat] by (auto simp: checkName_def)
  ultimately show ?thesis using strncasecmp_same [of name pat] assms same_name_length by blast
next
  case True
  then obtain d where d: "wildcard pat d" by blast
  define subj where "subj = dropWhile (\<lambda>c. c \<noteq> CHR ''.'') name"
  have tl: "tl pat = CHR ''.'' # d" using d by (auto simp: wildcard_def)
  have null: "CHR 0x00 \<notin> set subj" using assms unfolding subj_def by (meson set_dropWhileD)
  have "checkName name pat \<longleftrightarrow> subj \<noteq> [] \<and> length subj = length (tl pat) \<and> strncasecmp_eq subj (tl pat) (length subj)"
    using True wildcard_iff [of pat] by (simp add: checkName_def Let_def subj_def)
  also have "\<dots> \<longleftrightarrow> same_name subj (CHR ''.'' # d)"
    using strncasecmp_same [OF _ null, of "tl pat"] same_name_length [of subj "tl pat"] tl by auto
  also have "\<dots> \<longleftrightarrow> (\<exists>rest. subj = CHR ''.'' # rest \<and> same_name rest d)"
    by (cases subj) (auto simp: same_name_def)
  also have "\<dots> \<longleftrightarrow> name_covers pat name"
    using d True by (auto simp: name_covers_def first_dot subj_def wildcard_def)
  finally show ?thesis .
qed

lemma match_altnames_iff: "match_altnames name ns \<longleftrightarrow> (\<exists>pat. (True, pat) \<in> set ns \<and> checkName name pat)"
  by (induction name ns rule: match_altnames.induct) auto

lemma match_cns_iff: "match_cns name ps \<longleftrightarrow> (\<exists>pat \<in> set ps. checkName name pat)"
  by (induction name ps rule: match_cns.induct) auto

text \<open>
  (C34) A host name is accepted exactly when a name of the certificate covers it: one of its DNS
  alternative names, or one of its common names when it has no alternative names at all. A name
  covers itself without regard to case, and \<open>*.\<close> stands for one component of the name.
\<close>

theorem host_match_iff:
  assumes "CHR 0x00 \<notin> set name"
  shows "hostMatch cert name \<longleftrightarrow> (\<exists>pat \<in> cert_names cert. name_covers pat name)"
  using assms checkName_covers
  by (auto simp: hostMatch_def cert_names_def match_altnames_iff match_cns_iff split: option.split)

theorem host_match_iff_witness:
  "hostMatch \<lparr>altnames = Some [(False, ''a.b.de''), (True, ''*.B.de'')], subject_cns = None\<rparr> ''a.b.de''
   \<and> (\<exists>pat \<in> cert_names \<lparr>altnames = Some [(False, ''a.b.de''), (True, ''*.B.de'')], subject_cns = None\<rparr>. name_covers pat ''a.b.de'')"
proof -
  have "hostMatch \<lparr>altnames = Some [(False, ''a.b.de''), (True, ''*.B.de'')], subject_cns = None\<rparr> ''a.b.de''" by code_simp
  with host_match_iff [of "''a.b.de''"] show ?thesis by simp
qed

end
