(* ===== verification/Tls_Contexts.thy ===== *)
theory Tls_Contexts
  imports Prelude
begin

text \<open>
  The cache of server contexts of the proxy, \<open>ContextMap\<close> of src/tlsproxy/listen.h and proxy.cc, shared by
  the proxy threads and the main thread. What is done with the mutex held is one step; a thread that
  makes a certificate does so between two such steps, while others run. Keys are objects, numbered
  as they are allocated by \<open>genrsa\<close>; a context is what \<open>makeCert\<close> and \<open>sslCtxServer\<close> put into it, the
  host the certificate is for, its serial number and its key. The serial is a big number.
\<close>

section \<open>State\<close>

type_synonym pkey = nat

record ssl_ctx =
  cx_host :: string
  cx_serial :: nat
  cx_key :: pkey

text \<open>The map has an entry with a null value while its context is made.\<close>

record context_map =
  ctxMap :: "string \<Rightarrow> ssl_ctx option option"
  keyList :: "pkey list"
  cm_serial :: nat
  nextConId :: u64

text \<open>A thread between the two steps of \<open>serverCtx\<close>: its host, serial, key or null, and the flag \<open>store\<close>.\<close>

record creating =
  cr_host :: string
  useSerial :: nat
  cr_pkey :: "pkey option"
  cr_store :: bool

section \<open>Operations\<close>

text \<open>The first step of \<open>serverCtx\<close>: the context, or what the thread has to create.\<close>

definition serverCtx_find :: "string \<Rightarrow> context_map \<Rightarrow> (ssl_ctx + creating) \<times> context_map" where
  "serverCtx_find host cm = (case ctxMap cm host of
     Some (Some ctx) \<Rightarrow> (Inl ctx, cm)
   | el \<Rightarrow>
       let store = (el = None);
           cm = (if store then cm\<lparr>ctxMap := (ctxMap cm)(host \<mapsto> None)\<rparr> else cm);
           pkey = (case keyList cm of [] \<Rightarrow> None | k # _ \<Rightarrow> Some k);
           cr = \<lparr>cr_host = host, useSerial = cm_serial cm, cr_pkey = pkey, cr_store = store\<rparr>
       in (Inr cr, cm\<lparr>keyList := tl (keyList cm), cm_serial := cm_serial cm + 1\<rparr>))"

text \<open>\<open>makeCert\<close> makes a key, the object \<open>new\<close>, if it was given none.\<close>

definition makeCert :: "creating \<Rightarrow> pkey \<Rightarrow> ssl_ctx" where
  "makeCert cr new = \<lparr>cx_host = cr_host cr, cx_serial = useSerial cr,
     cx_key = (case cr_pkey cr of None \<Rightarrow> new | Some k \<Rightarrow> k)\<rparr>"

definition serverCtx_store :: "creating \<Rightarrow> ssl_ctx \<Rightarrow> context_map \<Rightarrow> context_map" where
  "serverCtx_store cr ctx cm = (if cr_store cr then cm\<lparr>ctxMap := (ctxMap cm)(cr_host cr \<mapsto> Some ctx)\<rparr> else cm)"

definition keysAvail :: "context_map \<Rightarrow> nat" where
  "keysAvail cm = length (keyList cm)"

definition addKey :: "pkey \<Rightarrow> context_map \<Rightarrow> context_map" where
  "addKey key cm = cm\<lparr>keyList := keyList cm @ [key]\<rparr>"

definition minPoolSize :: nat where [simp]: "minPoolSize = 15"

text \<open>How many keys the timer adds.\<close>

definition timer_add :: "nat \<Rightarrow> nat" where
  "timer_add avail = (if avail < minPoolSize then minPoolSize - avail else 0)"

definition connId :: "context_map \<Rightarrow> u64 \<times> context_map" where
  "connId cm = (nextConId cm + 1, cm\<lparr>nextConId := nextConId cm + 1\<rparr>)"

section \<open>Threads\<close>

text \<open>
  The proxy threads, the keys the main thread still has to add, and what was done: the contexts made, in
  order, the contexts returned to the threads for the hosts they asked for, and the hosts reported.
\<close>

record cm_sys =
  cs_cm :: context_map
  cs_thread :: "nat \<Rightarrow> creating option"
  cs_adding :: nat
  cs_keys :: nat
  cs_made :: "ssl_ctx list"
  cs_returned :: "(string \<times> ssl_ctx) list"
  cs_reported :: "string list"

inductive cm_step :: "cm_sys \<Rightarrow> cm_sys \<Rightarrow> bool" where
  found: "cs_thread s t = None \<Longrightarrow> serverCtx_find host (cs_cm s) = (Inl ctx, cm) \<Longrightarrow>
    cm_step s (s\<lparr>cs_cm := cm, cs_returned := cs_returned s @ [(host, ctx)]\<rparr>)"
| create: "cs_thread s t = None \<Longrightarrow> serverCtx_find host (cs_cm s) = (Inr cr, cm) \<Longrightarrow>
    cm_step s (s\<lparr>cs_cm := cm, cs_thread := (cs_thread s)(t := Some cr)\<rparr>)"
| created: "cs_thread s t = Some cr \<Longrightarrow> ctx = makeCert cr (cs_keys s) \<Longrightarrow>
    cm_step s (s\<lparr>cs_cm := serverCtx_store cr ctx (cs_cm s), cs_thread := (cs_thread s)(t := None),
      cs_keys := (if cr_pkey cr = None then cs_keys s + 1 else cs_keys s), cs_made := cs_made s @ [ctx],
      cs_returned := cs_returned s @ [(cr_host cr, ctx)], cs_reported := cs_reported s @ [cr_host cr]\<rparr>)"
| timer: "cs_adding s = 0 \<Longrightarrow> cm_step s (s\<lparr>cs_adding := timer_add (keysAvail (cs_cm s))\<rparr>)"
| key_added: "cs_adding s = Suc n \<Longrightarrow>
    cm_step s (s\<lparr>cs_cm := addKey (cs_keys s) (cs_cm s), cs_keys := cs_keys s + 1, cs_adding := n\<rparr>)"
| conn_id: "connId (cs_cm s) = (i, cm) \<Longrightarrow> cm_step s (s\<lparr>cs_cm := cm\<rparr>)"

definition cm_start :: "nat \<Rightarrow> cm_sys" where
  "cm_start serial = \<lparr>cs_cm = \<lparr>ctxMap = (\<lambda>_. None), keyList = [], cm_serial = serial, nextConId = 0\<rparr>,
     cs_thread = (\<lambda>_. None), cs_adding = 0, cs_keys = 0, cs_made = [], cs_returned = [], cs_reported = []\<rparr>"

section \<open>The invariant\<close>

text \<open>Serials and keys: those given out, to contexts and to threads, and the keys in the pool, differ.\<close>

definition cr_keys :: "creating option \<Rightarrow> pkey set" where
  "cr_keys c = (case c of Some cr \<Rightarrow> set_option (cr_pkey cr) | None \<Rightarrow> {})"

definition serials_ok :: "cm_sys \<Rightarrow> bool" where
  "serials_ok s \<longleftrightarrow> distinct (map cx_serial (cs_made s)) \<and> (\<forall>ctx \<in> set (cs_made s). cx_serial ctx < cm_serial (cs_cm s)) \<and>
     (\<forall>t cr. cs_thread s t = Some cr \<longrightarrow> useSerial cr < cm_serial (cs_cm s) \<and> useSerial cr \<notin> cx_serial ` set (cs_made s) \<and>
        (\<forall>t' cr'. cs_thread s t' = Some cr' \<and> useSerial cr' = useSerial cr \<longrightarrow> t' = t))"

definition keys_ok :: "cm_sys \<Rightarrow> bool" where
  "keys_ok s \<longleftrightarrow> distinct (map cx_key (cs_made s) @ keyList (cs_cm s)) \<and>
     (\<forall>k \<in> cx_key ` set (cs_made s) \<union> set (keyList (cs_cm s)). k < cs_keys s) \<and>
     (\<forall>t. \<forall>k \<in> cr_keys (cs_thread s t). k < cs_keys s \<and> k \<notin> cx_key ` set (cs_made s) \<union> set (keyList (cs_cm s)) \<and>
        (\<forall>t'. k \<in> cr_keys (cs_thread s t') \<longrightarrow> t' = t))"

text \<open>The map: a context is for its host and was made; a null value has exactly one thread that will store it.\<close>

definition map_ok :: "cm_sys \<Rightarrow> bool" where
  "map_ok s \<longleftrightarrow> (\<forall>h ctx. ctxMap (cs_cm s) h = Some (Some ctx) \<longrightarrow> cx_host ctx = h \<and> ctx \<in> set (cs_made s)) \<and>
     (\<forall>h. ctxMap (cs_cm s) h = Some None \<longrightarrow> (\<exists>t cr. cs_thread s t = Some cr \<and> cr_host cr = h \<and> cr_store cr)) \<and>
     (\<forall>t cr. cs_thread s t = Some cr \<and> cr_store cr \<longrightarrow> ctxMap (cs_cm s) (cr_host cr) = Some None \<and>
        (\<forall>t' cr'. cs_thread s t' = Some cr' \<and> cr_store cr' \<and> cr_host cr' = cr_host cr \<longrightarrow> t' = t)) \<and>
     (\<forall>(h, ctx) \<in> set (cs_returned s). cx_host ctx = h \<and> ctx \<in> set (cs_made s))"

definition pool_ok :: "cm_sys \<Rightarrow> bool" where
  "pool_ok s \<longleftrightarrow> length (keyList (cs_cm s)) + cs_adding s \<le> minPoolSize"

lemma find_Inl: "serverCtx_find host cm = (Inl ctx, cm') \<Longrightarrow> cm' = cm \<and> ctxMap cm host = Some (Some ctx)"
  by (auto simp: serverCtx_find_def Let_def split: option.splits)

lemma find_Inr:
  "serverCtx_find host cm = (Inr cr, cm') \<Longrightarrow> (ctxMap cm host = None \<or> ctxMap cm host = Some None) \<and>
     cr = \<lparr>cr_host = host, useSerial = cm_serial cm, cr_pkey = (case keyList cm of [] \<Rightarrow> None | k # _ \<Rightarrow> Some k), cr_store = (ctxMap cm host = None)\<rparr> \<and>
     cm' = cm\<lparr>ctxMap := (ctxMap cm)(host \<mapsto> None), keyList := tl (keyList cm), cm_serial := cm_serial cm + 1\<rparr>"
  by (auto simp: serverCtx_find_def Let_def fun_upd_idem split: option.splits)

lemma serials_step: "cm_step s s' \<Longrightarrow> serials_ok s \<Longrightarrow> serials_ok s'"
proof (induction rule: cm_step.induct)
  case (create s t host cr cm)
  then show ?case by (auto simp: serials_ok_def dest!: find_Inr) (metis less_SucI less_irrefl_nat)+
next
  case (created s t cr ctx)
  then show ?case by (auto simp: serials_ok_def makeCert_def serverCtx_store_def)
qed (auto simp: serials_ok_def addKey_def connId_def dest!: find_Inl)

lemma cr_keys_upd: "cr_keys ((f(t := c)) t') = (if t' = t then cr_keys c else cr_keys (f t'))"
  by simp

lemma keys_step: "cm_step s s' \<Longrightarrow> keys_ok s \<Longrightarrow> keys_ok s'"
proof (induction rule: cm_step.induct)
  case (create s t host cr cm)
  have c: "keyList cm = tl (keyList (cs_cm s))" "cr_keys (Some cr) = (case keyList (cs_cm s) of [] \<Rightarrow> {} | k # _ \<Rightarrow> {k})"
    using find_Inr [OF create(2)] by (auto simp: cr_keys_def split: list.splits)
  from create(3) show ?case
    by (cases "keyList (cs_cm s)") (simp_all add: keys_ok_def cr_keys_upd c del: fun_upd_apply, blast)
next
  case (created s t cr ctx)
  have c: "keyList (serverCtx_store cr ctx (cs_cm s)) = keyList (cs_cm s)" "cr_keys None = {}"
      "cr_keys (Some cr) = set_option (cr_pkey cr)" "cx_key ctx = (case cr_pkey cr of None \<Rightarrow> cs_keys s | Some k \<Rightarrow> k)"
    using created(2) by (simp_all add: serverCtx_store_def cr_keys_def makeCert_def)
  have t: "\<forall>k \<in> set_option (cr_pkey cr). k < cs_keys s \<and> k \<notin> cx_key ` set (cs_made s) \<union> set (keyList (cs_cm s)) \<and>
        (\<forall>t'. k \<in> cr_keys (cs_thread s t') \<longrightarrow> t' = t)"
    using created(3) unfolding keys_ok_def by (metis created(1) c(3))
  from created(3) t show ?case
    by (cases "cr_pkey cr") (auto simp add: keys_ok_def cr_keys_upd c less_Suc_eq simp del: fun_upd_apply)
qed (auto simp: keys_ok_def addKey_def connId_def less_Suc_eq dest!: find_Inl)

lemma map_step: "cm_step s s' \<Longrightarrow> map_ok s \<Longrightarrow> map_ok s'"
proof (induction rule: cm_step.induct)
  case (found s t host ctx cm)
  then show ?case by (auto simp: map_ok_def dest!: find_Inl)
next
  case (create s t host cr cm)
  then show ?case by (auto simp: map_ok_def dest!: find_Inr split: if_splits) (metis option.distinct(1))+
next
  case (created s t cr ctx)
  then show ?case by (auto simp: map_ok_def makeCert_def serverCtx_store_def split: if_splits) (metis option.sel)+
qed (auto simp: map_ok_def addKey_def connId_def)

lemma pool_step: "cm_step s s' \<Longrightarrow> pool_ok s \<Longrightarrow> pool_ok s'"
  by (induction rule: cm_step.induct)
    (auto simp: pool_ok_def addKey_def connId_def serverCtx_store_def timer_add_def keysAvail_def dest!: find_Inl find_Inr)

lemma start_ok: "serials_ok (cm_start n) \<and> keys_ok (cm_start n) \<and> map_ok (cm_start n) \<and> pool_ok (cm_start n)"
  by (simp add: cm_start_def serials_ok_def keys_ok_def map_ok_def pool_ok_def cr_keys_def)

lemma reachable_ok:
  assumes "cm_step\<^sup>*\<^sup>* (cm_start n) s"
  shows "serials_ok s \<and> keys_ok s \<and> map_ok s \<and> pool_ok s"
  using assms
proof (induction rule: rtranclp_induct)
  case (step s s')
  then show ?case by (blast intro: serials_step keys_step map_step pool_step)
qed (rule start_ok)

text \<open>A context that is stored is never replaced.\<close>

lemma stored_step:
  assumes "cm_step s s'" "map_ok s" "ctxMap (cs_cm s) h = Some (Some ctx)"
  shows "ctxMap (cs_cm s') h = Some (Some ctx)"
  using assms
proof (induction rule: cm_step.induct)
  case (created s t cr ctx')
  then show ?case by (auto simp: map_ok_def serverCtx_store_def)
qed (auto simp: addKey_def connId_def dest!: find_Inl find_Inr)

lemma stored_steps:
  assumes "cm_step\<^sup>*\<^sup>* s s'" "map_ok s" "ctxMap (cs_cm s) h = Some (Some ctx)"
  shows "ctxMap (cs_cm s') h = Some (Some ctx) \<and> map_ok s'"
  using assms by (induction rule: rtranclp_induct) (auto intro: stored_step map_step)

text \<open>
  (C10) However the proxy threads and the main thread run: no two certificates have the same serial number
  or the same key, a thread is given a context for the host it asked for, the map holds contexts for
  their hosts, a host whose context is not there yet has exactly one thread that will store it, the
  pool never has more than 15 keys, and from any state on a context in the map stays there.
\<close>

theorem contexts_consistent:
  assumes "cm_step\<^sup>*\<^sup>* (cm_start n) s" and "cm_step\<^sup>*\<^sup>* s s'"
  shows "distinct (map cx_serial (cs_made s)) \<and> distinct (map cx_key (cs_made s)) \<and> length (keyList (cs_cm s)) \<le> 15 \<and>
    (\<forall>(h, ctx) \<in> set (cs_returned s). cx_host ctx = h \<and> ctx \<in> set (cs_made s)) \<and>
    (\<forall>h. ctxMap (cs_cm s) h = Some None \<longleftrightarrow> (\<exists>!t. \<exists>cr. cs_thread s t = Some cr \<and> cr_host cr = h \<and> cr_store cr)) \<and>
    (\<forall>h ctx. ctxMap (cs_cm s) h = Some (Some ctx) \<longrightarrow> cx_host ctx = h \<and> ctxMap (cs_cm s') h = Some (Some ctx))"
proof -
  from reachable_ok [OF assms(1)] have ok: "serials_ok s" "keys_ok s" "map_ok s" "pool_ok s" by auto
  have "ctxMap (cs_cm s) h = Some None \<longleftrightarrow> (\<exists>!t. \<exists>cr. cs_thread s t = Some cr \<and> cr_host cr = h \<and> cr_store cr)" for h
  proof
    assume "ctxMap (cs_cm s) h = Some None"
    then obtain t cr where "cs_thread s t = Some cr" "cr_host cr = h" "cr_store cr" using ok(3) unfolding map_ok_def by blast
    then show "\<exists>!t. \<exists>cr. cs_thread s t = Some cr \<and> cr_host cr = h \<and> cr_store cr"
      using ok(3) unfolding map_ok_def by (intro ex1I [of _ t]) blast+
  next
    assume "\<exists>!t. \<exists>cr. cs_thread s t = Some cr \<and> cr_host cr = h \<and> cr_store cr"
    then show "ctxMap (cs_cm s) h = Some None" using ok(3) unfolding map_ok_def by blast
  qed
  moreover have "cx_host ctx = h \<and> ctxMap (cs_cm s') h = Some (Some ctx)" if "ctxMap (cs_cm s) h = Some (Some ctx)" for h ctx
    using stored_steps [OF assms(2) ok(3) that] ok(3) that by (simp add: map_ok_def)
  ultimately show ?thesis using ok by (simp add: serials_ok_def keys_ok_def map_ok_def pool_ok_def)
qed

text \<open>Two threads ask for the same host before the first has stored its context.\<close>

definition sample_cr :: "nat \<Rightarrow> bool \<Rightarrow> creating" where
  "sample_cr i store = \<lparr>cr_host = ''h'', useSerial = i, cr_pkey = None, cr_store = store\<rparr>"

definition two_creating :: cm_sys where
  "two_creating = (cm_start 1)\<lparr>cs_cm := \<lparr>ctxMap = [''h'' \<mapsto> None], keyList = [], cm_serial = 3, nextConId = 0\<rparr>,
     cs_thread := (\<lambda>_. None)(0 := Some (sample_cr 1 True), 1 := Some (sample_cr 2 False))\<rparr>"

lemma two_creating_reached: "cm_step\<^sup>*\<^sup>* (cm_start 1) two_creating"
proof -
  define s1 where "s1 = (cm_start 1)\<lparr>cs_cm := \<lparr>ctxMap = [''h'' \<mapsto> None], keyList = [], cm_serial = 2, nextConId = 0\<rparr>,
     cs_thread := (\<lambda>_. None)(0 := Some (sample_cr 1 True))\<rparr>"
  have "cm_step (cm_start 1) s1"
    using create [of "cm_start 1" 0 "''h''" "sample_cr 1 True" "cs_cm s1"]
    by (simp add: s1_def cm_start_def serverCtx_find_def sample_cr_def)
  moreover have "cm_step s1 two_creating"
    using create [of s1 1 "''h''" "sample_cr 2 False" "cs_cm two_creating"]
    by (simp add: s1_def two_creating_def cm_start_def serverCtx_find_def sample_cr_def)
  ultimately show ?thesis by (meson converse_rtranclp_into_rtranclp rtranclp.rtrancl_refl)
qed

theorem contexts_consistent_witness:
  "cm_step\<^sup>*\<^sup>* (cm_start 1) two_creating \<and> (\<exists>!t. \<exists>cr. cs_thread two_creating t = Some cr \<and> cr_host cr = ''h'' \<and> cr_store cr)"
proof -
  have "ctxMap (cs_cm two_creating) ''h'' = Some None" by (simp add: two_creating_def)
  with contexts_consistent [OF two_creating_reached rtranclp.rtrancl_refl] two_creating_reached show ?thesis by blast
qed

end
