(* ===== verification/Spec2Isabelle.thy ===== *)
theory Spec2Isabelle
  imports Kdata_Messages Kdata_Concurrent Shuttle_Frames Genf_List Genf_Itq_Steps Genf_Packet_Stream
    Parse_Vpt_Tree Parse_Pair Parse_Tcp_Flow Parse_Decrypted Parse_Block Parse_Fetch Broker_Pubsub
    Sniff_Shuttle Tls_Proxy_Stream Tls_Names Tls_Contexts
begin

text \<open>
  A verification of netp.

  \<^bold>\<open>The program.\<close> netp watches network traffic and acts on it. A kernel module, \<open>kring\<close>, gives
  processes rings of pages in shared memory: data rings, written by one side without ever waiting
  for readers, and control rings, which lose nothing. A second module, \<open>shuttle\<close>, bridges two
  interfaces; it drops the frames of connections that were commanded to be blocked and copies the
  others into a data ring. In user space a traffic parser reads packets from the rings or from a
  capture, follows the TCP connections, and turns what they carry into a tree that patterns are
  matched against. A TLS proxy sits between a client and the true server and hands what it forwards
  to the same parser. A broker passes the messages that modules send on to subscribers and to a
  database. All user programs are built on a small library, \<open>genf\<close>: threads with queues between
  them, buffered connections, packets.

  \<^bold>\<open>How the theories follow the source.\<close>

  \<^item> \<open>Prelude\<close>: bytes, pages, loads and stores, lemmas on lists, words and maps that the components
    share. \<open>Text_Bytes\<close>: texts, their bytes and decimal numbers. \<open>Runs\<close>: sequences of steps that may crash, and the locale \<open>simulation\<close> that carries a
    correspondence of single steps over to runs. \<open>Fifo\<close>: the locale of a bounded queue and of what
    its clients may rely on; \<open>Kctrl_Queue\<close> and \<open>Kdata_Messages\<close> interpret it.
  \<^item> \<open>Kring_Types\<close>: the handle, the address, enumerations and error codes of src/kring/krdep.h and
    kring.h.
  \<^item> \<open>Kdata\<close> models src/kring/kdata.h, function by function, on the shared control block; \<open>Kdata_Ring\<close>
    has the invariant of a ring and what each operation does to it. \<open>Kring_Kern\<close> is the kernel's own
    use of a ring (src/kring/kdata.c), \<open>Kring_Lib\<close> the library in user space (src/kring/libdata.c).
    \<open>Kdata_Messages\<close> puts them together: the messages written are the messages read, in order, less
    those overwritten before a slow reader came to them. \<open>Kdata_Concurrent\<close> splits reading and
    writing at their atomic instructions and lets them interleave in any way.
  \<^item> \<open>Kctrl\<close> models src/kring/kctrl.h and libctrl.c, \<open>Kctrl_Queue\<close> shows that a control ring is a
    bounded queue, also with several writers.
  \<^item> \<open>Kring_Sets\<close> and \<open>Kring_Sockets\<close>: ring sets and sockets, src/kring/attribute.c and socket.c: the
    ids of readers and writers, binding, mapping, closing.
  \<^item> \<open>Avl\<close>, \<open>Avl_Tree\<close>, \<open>Avl_Insert\<close>: the tree of src/shuttle/avl.c on an explicit heap of elements,
    for any comparison that satisfies the locale \<open>three_way\<close>.
    \<open>Blocklist\<close>: the blocked connections, kept in such a tree. \<open>Shuttle\<close> and \<open>Shuttle_Frames\<close>: the
    commands and the frames of src/shuttle/attribute.c.
  \<^item> \<open>Genf_List\<close>: the doubly linked list of src/genf/list.h on a heap. \<open>Genf_Itq\<close> and the theories
    with that prefix: the queue between threads of src/genf/itq.cc, on a heap of blocks. \<open>Genf_Write\<close>:
    the buffered writing of src/genf/process.cc and connection.cc. \<open>Genf_Packet\<close> and
    \<open>Genf_Packet_Stream\<close>: the packets of src/genf/packet.cc, written by one process and taken apart
    by another.
  \<^item> \<open>Parse_Vpt\<close> and \<open>Parse_Vpt_Tree\<close>: the tree, the stack and the patterns of src/parse/node.cc.
    \<open>Parse_Pair\<close>: the pairs of request and response. \<open>Parse_Tcp\<close> and \<open>Parse_Tcp_Flow\<close>: the connections
    of src/parse/handler.cc, tcp.cc and udp.cc. \<open>Parse_Decrypted\<close>: src/parse/decrypted.cc.
    \<open>Parse_Block\<close>: src/parse/blockexec.cc. \<open>Parse_Fetch\<close>: the client of src/parse/connection.cc, as a
    step relation over its operations and the calls of the response parser. \<open>Parse_Dns\<close>: the machines of src/parse/dns.rl and their
    actions, as functions on positions in the packet; \<open>Parse_Dns_Message\<close> writes messages with
    compressed names and reads them back, and has two kinds of packets that overrun the parser. The
    locale \<open>dns_item\<close> is what questions and records have in common.
  \<^item> \<open>Sniff_Dns\<close>: what src/sniff/sniff.cc does with DNS answers, from the datagram to the commands on the
    control ring. \<open>Sniff_Shuttle\<close>: the same commands in the kernel module.
  \<^item> \<open>Broker_Stash\<close> and \<open>Broker_Text\<close>: how src/broker/main.cc describes messages and turns them into
    text. \<open>Broker\<close> and \<open>Broker_Pubsub\<close>: subscriptions, forwarding and the recent messages.
  \<^item> \<open>Tls_Proxy\<close> and \<open>Tls_Proxy_Stream\<close>: the two ends of src/tlsproxy/proxy.cc with the handshakes of
    src/genf/tls.cc, connection.cc and select.cc. \<open>Tls_Names\<close>: the names in a certificate. \<open>Tls_Contexts\<close>: the
    contexts, keys and serials that the threads of the proxy share, as a step relation.

  A structure of the source is a record with its members, an enumeration a datatype, a function a
  definition of the same name. State is passed and returned. Pointers that are compared or shared
  are addresses into a heap that is part of the state; unsigned integers that wrap are words, other
  integers of C are \<open>int\<close> with the width written out where it matters. A fault of the code, a null
  pointer or an index outside of an array, is the result \<open>None\<close>.

  \<^bold>\<open>What is shown.\<close> The rings and the queue between threads refine queues of messages, and the
  list, the tree of blocked connections, the pairs of the parser and the broker refine their
  abstract counterparts. Bytes are neither lost nor repeated nor reordered on their way through a
  write buffer, a packet connection, a fragmented kernel write, the identification of a protocol, a
  block of a scanner and the proxy; each of these theorems quantifies over how the bytes are cut
  into pieces and over what the kernel or OpenSSL answers. Reader and writer of a data ring never
  hold the same page, whatever the interleaving. No id of a ring is given out twice. A frame is
  forwarded exactly when its connection is not blocked, and a connection is blocked exactly when it
  was commanded. From a DNS answer for a watched name to the kernel that hands the connections to the
  host, each step is shown: the message is read back from its bytes, the address is commanded once, and
  the frame that follows the command is diverted. The fetch client has one request out at a
  time and gives its answer to it. The threads of the proxy never use a serial or a
  key twice and find the right context. The proxy writes nothing to a server that was not verified for the host. Round
  trips hold for packets, for DNS messages, for the descriptions of message types and for escaped text. Loops are
  functions with a termination proof, or return \<open>None\<close> when they do not end, and then the theorem
  says when they return. Where the code does not do what it means to, a lemma shows what it does:
  a second writer of a data ring, nested barriers of the parser, a name in a DNS packet that points to
  itself, a request that was written in part, a server that the proxy lost, and others; the comments at the definitions name them.

  \<^bold>\<open>Bounds.\<close> They are those of the source: 2048 pages of 4096 bytes in a ring, 6 readers, 32
  rings in a set, 65536 writers of a queue, messages shorter than 2^31
  bytes, 256 bytes for a name, 32 registered parts of names and 16384 bytes, what a pointer can reach,
  in a DNS packet, blocks of the proxy as long as the data of a decrypted page. No fuel is used; a schedule of
  what OpenSSL answers ends, and an end of the proxy whose schedule has ended answers that it would
  block.

  \<^bold>\<open>Parameters.\<close> Code that is not in the repository is an argument: the ropes and the removal from a
  vector of aapl, the answers of OpenSSL and of \<open>read\<close> and \<open>write\<close>, \<open>in_aton\<close> and \<open>kmalloc\<close>, the
  filters of libpcap, what the identifiers and parsers generated by Ragel do, the match functions of
  patterns, and what code generated from message descriptions unpacks. The hypotheses on them are
  named and the witness of each theorem instantiates them.

  \<^bold>\<open>Not modelled.\<close> The programs of the generator (written in Colm) and the scanners for HTTP, HTML
  and JSON (written in Ragel), whose C++ is generated; the loops of the sniffer around libpcap and the
  rings; decompression, which calls zlib and brotli; name lookup, signals,
  daemonising, logging and the command lines; how OpenSSL makes and reads keys and certificates, and
  the requests to the database with libcurl; freeing memory when a module is removed. The match
  functions of patterns are taken to look at the tree without changing it.
\<close>

end
